(* ===== verification/Prelude.thy ===== *)
theory Prelude
  imports Main "HOL-Library.Word" "HOL-Library.AList"
begin

unbundle bit_operations_syntax

text \<open>
  What the component theories share.

  The libraries verified here are TypeScript, so the prelude fixes how the values of the
  language are read: a \<open>BigInt\<close> is an \<open>int\<close> (its bitwise operators are the infinite
  two's-complement ones, exactly \<open>AND\<close>, \<open>OR\<close>, \<open>XOR\<close>, \<open>NOT\<close> on \<open>int\<close>); a \<open>Map\<close> or a
  null-prototype object is an association list in insertion order (\<open>map_of\<close> reads,
  \<open>AList.update\<close> overwrites in place or appends, as \<open>Map.set\<close> does, \<open>AList.delete\<close>
  deletes); a \<open>Set\<close> is a duplicate-free list in insertion order; a thrown exception is the
  \<open>Inl\<close> of a sum.  The collections \<open>js_simps\<close> and \<open>sum_simps\<close> gather the rewrite rules
  about them.
\<close>

named_theorems js_simps \<open>rewriting of the JavaScript containers and printers\<close>
named_theorems sum_simps \<open>rewriting of results of fallible code\<close>

subsection \<open>Fallible code\<close>

type_synonym ('e, 'a) result = "'e + 'a"

fun bindE :: "('e, 'a) result \<Rightarrow> ('a \<Rightarrow> ('e, 'b) result) \<Rightarrow> ('e, 'b) result" where
  "bindE (Inl e) f = Inl e"
| "bindE (Inr a) f = f a"

fun mapE :: "('a \<Rightarrow> ('e, 'b) result) \<Rightarrow> 'a list \<Rightarrow> ('e, 'b list) result" where
  "mapE f [] = Inr []"
| "mapE f (x # xs) = bindE (f x) (\<lambda>y. bindE (mapE f xs) (\<lambda>ys. Inr (y # ys)))"

fun foldE :: "('s \<Rightarrow> 'a \<Rightarrow> ('e, 's) result) \<Rightarrow> 's \<Rightarrow> 'a list \<Rightarrow> ('e, 's) result" where
  "foldE f s [] = Inr s"
| "foldE f s (x # xs) = bindE (f s x) (\<lambda>s'. foldE f s' xs)"

lemma bindE_Inr_iff [sum_simps]: "bindE r f = Inr b \<longleftrightarrow> (\<exists>a. r = Inr a \<and> f a = Inr b)"
  by (cases r) auto

lemma bindE_Inl_iff [sum_simps]:
  "bindE r f = Inl e \<longleftrightarrow> r = Inl e \<or> (\<exists>a. r = Inr a \<and> f a = Inl e)"
  by (cases r) auto

lemma bindE_assoc: "bindE (bindE r f) g = bindE r (\<lambda>a. bindE (f a) g)"
  by (cases r) auto

lemma ex_list_all2_Cons:
  "(\<exists>ys. list_all2 R (x # xs) ys \<and> Q ys) \<longleftrightarrow> (\<exists>y. R x y \<and> (\<exists>ys. list_all2 R xs ys \<and> Q (y # ys)))"
  by (auto simp: list_all2_Cons1)

lemma list_all2_Inr_iff: "list_all2 (\<lambda>x y. f x = Inr y) xs ys \<longleftrightarrow> map Inr ys = map f xs"
  by (auto simp: list_all2_conv_all_nth list_eq_iff_nth_eq)

lemma mapE_Inr_iff: "mapE f xs = Inr ys \<longleftrightarrow> list_all2 (\<lambda>x y. f x = Inr y) xs ys"
  by (induction xs arbitrary: ys) (auto simp: sum_simps list_all2_Cons1)

lemma mapE_cong [fundef_cong]:
  "xs = ys \<Longrightarrow> (\<And>x. x \<in> set ys \<Longrightarrow> f x = g x) \<Longrightarrow> mapE f xs = mapE g ys"
  by (induction ys arbitrary: xs) auto

lemma not_isl_iff: "\<not> isl r \<longleftrightarrow> (\<exists>a. r = Inr a)"
  by (cases r) simp_all

subsection \<open>Insertion-ordered maps and sets\<close>

lemma map_of_update [js_simps]: "map_of (AList.update k v al) = (map_of al)(k \<mapsto> v)"
  by (rule update_conv')

lemma map_of_delete [js_simps]: "map_of (AList.delete k al) = (map_of al)(k := None)"
  by (rule delete_conv')

lemma distinct_keys_update [intro]:
  "distinct (map fst al) \<Longrightarrow> distinct (map fst (AList.update k v al))"
  by (rule distinct_update)

lemma distinct_keys_delete [intro]:
  "distinct (map fst al) \<Longrightarrow> distinct (map fst (AList.delete k al))"
  by (rule distinct_delete)

lemma keys_update [js_simps]: "fst ` set (AList.update k v al) = insert k (fst ` set al)"
  by (induction al) auto

lemma length_update_le: "length (AList.update k v al) \<le> Suc (length al)"
  by (induction al) auto

lemma update_append_fresh: "k \<notin> fst ` set al \<Longrightarrow> AList.update k v al = al @ [(k, v)]"
  by (induction al) auto

definition set_add :: "'a \<Rightarrow> 'a list \<Rightarrow> 'a list" where
  "set_add x xs = (if x \<in> set xs then xs else xs @ [x])"

definition set_del :: "'a \<Rightarrow> 'a list \<Rightarrow> 'a list" where
  "set_del x xs = filter (\<lambda>y. y \<noteq> x) xs"

lemma set_set_add [simp]: "set (set_add x xs) = insert x (set xs)"
  by (auto simp: set_add_def)

lemma set_set_del [simp]: "set (set_del x xs) = set xs - {x}"
  by (auto simp: set_del_def)

lemma distinct_set_add [simp]: "distinct (set_add x xs) = distinct xs"
  by (auto simp: set_add_def)

lemma distinct_set_del [intro]: "distinct xs \<Longrightarrow> distinct (set_del x xs)"
  by (simp add: set_del_def)

lemma length_set_add_le: "length (set_add x xs) \<le> Suc (length xs)"
  by (simp add: set_add_def)

lemma length_set_add_fresh [simp]: "x \<notin> set xs \<Longrightarrow> length (set_add x xs) = Suc (length xs)"
  by (simp add: set_add_def)

lemma length_set_del_le: "length (set_del x xs) \<le> length xs"
  by (simp add: set_del_def)

lemma set_del_notin [simp]: "x \<notin> set xs \<Longrightarrow> set_del x xs = xs"
  unfolding set_del_def by (induction xs) auto

lemma length_set_del_in: "x \<in> set xs \<Longrightarrow> length (set_del x xs) < length xs"
  unfolding set_del_def by (rule length_filter_less[where x = x]) auto

lemma length_set_del_distinct:
  "distinct xs \<Longrightarrow> x \<in> set xs \<Longrightarrow> Suc (length (set_del x xs)) = length xs"
  proof (induction xs)
  case (Cons y ys)
  then show ?case
    by (cases "x = y") (use set_del_notin[of y ys] in \<open>auto simp: set_del_def\<close>)
qed simp

text \<open>\<open>[...new Set(xs)]\<close>: the elements in the order of their first occurrences.\<close>

definition dedup :: "'a list \<Rightarrow> 'a list" where
  "dedup xs = foldl (\<lambda>acc x. set_add x acc) [] xs"

lemma dedup_set_distinct: "set (dedup xs) = set xs \<and> distinct (dedup xs)"
proof -
  have "set (foldl (\<lambda>acc x. set_add x acc) acc xs) = set acc \<union> set xs \<and>
      (distinct acc \<longrightarrow> distinct (foldl (\<lambda>acc x. set_add x acc) acc xs))" for acc
    by (induction xs arbitrary: acc) auto
  then show ?thesis by (simp add: dedup_def)
qed

lemma set_dedup [simp]: "set (dedup xs) = set xs"
  by (simp add: dedup_set_distinct)

lemma distinct_dedup [simp]: "distinct (dedup xs)"
  by (simp add: dedup_set_distinct)

text \<open>Keys of a list of suspended tasks, some of which carry a key.\<close>

lemma map_filter_Cons:
  "List.map_filter f (x # xs) = (case f x of None \<Rightarrow> List.map_filter f xs | Some y \<Rightarrow> y # List.map_filter f xs)"
  by (cases "f x") (simp_all add: List.map_filter_def)

lemma map_filter_snoc [js_simps]:
  "List.map_filter f (xs @ [x]) = List.map_filter f xs @ (case f x of None \<Rightarrow> [] | Some y \<Rightarrow> [y])"
  by (cases "f x") (simp_all add: List.map_filter_def)

lemma set_map_filter: "set (List.map_filter f xs) = {y. \<exists>x \<in> set xs. f x = Some y}"
  by (force simp: List.map_filter_def)

lemma map_filter_remove1_None: "f x = None \<Longrightarrow> List.map_filter f (remove1 x xs) = List.map_filter f xs"
  by (induction xs) (auto simp: map_filter_Cons split: option.splits)

lemma map_filter_remove1_Some:
  "f x = Some y \<Longrightarrow> x \<in> set xs \<Longrightarrow> distinct (List.map_filter f xs) \<Longrightarrow>
     distinct (List.map_filter f (remove1 x xs)) \<and>
     set (List.map_filter f (remove1 x xs)) = set (List.map_filter f xs) - {y}"
proof (induction xs)
  case (Cons z zs)
  show ?case
  proof (cases "z = x")
    case True
    with Cons.prems show ?thesis by (simp add: map_filter_Cons)
  next
    case False
    have "f z \<noteq> Some y"
      using Cons.prems False by (force simp: map_filter_Cons set_map_filter)
    moreover have "distinct (List.map_filter f zs)"
      using Cons.prems(3) by (auto simp: map_filter_Cons split: option.splits)
    ultimately show ?thesis
      using Cons False by (auto simp: map_filter_Cons split: option.splits)
  qed
qed simp

text \<open>The object spread \<open>{...a, ...b}\<close>: the entries of \<open>b\<close> win.\<close>

definition spread :: "('k \<times> 'v) list \<Rightarrow> ('k \<times> 'v) list \<Rightarrow> ('k \<times> 'v) list" where
  "spread a b = foldl (\<lambda>acc (k, v). AList.update k v acc) a b"

subsection \<open>Numbers as text\<close>

text \<open>\<open>Number.prototype.toString(radix)\<close> and \<open>BigInt.prototype.toString(radix)\<close> for a radix
  of at most ten, and the value of a digit string.\<close>

definition digit_char :: "nat \<Rightarrow> char" where
  "digit_char d = char_of (48 + d)"

definition digit_val :: "char \<Rightarrow> nat" where
  "digit_val c = of_char c - 48"

definition is_digit :: "char \<Rightarrow> bool" where
  "is_digit c \<longleftrightarrow> 48 \<le> (of_char c :: nat) \<and> (of_char c :: nat) \<le> 57"

function radix_string :: "nat \<Rightarrow> nat \<Rightarrow> string" where
  "radix_string b n =
     (if b < 2 \<or> n < b then [digit_char n]
      else radix_string b (n div b) @ [digit_char (n mod b)])"
  by pat_completeness auto
termination
  by (relation "measure snd") auto

declare radix_string.simps [simp del]

definition radix_int :: "nat \<Rightarrow> int \<Rightarrow> string" where
  "radix_int b i = (if i < 0 then CHR ''-'' # radix_string b (nat (- i)) else radix_string b (nat i))"

definition digits_val :: "nat \<Rightarrow> string \<Rightarrow> nat" where
  "digits_val b s = foldl (\<lambda>acc c. acc * b + digit_val c) 0 s"

text \<open>The regular expression \<open>/^\d+$/\<close>.\<close>

definition all_digits :: "string \<Rightarrow> bool" where
  "all_digits s \<longleftrightarrow> s \<noteq> [] \<and> list_all is_digit s"

lemma digit_val_char [js_simps]: "d < 10 \<Longrightarrow> digit_val (digit_char d) = d"
  by (simp add: digit_val_def digit_char_def)

lemma is_digit_char [js_simps]: "d < 10 \<Longrightarrow> is_digit (digit_char d)"
  by (simp add: is_digit_def digit_char_def)

lemma radix_string_nonempty [simp]: "radix_string b n \<noteq> []"
  by (subst radix_string.simps) simp

lemma digits_val_snoc [js_simps]: "digits_val b (s @ [c]) = digits_val b s * b + digit_val c"
  by (simp add: digits_val_def)

lemma digits_val_radix:
  assumes "2 \<le> b" and "b \<le> 10"
  shows "digits_val b (radix_string b n) = n"
proof (induction n rule: less_induct)
  case (less n)
  show ?case
  proof (cases "n < b")
    case True
    then have "digit_val (digit_char n) = n" using assms(2) by (simp add: js_simps)
    with True show ?thesis
      by (subst radix_string.simps) (simp add: digits_val_def)
  next
    case False
    then have "n div b < n" using assms(1) by auto
    moreover have "n mod b < 10" using assms mod_less_divisor[of b n] by linarith
    ultimately show ?thesis
      using less False assms(1) by (subst radix_string.simps) (simp add: js_simps)
  qed
qed

lemma all_digits_radix:
  assumes "2 \<le> b" and "b \<le> 10"
  shows "all_digits (radix_string b n)"
proof (induction n rule: less_induct)
  case (less n)
  show ?case
  proof (cases "n < b")
    case True
    with assms(2) show ?thesis
      by (subst radix_string.simps) (simp add: all_digits_def js_simps)
  next
    case False
    then have "n div b < n" using assms(1) by auto
    moreover have "n mod b < 10" using assms mod_less_divisor[of b n] by linarith
    ultimately show ?thesis
      using less False assms(1) by (subst radix_string.simps) (auto simp: all_digits_def js_simps)
  qed
qed

text \<open>Decimal text of a natural number, read back.\<close>

lemma decimal_roundtrip [js_simps]:
  "all_digits (radix_string 10 n)" "digits_val 10 (radix_string 10 n) = n"
  by (simp_all add: all_digits_radix digits_val_radix)

subsection \<open>Bits of unbounded integers\<close>

text \<open>The set of bits a mask holds; the bitwise operators are the set operations.\<close>

definition mask_bits :: "int \<Rightarrow> nat set" where
  "mask_bits m = {n. bit m n}"

lemma mask_bits_eq_iff: "mask_bits a = mask_bits b \<longleftrightarrow> a = b"
  by (auto simp: mask_bits_def set_eq_iff intro: bit_eqI)

lemma mask_bits_0 [simp]: "mask_bits 0 = {}"
  by (simp add: mask_bits_def)

lemma mask_bits_OR [simp]: "mask_bits (a OR b) = mask_bits a \<union> mask_bits b"
  by (auto simp: mask_bits_def bit_simps)

lemma mask_bits_AND [simp]: "mask_bits (a AND b) = mask_bits a \<inter> mask_bits b"
  by (auto simp: mask_bits_def bit_simps)

lemma mask_bits_NOT [simp]: "mask_bits (NOT a) = - mask_bits a"
  by (auto simp: mask_bits_def bit_simps)

lemma AND_eq_iff_subset: "a AND b = b \<longleftrightarrow> mask_bits b \<subseteq> mask_bits a"
proof -
  have "a AND b = b \<longleftrightarrow> mask_bits (a AND b) = mask_bits b"
    by (simp only: mask_bits_eq_iff)
  then show ?thesis by auto
qed

end
