(* ===== verification/Permissions.thy ===== *)
theory Permissions
  imports Prelude
begin

unbundle bit_operations_syntax

text \<open>
  The bitmask permission engine of the package \<open>pact\<close>
  (\<open>src/packages/pact/Permissions.ts\<close>) and the grants helpers of \<open>grants.ts\<close>: the
  registry and the module catalog the constructor builds, the checks, the mask arithmetic,
  and the merging and (de)serialisation of grants.

  A plain object argument (the registry, the catalog, a grants object) is the list of its own
  enumerable entries in enumeration order, so its keys are distinct; a value that need not be
  a \<open>BigInt\<close> at run time is a \<open>bit_value\<close>.
\<close>

subsection \<open>Types\<close>

datatype bit_value = BigBit int | NotBigInt string

datatype perm_ref = PName string | PBit int

datatype pact_error =
    InvalidPermissionBit string
  | DuplicatePermissionBit string string
  | UnknownPermission "string option" string
  | UnknownModule string
  | PermissionNotInModule string string
  | PermissionDenied string string
  | InvalidGrants string

type_synonym grants = "(string \<times> int) list"

record module_entry =
  entry_mask :: int
  entry_names :: "string list"

record permissions =
  bits :: "(string \<times> int) list"
  modules :: "(string \<times> module_entry) list option"

subsection \<open>Construction\<close>

text \<open>The validation loop over the registry; \<open>seen\<close> maps a bit value to its first name.\<close>

fun check_bits ::
  "(string \<times> bit_value) list \<Rightarrow> (int \<times> string) list \<Rightarrow> (pact_error, (string \<times> int) list) result"
where
  "check_bits [] seen = Inr []"
| "check_bits ((name, v) # rest) seen =
     (case v of
        NotBigInt s \<Rightarrow> Inl (InvalidPermissionBit name)
      | BigBit b \<Rightarrow>
          if b \<le> 0 then Inl (InvalidPermissionBit name)
          else (case map_of seen b of
                  Some prior \<Rightarrow> Inl (DuplicatePermissionBit name prior)
                | None \<Rightarrow>
                    bindE (check_bits rest (AList.update b name seen)) (\<lambda>r. Inr ((name, b) # r))))"

fun module_mask ::
  "(string \<times> int) list \<Rightarrow> string \<Rightarrow> string list \<Rightarrow> int \<Rightarrow> (pact_error, int) result"
where
  "module_mask bs m [] msk = Inr msk"
| "module_mask bs m (name # names) msk =
     (case map_of bs name of
        None \<Rightarrow> Inl (UnknownPermission (Some m) name)
      | Some b \<Rightarrow> module_mask bs m names (msk OR b))"

fun build_modules ::
  "(string \<times> int) list \<Rightarrow> (string \<times> string list) list \<Rightarrow> (string \<times> module_entry) list
    \<Rightarrow> (pact_error, (string \<times> module_entry) list) result"
where
  "build_modules bs [] acc = Inr acc"
| "build_modules bs ((m, names) # rest) acc =
     bindE (module_mask bs m names 0) (\<lambda>msk.
       build_modules bs rest
         (AList.update m \<lparr>entry_mask = msk, entry_names = names\<rparr> acc))"

definition new_permissions ::
  "(string \<times> bit_value) list \<Rightarrow> (string \<times> string list) list option
    \<Rightarrow> (pact_error, permissions) result"
where
  "new_permissions bs mods =
     bindE (check_bits bs []) (\<lambda>registry.
       case mods of
         None \<Rightarrow> Inr \<lparr>bits = registry, modules = None\<rparr>
       | Some ms \<Rightarrow>
           bindE (build_modules registry ms []) (\<lambda>cat.
             Inr \<lparr>bits = registry, modules = Some cat\<rparr>))"

subsection \<open>Checks\<close>

fun label :: "perm_ref \<Rightarrow> string" where
  "label (PBit b) = ''0b'' @ radix_int 2 b"
| "label (PName n) = n"

definition module_names :: "permissions \<Rightarrow> string list" where
  "module_names P = (case modules P of None \<Rightarrow> [] | Some cat \<Rightarrow> map fst cat)"

fun resolve :: "permissions \<Rightarrow> perm_ref \<Rightarrow> (pact_error, int) result" where
  "resolve P (PBit b) = Inr b"
| "resolve P (PName n) =
     (case map_of (bits P) n of
        None \<Rightarrow> Inl (UnknownPermission None n)
      | Some b \<Rightarrow> Inr b)"

definition requireApplicable ::
  "permissions \<Rightarrow> string \<Rightarrow> perm_ref \<Rightarrow> (pact_error, int) result"
where
  "requireApplicable P m p =
     bindE (resolve P p) (\<lambda>b.
       case modules P of
         None \<Rightarrow> Inr b
       | Some cat \<Rightarrow>
           (case map_of cat m of
              None \<Rightarrow> Inl (UnknownModule m)
            | Some entry \<Rightarrow>
                if entry_mask entry AND b \<noteq> b
                then Inl (PermissionNotInModule m (label p))
                else Inr b))"

definition held_mask :: "grants \<Rightarrow> string \<Rightarrow> int" where
  "held_mask g m = (case map_of g m of None \<Rightarrow> 0 | Some msk \<Rightarrow> msk)"

definition has :: "permissions \<Rightarrow> string \<Rightarrow> perm_ref \<Rightarrow> grants \<Rightarrow> (pact_error, bool) result" where
  "has P m p g =
     bindE (requireApplicable P m p) (\<lambda>b.
       if b = 0 then Inr True else Inr (held_mask g m AND b = b))"

fun has_any ::
  "permissions \<Rightarrow> string \<Rightarrow> perm_ref list \<Rightarrow> grants \<Rightarrow> (pact_error, bool) result"
where
  "has_any P m [] g = Inr False"
| "has_any P m (p # ps) g =
     bindE (has P m p g) (\<lambda>ok. if ok then Inr True else has_any P m ps g)"

fun has_all ::
  "permissions \<Rightarrow> string \<Rightarrow> perm_ref list \<Rightarrow> grants \<Rightarrow> (pact_error, bool) result"
where
  "has_all P m [] g = Inr True"
| "has_all P m (p # ps) g =
     bindE (has P m p g) (\<lambda>ok. if ok then has_all P m ps g else Inr False)"

definition assert_perm ::
  "permissions \<Rightarrow> string \<Rightarrow> perm_ref \<Rightarrow> grants \<Rightarrow> (pact_error, unit) result"
where
  "assert_perm P m p g =
     bindE (has P m p g) (\<lambda>ok. if ok then Inr () else Inl (PermissionDenied m (label p)))"

subsection \<open>Mask arithmetic\<close>

definition grant :: "permissions \<Rightarrow> int \<Rightarrow> perm_ref list \<Rightarrow> (pact_error, int) result" where
  "grant P msk ps = foldE (\<lambda>m p. bindE (resolve P p) (\<lambda>b. Inr (m OR b))) msk ps"

definition revoke :: "permissions \<Rightarrow> int \<Rightarrow> perm_ref list \<Rightarrow> (pact_error, int) result" where
  "revoke P msk ps = foldE (\<lambda>m p. bindE (resolve P p) (\<lambda>b. Inr (m AND NOT b))) msk ps"

record mask_diff =
  added :: int
  removed :: int

definition diff :: "int \<Rightarrow> int \<Rightarrow> mask_diff" where
  "diff a b = \<lparr>added = b AND NOT a, removed = a AND NOT b\<rparr>"

definition namesFor :: "permissions \<Rightarrow> string \<Rightarrow> (pact_error, string list) result" where
  "namesFor P m =
     (case modules P of
        None \<Rightarrow> Inr (map fst (bits P))
      | Some cat \<Rightarrow>
          (case map_of cat m of
             None \<Rightarrow> Inl (UnknownModule m)
           | Some entry \<Rightarrow> Inr (entry_names entry)))"

text \<open>\<open>toNames\<close> reads \<open>bits[name]!\<close>: the names come from the catalog or the registry, so the
  constructor has checked them (see \<open>namesFor_known\<close> below).\<close>

definition toNames :: "permissions \<Rightarrow> string \<Rightarrow> int \<Rightarrow> (pact_error, string list) result" where
  "toNames P m msk =
     bindE (namesFor P m) (\<lambda>names.
       Inr (filter (\<lambda>n. case map_of (bits P) n of
                          None \<Rightarrow> False | Some b \<Rightarrow> msk AND b = b) names))"

definition toMask :: "permissions \<Rightarrow> string \<Rightarrow> string list \<Rightarrow> (pact_error, int) result" where
  "toMask P m names =
     foldE (\<lambda>acc n. bindE (requireApplicable P m (PName n)) (\<lambda>b. Inr (acc OR b))) 0 names"

subsection \<open>Grants\<close>

definition merge_grants :: "grants \<Rightarrow> grants \<Rightarrow> grants" where
  "merge_grants combined g =
     foldl (\<lambda>acc (m, msk). AList.update m (held_mask acc m OR msk) acc) combined g"

definition combineGrants :: "grants option list \<Rightarrow> grants" where
  "combineGrants sets =
     foldl (\<lambda>acc s. case s of None \<Rightarrow> acc | Some g \<Rightarrow> merge_grants acc g) [] sets"

definition serializeGrants :: "grants \<Rightarrow> (string \<times> string) list" where
  "serializeGrants g = foldl (\<lambda>wire (m, msk). AList.update m (radix_int 10 msk) wire) [] g"

text \<open>The wire values: a string, a \<open>number\<close> (an integer or not), a \<open>BigInt\<close>, or anything
  else an untyped caller passes.\<close>

datatype wire_value = WStr string | WInteger int | WNonInteger | WBig int | WOther

fun wire_mask :: "string \<Rightarrow> wire_value \<Rightarrow> (pact_error, int) result" where
  "wire_mask m (WBig i) = Inr i"
| "wire_mask m (WInteger i) = (if i < 0 then Inl (InvalidGrants m) else Inr i)"
| "wire_mask m WNonInteger = Inl (InvalidGrants m)"
| "wire_mask m (WStr s) =
     (if all_digits s then Inr (int (digits_val 10 s)) else Inl (InvalidGrants m))"
| "wire_mask m WOther = Inl (InvalidGrants m)"

definition deserializeGrants :: "(string \<times> wire_value) list \<Rightarrow> (pact_error, grants) result" where
  "deserializeGrants input =
     foldE (\<lambda>acc (m, v). bindE (wire_mask m v) (\<lambda>msk.
              if msk < 0 then Inl (InvalidGrants m) else Inr (AList.update m msk acc)))
       [] input"

subsection \<open>Construction: what the catalog guarantees\<close>

definition entry_ok :: "(string \<times> int) list \<Rightarrow> module_entry \<Rightarrow> bool" where
  "entry_ok bs e \<longleftrightarrow>
     set (entry_names e) \<subseteq> dom (map_of bs) \<and>
     mask_bits (entry_mask e) = (\<Union>n \<in> set (entry_names e). mask_bits (the (map_of bs n)))"

definition cat_ok :: "(string \<times> int) list \<Rightarrow> (string \<times> module_entry) list \<Rightarrow> bool" where
  "cat_ok bs cat \<longleftrightarrow> distinct (map fst cat) \<and> (\<forall>e \<in> snd ` set cat. entry_ok bs e)"

definition perms_wf :: "permissions \<Rightarrow> bool" where
  "perms_wf P \<longleftrightarrow>
     distinct (map fst (bits P)) \<and> distinct (map snd (bits P)) \<and>
     (\<forall>b \<in> snd ` set (bits P). 0 < b) \<and>
     (\<forall>cat. modules P = Some cat \<longrightarrow> cat_ok (bits P) cat)"

lemma check_bits_Cons_Inr:
  "check_bits ((name, v) # rest) seen = Inr r \<longleftrightarrow>
     (\<exists>b r'. v = BigBit b \<and> 0 < b \<and> map_of seen b = None \<and>
        check_bits rest (AList.update b name seen) = Inr r' \<and> r = (name, b) # r')"
  by (auto simp: sum_simps split: bit_value.splits option.splits if_splits)

lemma check_bits_Inr_iff:
  "check_bits bs seen = Inr r \<longleftrightarrow>
     bs = map (\<lambda>(n, b). (n, BigBit b)) r \<and> (\<forall>(n, b) \<in> set r. 0 < b \<and> map_of seen b = None) \<and>
     distinct (map snd r)"
proof (induction bs arbitrary: seen r)
  case (Cons x rest)
  obtain name v where x: "x = (name, v)" by (cases x)
  have fresh: "(\<forall>(n, c) \<in> set r'. 0 < c \<and> ((map_of seen)(b \<mapsto> name)) c = None) \<longleftrightarrow>
      (\<forall>(n, c) \<in> set r'. 0 < c \<and> map_of seen c = None) \<and> b \<notin> snd ` set r'" for b r'
    by (induction r') auto
  show ?case
    unfolding x check_bits_Cons_Inr Cons.IH map_of_update fresh
    by (cases r) (auto simp del: set_map simp: set_map[symmetric] intro: image_eqI)
qed auto

lemma module_mask_Inr_iff:
  "module_mask bs m names k = Inr r \<longleftrightarrow>
     set names \<subseteq> dom (map_of bs) \<and> r = foldl (\<lambda>k n. k OR the (map_of bs n)) k names"
  by (induction names arbitrary: k) (auto split: option.splits)

lemma mask_bits_foldl_OR:
  "mask_bits (foldl (\<lambda>k n. k OR f n) k names) = mask_bits k \<union> (\<Union>n \<in> set names. mask_bits (f n))"
  by (induction names arbitrary: k) auto

lemma module_mask_entry_ok:
  "module_mask bs m names 0 = Inr k \<Longrightarrow> entry_ok bs \<lparr>entry_mask = k, entry_names = names\<rparr>"
  by (auto simp: module_mask_Inr_iff entry_ok_def mask_bits_foldl_OR)

lemma values_update: "snd ` set (AList.update k v al) \<subseteq> insert v (snd ` set al)"
  by (induction al) auto

lemma cat_ok_update: "cat_ok bs cat \<Longrightarrow> entry_ok bs e \<Longrightarrow> cat_ok bs (AList.update m e cat)"
  unfolding cat_ok_def using values_update[of m e cat] by (blast intro: distinct_update)

lemma build_modules_cat_ok:
  "build_modules bs ms acc = Inr cat \<Longrightarrow> cat_ok bs acc \<Longrightarrow> cat_ok bs cat"
proof (induction bs ms acc rule: build_modules.induct)
  case (2 bs m names rest acc)
  from "2.prems"(1) obtain k where k: "module_mask bs m names 0 = Inr k"
    and rest: "build_modules bs rest
      (AList.update m \<lparr>entry_mask = k, entry_names = names\<rparr> acc) = Inr cat"
    by (auto simp: sum_simps)
  show ?case
    using "2.IH"[OF rest] "2.prems"(2) module_mask_entry_ok[OF k] by (simp add: cat_ok_update)
qed simp

lemma build_modules_succeeds_iff:
  "(\<exists>cat. build_modules bs ms acc = Inr cat) \<longleftrightarrow>
     (\<forall>names \<in> snd ` set ms. set names \<subseteq> dom (map_of bs))"
proof (induction bs ms acc rule: build_modules.induct)
  case (2 bs m names rest acc)
  show ?case
  proof (cases "module_mask bs m names 0")
    case (Inl e)
    then have "\<not> set names \<subseteq> dom (map_of bs)"
      using module_mask_Inr_iff[of bs m names 0] by fastforce
    with Inl show ?thesis by simp
  next
    case (Inr k)
    then have "set names \<subseteq> dom (map_of bs)" by (simp add: module_mask_Inr_iff)
    then show ?thesis using "2.IH"[of k] Inr by simp
  qed
qed simp


text \<open>Lemma: a permission engine that the constructor returns is well formed: registry keys and
  bit values are distinct, every bit is positive, and every module's cached mask holds exactly
  the bits of the module's names, each of which is registered.\<close>

theorem new_permissions_wf:
  assumes "distinct (map fst bs)" and "new_permissions bs mods = Inr P"
  shows "perms_wf P"
proof -
  from assms(2) obtain r where r: "check_bits bs [] = Inr r"
    and P: "(mods = None \<and> P = \<lparr>bits = r, modules = None\<rparr>) \<or>
      (\<exists>ms cat. mods = Some ms \<and> build_modules r ms [] = Inr cat \<and> P = \<lparr>bits = r, modules = Some cat\<rparr>)"
    by (auto simp: new_permissions_def sum_simps split: option.splits)
  have "distinct (map fst r)" "distinct (map snd r)" "\<forall>b \<in> snd ` set r. 0 < b"
    using r assms(1) by (auto simp: check_bits_Inr_iff o_def split_beta)
  moreover have "cat_ok r cat" if "build_modules r ms [] = Inr cat" for ms cat
    using build_modules_cat_ok[OF that] by (simp add: cat_ok_def)
  ultimately show ?thesis using P by (auto simp: perms_wf_def)
qed

text \<open>C22: construction succeeds exactly when every bit is a positive \<open>BigInt\<close>, no two names share
  one, and the catalog mentions registered names only; otherwise it throws.\<close>

theorem new_permissions_succeeds_iff:
  "(\<exists>P. new_permissions bs mods = Inr P) \<longleftrightarrow>
     (\<exists>r. bs = map (\<lambda>(n, b). (n, BigBit b)) r \<and> (\<forall>(n, b) \<in> set r. 0 < b) \<and> distinct (map snd r)) \<and>
     (case mods of None \<Rightarrow> True | Some ms \<Rightarrow> \<forall>names \<in> snd ` set ms. set names \<subseteq> fst ` set bs)"
proof (cases "check_bits bs []")
  case (Inl e)
  then have no: "\<nexists>r. bs = map (\<lambda>(n, b). (n, BigBit b)) r \<and> (\<forall>(n, b) \<in> set r. 0 < b) \<and> distinct (map snd r)"
    using check_bits_Inr_iff[of bs "[]"] by auto
  with Inl show ?thesis by (simp only: new_permissions_def bindE.simps sum.distinct simp_thms)
next
  case (Inr r)
  then have ok: "\<exists>r. bs = map (\<lambda>(n, b). (n, BigBit b)) r \<and> (\<forall>(n, b) \<in> set r. 0 < b) \<and> distinct (map snd r)"
    and dom: "dom (map_of r) = fst ` set bs"
    by (force simp: check_bits_Inr_iff dom_map_of_conv_image_fst)+
  have "(\<exists>P. new_permissions bs mods = Inr P) \<longleftrightarrow>
      (case mods of None \<Rightarrow> True | Some ms \<Rightarrow> \<exists>cat. build_modules r ms [] = Inr cat)"
    using Inr by (cases mods) (auto simp: new_permissions_def sum_simps)
  also have "\<dots> \<longleftrightarrow> (case mods of None \<Rightarrow> True | Some ms \<Rightarrow> \<forall>names \<in> snd ` set ms. set names \<subseteq> fst ` set bs)"
    by (simp only: build_modules_succeeds_iff dom)
  finally show ?thesis using ok by (simp only: simp_thms)
qed

subsection \<open>Checks\<close>

text \<open>What a reference denotes once the catalog has accepted it.\<close>

lemma requireApplicable_Inr_iff:
  "requireApplicable P m p = Inr b \<longleftrightarrow>
     resolve P p = Inr b \<and>
     (\<forall>cat. modules P = Some cat \<longrightarrow>
        (\<exists>e. map_of cat m = Some e \<and> mask_bits b \<subseteq> mask_bits (entry_mask e)))"
proof (cases "resolve P p")
  case (Inr c)
  show ?thesis
  proof (cases "modules P")
    case (Some cat)
    with Inr show ?thesis
      by (cases "map_of cat m") (auto simp: requireApplicable_def AND_eq_iff_subset)
  qed (simp add: requireApplicable_def Inr)
qed (simp add: requireApplicable_def)

lemma has_Inr_iff:
  "has P m p g = Inr ok \<longleftrightarrow>
     (\<exists>b. requireApplicable P m p = Inr b \<and> ok = (mask_bits b \<subseteq> mask_bits (held_mask g m)))"
  by (auto simp: has_def sum_simps AND_eq_iff_subset)

text \<open>C18: a check answers from the bits alone: it returns a verdict exactly when the reference
  resolves and, with a catalog, the module is declared and covers the reference's bits; the
  verdict is whether the bits of the reference are among those the grants hold on the module
  (an absent module holds none).\<close>

theorem has_decides_bit_inclusion:
  "has P m p g = Inr ok \<longleftrightarrow>
     (\<exists>b. (p = PBit b \<or> (\<exists>n. p = PName n \<and> map_of (bits P) n = Some b)) \<and>
        (case modules P of None \<Rightarrow> True
         | Some cat \<Rightarrow> \<exists>e. map_of cat m = Some e \<and> mask_bits b \<subseteq> mask_bits (entry_mask e)) \<and>
        ok = (mask_bits b \<subseteq> (case map_of g m of None \<Rightarrow> {} | Some k \<Rightarrow> mask_bits k)))"
proof -
  have res: "resolve P p = Inr b \<longleftrightarrow> p = PBit b \<or> (\<exists>n. p = PName n \<and> map_of (bits P) n = Some b)" for b
    by (cases p) (auto split: option.splits)
  have held: "mask_bits (held_mask g m) = (case map_of g m of None \<Rightarrow> {} | Some k \<Rightarrow> mask_bits k)"
    by (simp add: held_mask_def split: option.splits)
  show ?thesis
    unfolding has_Inr_iff requireApplicable_Inr_iff res held
    by (cases "modules P") auto
qed

lemma has_any_Inr_True: "has_any P m ps g = Inr True \<Longrightarrow> \<exists>p \<in> set ps. has P m p g = Inr True"
  by (induction ps) (auto simp: sum_simps split: if_splits)

lemma has_any_Inr_False: "has_any P m ps g = Inr False \<longleftrightarrow> (\<forall>p \<in> set ps. has P m p g = Inr False)"
  by (induction ps) (auto simp: sum_simps split: if_splits)

lemma has_all_Inr_True: "has_all P m ps g = Inr True \<longleftrightarrow> (\<forall>p \<in> set ps. has P m p g = Inr True)"
  by (induction ps) (auto simp: sum_simps split: if_splits)

subsection \<open>Mask arithmetic\<close>

lemma grant_Inr_iff:
  "grant P k ps = Inr r \<longleftrightarrow>
     (\<exists>bs. list_all2 (\<lambda>p b. resolve P p = Inr b) ps bs \<and> r = foldl (\<lambda>x b. x OR b) k bs)"
  unfolding grant_def
proof (induction ps arbitrary: k)
  case (Cons p ps)
  then show ?case by (simp add: sum_simps ex_list_all2_Cons bindE_assoc)
qed auto

lemma revoke_Inr_iff:
  "revoke P k ps = Inr r \<longleftrightarrow>
     (\<exists>bs. list_all2 (\<lambda>p b. resolve P p = Inr b) ps bs \<and> r = foldl (\<lambda>x b. x AND NOT b) k bs)"
  unfolding revoke_def
proof (induction ps arbitrary: k)
  case (Cons p ps)
  then show ?case by (simp add: sum_simps ex_list_all2_Cons bindE_assoc)
qed auto

lemma mask_bits_foldl_ANDNOT:
  "mask_bits (foldl (\<lambda>x b. x AND NOT b) k bs) = mask_bits k - (\<Union>b \<in> set bs. mask_bits b)"
  by (induction bs arbitrary: k) auto

lemma resolves_unique:
  "list_all2 (\<lambda>p b. resolve P p = Inr b) ps bs \<Longrightarrow> list_all2 (\<lambda>p b. resolve P p = Inr b) ps cs \<Longrightarrow> cs = bs"
  by (metis list_all2_Inr_iff inj_Inr list.inj_map_strong sum.inject(2))

text \<open>Lemma: granting adds exactly the bits of the listed permissions, so that each of them is then
  held; revoking the same list takes exactly those bits away again and leaves every other bit of
  the mask as it was.\<close>

theorem grant_then_revoke:
  assumes "grant P k ps = Inr k1" and "revoke P k1 ps = Inr k2"
  shows "\<exists>bs. list_all2 (\<lambda>p b. resolve P p = Inr b) ps bs \<and>
     mask_bits k1 = mask_bits k \<union> (\<Union>b \<in> set bs. mask_bits b) \<and>
     (\<forall>b \<in> set bs. k1 AND b = b) \<and>
     mask_bits k2 = mask_bits k - (\<Union>b \<in> set bs. mask_bits b)"
proof -
  from assms(1) obtain bs where bs: "list_all2 (\<lambda>p b. resolve P p = Inr b) ps bs"
    and k1: "k1 = foldl (\<lambda>x b. x OR b) k bs" by (auto simp: grant_Inr_iff)
  from assms(2) bs have k2: "k2 = foldl (\<lambda>x b. x AND NOT b) k1 bs"
    by (auto simp: revoke_Inr_iff dest: resolves_unique)
  have "mask_bits k1 = mask_bits k \<union> (\<Union>b \<in> set bs. mask_bits b)"
    unfolding k1 using mask_bits_foldl_OR[of "\<lambda>b. b" k bs] by simp
  then show ?thesis
    using bs k2 by (auto simp: mask_bits_foldl_ANDNOT AND_eq_iff_subset)
qed

lemma diff_roundtrip: "(a OR added (diff a b)) AND NOT (removed (diff a b)) = b"
  by (simp add: diff_def flip: mask_bits_eq_iff) blast

lemma namesFor_known:
  assumes "perms_wf P" and "namesFor P m = Inr names"
  shows "set names \<subseteq> dom (map_of (bits P))"
proof (cases "modules P")
  case None
  with assms(2) show ?thesis by (auto simp: namesFor_def dom_map_of_conv_image_fst)
next
  case (Some cat)
  with assms show ?thesis
    by (auto simp: namesFor_def perms_wf_def cat_ok_def entry_ok_def dest!: map_of_SomeD
        split: option.splits) force
qed

lemma toMask_Inr_iff:
  "toMask P m names = Inr k \<longleftrightarrow>
     (\<forall>n \<in> set names. \<exists>b. requireApplicable P m (PName n) = Inr b) \<and>
     k = foldl (\<lambda>acc n. acc OR the (map_of (bits P) n)) 0 names"
proof -
  have "foldE (\<lambda>acc n. bindE (requireApplicable P m (PName n)) (\<lambda>b. Inr (acc OR b))) a names = Inr k \<longleftrightarrow>
      (\<forall>n \<in> set names. \<exists>b. requireApplicable P m (PName n) = Inr b) \<and>
      k = foldl (\<lambda>acc n. acc OR the (map_of (bits P) n)) a names" for a
    by (induction names arbitrary: a) (auto simp: sum_simps requireApplicable_Inr_iff split: option.splits)
  then show ?thesis by (simp add: toMask_def)
qed

lemma mask_bits_nonempty: "0 < b \<Longrightarrow> mask_bits b \<noteq> {}"
  by (metis mask_bits_0 mask_bits_eq_iff less_irrefl)

text \<open>C23: when the registry's bits are disjoint (each permission a bit of its own), the mask built
  from a list of applicable names decomposes into exactly those names, in catalog order.\<close>

theorem toNames_toMask:
  assumes wf: "perms_wf P"
    and disj: "\<forall>(n, b) \<in> set (bits P). \<forall>(n', b') \<in> set (bits P). n = n' \<or> mask_bits b \<inter> mask_bits b' = {}"
    and mk: "toMask P m names = Inr k" and all: "namesFor P m = Inr all"
  shows "toNames P m k = Inr (filter (\<lambda>n. n \<in> set names) all)"
proof -
  define bit_of where "bit_of n = the (map_of (bits P) n)" for n
  from mk have known: "set names \<subseteq> dom (map_of (bits P))"
    by (auto simp: toMask_Inr_iff requireApplicable_Inr_iff split: option.splits)
  have k: "mask_bits k = (\<Union>n \<in> set names. mask_bits (bit_of n))"
    using mk by (simp add: toMask_Inr_iff mask_bits_foldl_OR bit_of_def)
  have bit_in: "(n, bit_of n) \<in> set (bits P)" if "n \<in> dom (map_of (bits P))" for n
    using that by (auto simp: bit_of_def dest: map_of_SomeD)
  have "k AND bit_of n = bit_of n \<longleftrightarrow> n \<in> set names" if n: "n \<in> dom (map_of (bits P))" for n
  proof -
    have "mask_bits (bit_of n) \<noteq> {}"
      using wf bit_in[OF n] by (intro mask_bits_nonempty) (force simp: perms_wf_def)
    moreover have "mask_bits (bit_of n) \<inter> mask_bits (bit_of n') = {}" if "n' \<in> set names" "n' \<noteq> n" for n'
      using disj bit_in[OF n] bit_in[of n'] known that by fastforce
    ultimately show ?thesis unfolding AND_eq_iff_subset k by blast
  qed
  then have "filter (\<lambda>n. case map_of (bits P) n of None \<Rightarrow> False | Some b \<Rightarrow> k AND b = b) all
      = filter (\<lambda>n. n \<in> set names) all"
    using namesFor_known[OF wf all] by (intro filter_cong) (force simp: bit_of_def)+
  then show ?thesis by (simp add: toNames_def all)
qed


subsection \<open>Grants\<close>

text \<open>
  A source of grants in the \<open>allow-only\<close> sense of the package: merging two of them can only add
  bits.  The locale is the interface that a permission check needs from whatever merges grants
  (the direct grants of a principal, the grants of its groups).
\<close>

locale allow_only_grants =
  fixes held :: "'g \<Rightarrow> string \<Rightarrow> int" and merge :: "'g \<Rightarrow> 'g \<Rightarrow> 'g" and valid :: "'g \<Rightarrow> bool"
  assumes valid_merge: "valid a \<Longrightarrow> valid b \<Longrightarrow> valid (merge a b)"
    and held_merge: "valid a \<Longrightarrow> valid b \<Longrightarrow> held (merge a b) m = held a m OR held b m"
begin

lemma valid_foldl: "valid a \<Longrightarrow> \<forall>g \<in> set gs. valid g \<Longrightarrow> valid (foldl merge a gs)"
  by (induction gs arbitrary: a) (auto intro: valid_merge)

lemma held_foldl:
  "valid a \<Longrightarrow> \<forall>g \<in> set gs. valid g \<Longrightarrow>
     mask_bits (held (foldl merge a gs) m) = mask_bits (held a m) \<union> (\<Union>g \<in> set gs. mask_bits (held g m))"
  by (induction gs arbitrary: a) (auto simp: held_merge valid_merge)

lemma merge_mono: "valid a \<Longrightarrow> valid b \<Longrightarrow> mask_bits (held a m) \<subseteq> mask_bits (held (merge a b) m)"
  by (simp add: held_merge)

end

lemma held_merge_grants:
  "distinct (map fst b) \<Longrightarrow> held_mask (merge_grants a b) m = held_mask a m OR held_mask b m"
proof (induction b arbitrary: a)
  case Nil
  then show ?case by (simp add: merge_grants_def held_mask_def)
next
  case (Cons x b)
  obtain k msk where x: "x = (k, msk)" by (cases x)
  have "merge_grants a (x # b) = merge_grants (AList.update k (held_mask a k OR msk) a) b"
    by (simp add: merge_grants_def x)
  moreover have "held_mask b k = 0"
    using Cons.prems by (auto simp: x held_mask_def dest: map_of_SomeD split: option.splits) force
  ultimately show ?case
    using Cons by (auto simp: x held_mask_def js_simps or.assoc)
qed

lemma distinct_merge_grants: "distinct (map fst a) \<Longrightarrow> distinct (map fst (merge_grants a b))"
  unfolding merge_grants_def
  by (induction b arbitrary: a) (auto intro: distinct_update)

interpretation gr: allow_only_grants held_mask merge_grants "\<lambda>g. distinct (map fst g)"
  by unfold_locales (auto simp: held_merge_grants distinct_merge_grants)

definition given_grants :: "grants option list \<Rightarrow> grants list" where
  "given_grants sets = List.map_filter (\<lambda>s. s) sets"

lemma combineGrants_foldl: "combineGrants sets = foldl merge_grants [] (given_grants sets)"
proof -
  have "foldl (\<lambda>acc s. case s of None \<Rightarrow> acc | Some g \<Rightarrow> merge_grants acc g) a sets
      = foldl merge_grants a (given_grants sets)" for a
    unfolding given_grants_def
    by (induction sets arbitrary: a) (auto simp: List.map_filter_def split: option.splits)
  then show ?thesis by (simp add: combineGrants_def)
qed

lemma set_given_grants [simp]: "set (given_grants sets) = {g. Some g \<in> set sets}"
  unfolding given_grants_def by (force simp: map_filter_def)

text \<open>C19: combining grants is the union of the bits, module by module, over the grant sets that are
  given (an undefined one is skipped): the combined grants allow a permission wherever one of the
  sets does, and never because of bits that none of them holds.\<close>

theorem combineGrants_bits:
  assumes "\<forall>g. Some g \<in> set sets \<longrightarrow> distinct (map fst g)"
  shows "mask_bits (held_mask (combineGrants sets) m) =
    (\<Union>g \<in> {g. Some g \<in> set sets}. mask_bits (held_mask g m))"
  using gr.held_foldl[of "[]" "given_grants sets" m] assms
  by (simp add: combineGrants_foldl) (simp add: held_mask_def)

lemma held_mono_has:
  assumes "mask_bits (held_mask g m) \<subseteq> mask_bits (held_mask g' m)" and "has P m p g = Inr True"
  shows "has P m p g' = Inr True"
  using assms by (auto simp: has_Inr_iff)

lemma serialize_eq:
  "distinct (map fst g) \<Longrightarrow> serializeGrants g = map (\<lambda>(m, k). (m, radix_int 10 k)) g"
proof -
  have "foldl (\<lambda>wire (m, msk). AList.update m (radix_int 10 msk) wire) acc g
      = acc @ map (\<lambda>(m, k). (m, radix_int 10 k)) g"
    if "distinct (map fst g)" "fst ` set acc \<inter> fst ` set g = {}" for acc
    using that
    by (induction g arbitrary: acc) (auto simp: update_append_fresh image_Un)
  then show "distinct (map fst g) \<Longrightarrow> ?thesis" by (simp add: serializeGrants_def)
qed

text \<open>Lemma: grants survive the wire: deserialising the serialised form of non-negative masks gives the
  same grants back, entry by entry and in order.\<close>

theorem grants_wire_roundtrip:
  assumes "distinct (map fst g)" and "\<forall>k \<in> snd ` set g. 0 \<le> k"
  shows "deserializeGrants (map (\<lambda>(m, s). (m, WStr s)) (serializeGrants g)) = Inr g"
proof -
  have "foldE (\<lambda>acc (m, v). bindE (wire_mask m v) (\<lambda>k. if k < 0 then Inl (InvalidGrants m)
            else Inr (AList.update m k acc))) acc (map (\<lambda>(m, k). (m, WStr (radix_int 10 k))) g)
      = Inr (acc @ g)"
    if "distinct (map fst g)" "\<forall>k \<in> snd ` set g. 0 \<le> k" "fst ` set acc \<inter> fst ` set g = {}" for acc
    using that
    by (induction g arbitrary: acc) (auto simp: update_append_fresh radix_int_def js_simps)
  moreover have "map (\<lambda>(m, s). (m, WStr s)) (serializeGrants g) = map (\<lambda>(m, k). (m, WStr (radix_int 10 k))) g"
    using assms(1) by (simp add: serialize_eq split_beta)
  ultimately show ?thesis using assms by (simp add: deserializeGrants_def)
qed

subsection \<open>Witnesses\<close>

definition sample_registry :: "(string \<times> bit_value) list" where
  "sample_registry = [(''READ'', BigBit 1), (''EDIT'', BigBit 2), (''DELETE'', BigBit 4)]"

definition sample_catalog :: "(string \<times> string list) list" where
  "sample_catalog = [(''Post'', [''READ'', ''EDIT'']), (''Billing'', [''READ''])]"

definition sample_permissions :: permissions where
  "sample_permissions =
     \<lparr>bits = [(''READ'', 1), (''EDIT'', 2), (''DELETE'', 4)],
      modules = Some [(''Post'', \<lparr>entry_mask = 3, entry_names = [''READ'', ''EDIT'']\<rparr>),
                      (''Billing'', \<lparr>entry_mask = 1, entry_names = [''READ'']\<rparr>)]\<rparr>"

lemma sample_new: "new_permissions sample_registry (Some sample_catalog) = Inr sample_permissions"
  by (simp add: new_permissions_def sample_registry_def sample_catalog_def sample_permissions_def)

lemma sample_distinct: "distinct (map fst sample_registry)"
  by (simp add: sample_registry_def)

theorem new_permissions_wf_witness: "perms_wf sample_permissions"
  by (rule new_permissions_wf[OF sample_distinct sample_new])

theorem new_permissions_succeeds_iff_witness:
  "\<exists>P. new_permissions sample_registry (Some sample_catalog) = Inr P"
proof -
  have "sample_registry = map (\<lambda>(n, b). (n, BigBit b)) (bits sample_permissions)"
    by (simp add: sample_registry_def sample_permissions_def)
  then show ?thesis
    unfolding new_permissions_succeeds_iff
    by (intro conjI exI[of _ "bits sample_permissions"])
      (auto simp: sample_registry_def sample_permissions_def sample_catalog_def)
qed

theorem grant_then_revoke_witness:
  "\<exists>bs. list_all2 (\<lambda>p b. resolve sample_permissions p = Inr b) [PName ''EDIT'', PBit 8] bs \<and>
     (\<forall>b. b \<in> set bs \<longrightarrow> 11 AND b = b)"
proof -
  have "grant sample_permissions 1 [PName ''EDIT'', PBit 8] = Inr 11"
    "revoke sample_permissions 11 [PName ''EDIT'', PBit 8] = Inr 1"
    by (simp_all add: grant_def revoke_def sample_permissions_def)
  from grant_then_revoke[OF this] show ?thesis by blast
qed

theorem toNames_toMask_witness: "toNames sample_permissions ''Post'' 2 = Inr [''EDIT'']"
proof -
  have wf: "perms_wf sample_permissions"
    by (simp add: sample_permissions_def perms_wf_def cat_ok_def entry_ok_def
        flip: mask_bits_OR) 
  have mk: "toMask sample_permissions ''Post'' [''EDIT''] = Inr 2"
    and all: "namesFor sample_permissions ''Post'' = Inr [''READ'', ''EDIT'']"
    by (simp_all add: toMask_def requireApplicable_def namesFor_def sample_permissions_def)
  have disj: "\<forall>(n, b) \<in> set (bits sample_permissions). \<forall>(n', b') \<in> set (bits sample_permissions).
      n = n' \<or> mask_bits b \<inter> mask_bits b' = {}"
    by (simp add: sample_permissions_def flip: mask_bits_AND)
  show ?thesis using toNames_toMask[OF wf disj mk all] by simp
qed

theorem combineGrants_bits_witness:
  "mask_bits (held_mask (combineGrants [Some [(''Post'', 1)], None, Some [(''Post'', 6)]]) ''Post'') =
    mask_bits 1 \<union> mask_bits 6"
proof -
  let ?sets = "[Some [(''Post'', 1)], None, Some [(''Post'', 6)]] :: grants option list"
  have "{g. Some g \<in> set ?sets} = {[(''Post'', 1)], [(''Post'', 6)]}" by auto
  moreover have "\<forall>g. Some g \<in> set ?sets \<longrightarrow> distinct (map fst g)" by simp
  ultimately show ?thesis
    using combineGrants_bits[of ?sets "''Post''"] by (simp add: held_mask_def)
qed

theorem grants_wire_roundtrip_witness:
  "deserializeGrants (map (\<lambda>(m, s). (m, WStr s)) (serializeGrants [(''Post'', 6), (''Billing'', 1)])) =
    Inr [(''Post'', 6), (''Billing'', 1)]"
  by (rule grants_wire_roundtrip) auto

end
