(* ===== verification/GroupGrants.thy ===== *)
theory GroupGrants
  imports Permissions
begin

text \<open>
  The group-grants cache of \<open>pact\<close> (\<open>src/packages/pact/Groups.ts\<close>): lazily resolved group
  grants, protected against late resolver answers by generations and a clear fence.

  The class is asynchronous, so an operation is a sequence of synchronous pieces separated by
  awaits, and anything may run in between.  The state carries the suspended pieces as tasks:
  a call of the consumer's resolver that has not answered yet, a finished \<open>__resolve\<close> whose caller
  has not been resumed, a finished \<open>__ensure\<close> whose caller has not been resumed.  \<open>gstep\<close> runs one
  piece; the resolver is outside the repository, so its answer is arbitrary.
\<close>

type_synonym fetched = "(string \<times> grants) list"

definition MAX_RESOLVE_ATTEMPTS :: nat where
  "MAX_RESOLVE_ATTEMPTS = 3"

subsection \<open>State\<close>

datatype purpose = ForEnsure | ForCombined "grants option"

text \<open>Who awaits a \<open>__resolve\<close>: a pass of \<open>__ensure\<close> (call, purpose, requested ids, pass, values
  fetched so far) or \<open>sync\<close>.\<close>

datatype caller =
    EnsureCaller nat purpose "string list" nat fetched
  | SyncCaller nat "string list"

datatype task =
    AwaitResolver caller "string list" nat nat
  | ResolveReturned caller bool fetched
  | EnsureReturned nat purpose "string list" fetched

datatype outcome = Ensured | Combined grants | Synced "string list" | Rejected

text \<open>\<open>answered\<close> is a history variable, written when the resolver answers a generation and read by
  no operation.\<close>

record groups =
  cache :: "(string \<times> grants) list"
  epoch :: nat
  applied :: "(string \<times> nat) list"
  clearedThrough :: nat
  tasks :: "task list"
  results :: "(nat \<times> outcome) list"
  answered :: "nat \<Rightarrow> fetched option"

definition new_groups :: groups where
  "new_groups = \<lparr>cache = [], epoch = 0, applied = [], clearedThrough = 0, tasks = [],
     results = [], answered = (\<lambda>_. None)\<rparr>"

definition cached :: "groups \<Rightarrow> string list" where
  "cached s = map fst (cache s)"

definition push_task :: "task \<Rightarrow> groups \<Rightarrow> groups" where
  "push_task t s = s\<lparr>tasks := tasks s @ [t]\<rparr>"

definition drop_task :: "task \<Rightarrow> groups \<Rightarrow> groups" where
  "drop_task t s = s\<lparr>tasks := remove1 t (tasks s)\<rparr>"

definition finish :: "nat \<Rightarrow> outcome \<Rightarrow> groups \<Rightarrow> groups" where
  "finish cid out s = s\<lparr>results := results s @ [(cid, out)]\<rparr>"

definition record_answer :: "nat \<Rightarrow> fetched \<Rightarrow> groups \<Rightarrow> groups" where
  "record_answer gen f s = s\<lparr>answered := (answered s)(gen \<mapsto> f)\<rparr>"

subsection \<open>Operations\<close>

definition answer_for :: "fetched \<Rightarrow> string \<Rightarrow> grants" where
  "answer_for f i = (case map_of f i of None \<Rightarrow> [] | Some g \<Rightarrow> g)"

definition apply_id :: "fetched \<Rightarrow> nat \<Rightarrow> groups \<Rightarrow> string \<Rightarrow> groups" where
  "apply_id f gen s i =
     (if (case map_of (applied s) i of None \<Rightarrow> 0 | Some a \<Rightarrow> a) > gen then s
      else s\<lparr>cache := AList.update i (answer_for f i) (cache s),
             applied := AList.update i gen (applied s)\<rparr>)"

definition apply_batch :: "string list \<Rightarrow> fetched \<Rightarrow> nat \<Rightarrow> groups \<Rightarrow> bool \<times> groups" where
  "apply_batch ids f gen s =
     (if gen \<le> clearedThrough s then (False, s) else (True, foldl (apply_id f gen) s ids))"

definition clear :: "groups \<Rightarrow> groups" where
  "clear s = s\<lparr>cache := [], applied := [], clearedThrough := epoch s\<rparr>"

text \<open>One attempt of \<open>__resolve\<close>: issue a generation and call the resolver.\<close>

definition start_attempt :: "caller \<Rightarrow> string list \<Rightarrow> nat \<Rightarrow> groups \<Rightarrow> groups" where
  "start_attempt c ids attempt s =
     (let gen = Suc (epoch s)
      in push_task (AwaitResolver c ids attempt gen) (s\<lparr>epoch := gen\<rparr>))"

definition ensure_pass ::
  "nat \<Rightarrow> purpose \<Rightarrow> string list \<Rightarrow> nat \<Rightarrow> fetched \<Rightarrow> groups \<Rightarrow> groups"
where
  "ensure_pass cid pur ids pass f s =
     (if pass < MAX_RESOLVE_ATTEMPTS then
        let missing = filter (\<lambda>i. map_of (cache s) i = None) ids
        in if missing = [] then push_task (EnsureReturned cid pur ids f) s
           else start_attempt (EnsureCaller cid pur ids pass f) (dedup missing) 0 s
      else push_task (EnsureReturned cid pur ids f) s)"

definition ensure :: "nat \<Rightarrow> string list \<Rightarrow> groups \<Rightarrow> groups" where
  "ensure cid ids s = ensure_pass cid ForEnsure ids 0 [] s"

definition combined :: "nat \<Rightarrow> string list \<Rightarrow> grants option \<Rightarrow> groups \<Rightarrow> groups" where
  "combined cid ids direct s = ensure_pass cid (ForCombined direct) ids 0 [] s"

definition sync :: "nat \<Rightarrow> string list option \<Rightarrow> groups \<Rightarrow> groups" where
  "sync cid groupIds s =
     (let ids = (case groupIds of
                   Some (i # is) \<Rightarrow> dedup (i # is)
                 | _ \<Rightarrow> cached s)
      in if ids = [] then finish cid (Synced []) s
         else start_attempt (SyncCaller cid ids) ids 0 s)"

fun caller_id :: "caller \<Rightarrow> nat" where
  "caller_id (EnsureCaller cid pur ids pass f) = cid"
| "caller_id (SyncCaller cid ids) = cid"

text \<open>The resolver answers (or rejects, \<open>None\<close>) the call of one attempt.\<close>

definition resolver_answer ::
  "caller \<Rightarrow> string list \<Rightarrow> nat \<Rightarrow> nat \<Rightarrow> fetched option \<Rightarrow> groups \<Rightarrow> groups"
where
  "resolver_answer c ids attempt gen ans s =
     (case ans of
        None \<Rightarrow> finish (caller_id c) Rejected s
      | Some f \<Rightarrow>
          (case apply_batch ids f gen (record_answer gen f s) of
             (True, s') \<Rightarrow> push_task (ResolveReturned c True f) s'
           | (False, s') \<Rightarrow>
               if Suc attempt < MAX_RESOLVE_ATTEMPTS
               then start_attempt c ids (Suc attempt) s'
               else push_task (ResolveReturned c False f) s'))"

fun resolve_returned :: "caller \<Rightarrow> bool \<Rightarrow> fetched \<Rightarrow> groups \<Rightarrow> groups" where
  "resolve_returned (EnsureCaller cid pur ids pass f) ok got s =
     ensure_pass cid pur ids (Suc pass) (spread f got) s"
| "resolve_returned (SyncCaller cid ids) ok got s =
     finish cid (Synced (if ok then ids else [])) s"

text \<open>\<open>this.__cache.get(id) ?? fetched[id] ?? {}\<close>, read when the caller of \<open>__ensure\<close> resumes.\<close>

definition value_of :: "groups \<Rightarrow> fetched \<Rightarrow> string \<Rightarrow> grants" where
  "value_of s f i = (case map_of (cache s) i of Some g \<Rightarrow> g | None \<Rightarrow> answer_for f i)"

fun ensure_returned :: "nat \<Rightarrow> purpose \<Rightarrow> string list \<Rightarrow> fetched \<Rightarrow> groups \<Rightarrow> groups" where
  "ensure_returned cid ForEnsure ids f s = finish cid Ensured s"
| "ensure_returned cid (ForCombined direct) ids f s =
     finish cid (Combined (combineGrants (direct # map (\<lambda>i. Some (value_of s f i)) ids))) s"

subsection \<open>Steps\<close>

text \<open>Run one suspended piece; \<open>ans\<close> is what the resolver answers, if the piece awaits it.\<close>

fun run_task :: "fetched option \<Rightarrow> task \<Rightarrow> groups \<Rightarrow> groups" where
  "run_task ans (AwaitResolver c ids attempt gen) s = resolver_answer c ids attempt gen ans s"
| "run_task ans (ResolveReturned c ok f) s = resolve_returned c ok f s"
| "run_task ans (EnsureReturned cid pur ids f) s = ensure_returned cid pur ids f s"

inductive gstep :: "groups \<Rightarrow> groups \<Rightarrow> bool" where
  ensure_call: "gstep s (ensure cid ids s)"
| combined_call: "gstep s (combined cid ids direct s)"
| sync_call: "gstep s (sync cid groupIds s)"
| clear_call: "gstep s (clear s)"
| resume: "t \<in> set (tasks s) \<Longrightarrow> gstep s (run_task ans t (drop_task t s))"

inductive greach :: "groups \<Rightarrow> bool" where
  init: "greach new_groups"
| step: "greach s \<Longrightarrow> gstep s t \<Longrightarrow> greach t"

subsection \<open>The invariant\<close>

fun task_gen :: "task \<Rightarrow> nat option" where
  "task_gen (AwaitResolver c ids attempt gen) = Some gen"
| "task_gen t = None"

definition gens :: "groups \<Rightarrow> nat list" where
  "gens s = List.map_filter task_gen (tasks s)"

text \<open>A cached value is the answer of the generation recorded for its id.\<close>

definition cache_ok :: "groups \<Rightarrow> bool" where
  "cache_ok s \<longleftrightarrow> map fst (cache s) = map fst (applied s) \<and>
     (\<forall>i gen. map_of (applied s) i = Some gen \<longrightarrow>
        clearedThrough s < gen \<and> gen \<le> epoch s \<and>
        (\<exists>f. answered s gen = Some f \<and> map_of (cache s) i = Some (answer_for f i)))"

definition gens_ok :: "groups \<Rightarrow> bool" where
  "gens_ok s \<longleftrightarrow> clearedThrough s \<le> epoch s \<and> distinct (gens s) \<and>
     (\<forall>gen \<in> set (gens s). 0 < gen \<and> gen \<le> epoch s \<and> answered s gen = None) \<and>
     (\<forall>gen. epoch s < gen \<longrightarrow> answered s gen = None)"

definition ginv :: "groups \<Rightarrow> bool" where
  "ginv s \<longleftrightarrow> cache_ok s \<and> gens_ok s"

lemmas group_defs = push_task_def drop_task_def finish_def record_answer_def start_attempt_def
  clear_def Let_def

lemma gens_push [simp]:
  "gens (push_task t s) = gens s @ (case task_gen t of None \<Rightarrow> [] | Some g \<Rightarrow> [g])"
  by (simp add: gens_def push_task_def js_simps)

lemma gens_cong: "tasks s = tasks t \<Longrightarrow> gens s = gens t"
  by (simp add: gens_def)

lemma ginv_new: "ginv new_groups"
  by (simp add: ginv_def cache_ok_def gens_ok_def new_groups_def gens_def List.map_filter_def)

lemma ginv_push_done: "ginv s \<Longrightarrow> task_gen t = None \<Longrightarrow> ginv (push_task t s)"
  by (simp add: ginv_def cache_ok_def gens_ok_def) (simp add: push_task_def)

lemma ginv_finish: "ginv s \<Longrightarrow> ginv (finish cid out s)"
  by (auto simp: ginv_def cache_ok_def gens_ok_def finish_def gens_def)

lemma ginv_start_attempt: "ginv s \<Longrightarrow> ginv (start_attempt c ids attempt s)"
proof -
  assume inv: "ginv s"
  let ?s = "s\<lparr>epoch := Suc (epoch s)\<rparr>"
  have "cache_ok ?s" using inv by (fastforce simp: ginv_def cache_ok_def)
  moreover have "gens ?s = gens s" by (simp add: gens_def)
  then have "gens_ok (push_task (AwaitResolver c ids attempt (Suc (epoch s))) ?s)"
    using inv by (auto simp: ginv_def gens_ok_def) (auto simp: push_task_def)
  ultimately show ?thesis
    by (simp add: start_attempt_def ginv_def Let_def) (simp add: cache_ok_def push_task_def)
qed

lemma ginv_clear: "ginv s \<Longrightarrow> ginv (clear s)"
  by (auto simp: ginv_def cache_ok_def gens_ok_def clear_def gens_def)

lemma ginv_drop_done: "ginv s \<Longrightarrow> task_gen t = None \<Longrightarrow> ginv (drop_task t s)"
  by (auto simp: ginv_def cache_ok_def gens_ok_def drop_task_def gens_def map_filter_remove1_None)

text \<open>The state in which an answer arrives: its task is gone, its generation is unanswered.\<close>

lemma ginv_drop_await:
  assumes "ginv s" and "AwaitResolver c ids attempt gen \<in> set (tasks s)"
  defines "s' \<equiv> drop_task (AwaitResolver c ids attempt gen) s"
  shows "ginv s'" and "gen \<notin> set (gens s')" and "0 < gen" and "gen \<le> epoch s'" and "answered s' gen = None"
proof -
  have dist: "distinct (gens s)" using assms(1) by (simp add: ginv_def gens_ok_def)
  have gens: "distinct (gens s') \<and> set (gens s') = set (gens s) - {gen}"
    using map_filter_remove1_Some[of task_gen "AwaitResolver c ids attempt gen" gen "tasks s"] assms(2) dist
    by (simp add: s'_def drop_task_def gens_def)
  have "gen \<in> set (gens s)"
    using assms(2) by (force simp: gens_def set_map_filter)
  with assms(1) show "0 < gen" "gen \<le> epoch s'" "answered s' gen = None"
    by (auto simp: s'_def ginv_def gens_ok_def drop_task_def)
  from gens show "gen \<notin> set (gens s')" by simp
  show "ginv s'"
    using assms(1) gens by (auto simp: s'_def ginv_def cache_ok_def gens_ok_def drop_task_def)
qed

lemma ginv_record_answer:
  assumes "ginv s" "gen \<notin> set (gens s)" "gen \<le> epoch s" "answered s gen = None"
  shows "ginv (record_answer gen f s)"
  using assms by (fastforce simp: ginv_def cache_ok_def gens_ok_def record_answer_def gens_def)

lemma map_fst_update_cong:
  "map fst a = map fst b \<Longrightarrow> map fst (AList.update i v a) = map fst (AList.update i w b)"
  by (simp add: update_keys)

lemma ginv_apply_id:
  assumes "ginv s" "answered s gen = Some f" "clearedThrough s < gen" "gen \<le> epoch s"
  shows "ginv (apply_id f gen s i)"
  using assms
  by (auto simp: ginv_def cache_ok_def gens_ok_def apply_id_def gens_def map_of_update
      intro: map_fst_update_cong)

lemma apply_id_frame [simp]:
  "answered (apply_id f gen s i) = answered s" "clearedThrough (apply_id f gen s i) = clearedThrough s"
  "epoch (apply_id f gen s i) = epoch s" "tasks (apply_id f gen s i) = tasks s"
  "results (apply_id f gen s i) = results s"
  by (simp_all add: apply_id_def)

lemma apply_foldl_frame [simp]:
  "answered (foldl (apply_id f gen) s ids) = answered s"
  "clearedThrough (foldl (apply_id f gen) s ids) = clearedThrough s"
  "epoch (foldl (apply_id f gen) s ids) = epoch s" "tasks (foldl (apply_id f gen) s ids) = tasks s"
  "results (foldl (apply_id f gen) s ids) = results s"
  by (induction ids arbitrary: s; simp)+

lemma ginv_apply_foldl:
  "ginv s \<Longrightarrow> answered s gen = Some f \<Longrightarrow> clearedThrough s < gen \<Longrightarrow> gen \<le> epoch s \<Longrightarrow>
     ginv (foldl (apply_id f gen) s ids)"
  by (induction ids arbitrary: s) (auto simp: ginv_apply_id)

lemma ginv_ensure_pass: "ginv s \<Longrightarrow> ginv (ensure_pass cid pur ids pass f s)"
  by (simp add: ensure_pass_def Let_def ginv_push_done ginv_start_attempt)

lemma ginv_resolver_answer:
  assumes "ginv s" "gen \<notin> set (gens s)" "gen \<le> epoch s" "answered s gen = None"
  shows "ginv (resolver_answer c ids attempt gen ans s)"
proof (cases ans)
  case None
  with assms(1) show ?thesis by (simp add: resolver_answer_def ginv_finish)
next
  case (Some f)
  let ?r = "record_answer gen f s"
  have r: "ginv ?r" using ginv_record_answer[OF assms] .
  have "ginv (foldl (apply_id f gen) ?r ids)" if "\<not> gen \<le> clearedThrough ?r"
    using ginv_apply_foldl[OF r, of gen f ids] that assms(3) by (simp add: record_answer_def)
  then show ?thesis
    using Some r
    by (auto simp: resolver_answer_def apply_batch_def ginv_push_done ginv_start_attempt)
qed

lemma ginv_resolve_returned: "ginv s \<Longrightarrow> ginv (resolve_returned c ok f s)"
  by (cases c) (simp_all add: ginv_ensure_pass ginv_finish)

lemma ginv_ensure_returned: "ginv s \<Longrightarrow> ginv (ensure_returned cid pur ids f s)"
  by (cases pur) (simp_all add: ginv_finish)

lemma ginv_run_task:
  assumes "ginv s" and "t \<in> set (tasks s)"
  shows "ginv (run_task ans t (drop_task t s))"
proof (cases t)
  case (AwaitResolver c ids attempt gen)
  with assms show ?thesis
    using ginv_drop_await[of s c ids attempt gen] by (auto intro: ginv_resolver_answer)
qed (use ginv_drop_done[OF assms(1)] in \<open>auto intro: ginv_resolve_returned ginv_ensure_returned\<close>)

lemma ginv_sync: "ginv s \<Longrightarrow> ginv (sync cid groupIds s)"
  by (auto simp: sync_def Let_def ginv_finish ginv_start_attempt split: option.splits list.splits)

lemma gstep_ginv: "gstep s t \<Longrightarrow> ginv s \<Longrightarrow> ginv t"
  by (induction rule: gstep.induct)
    (simp_all add: ensure_def combined_def ginv_ensure_pass ginv_clear ginv_run_task ginv_sync)

lemma greach_ginv: "greach s \<Longrightarrow> ginv s"
  by (induction rule: greach.induct) (auto intro: ginv_new gstep_ginv)

subsection \<open>What the cache promises\<close>






lemma cache_frame [simp]:
  "cache (push_task t s) = cache s" "applied (push_task t s) = applied s"
  "cache (drop_task t s) = cache s" "applied (drop_task t s) = applied s"
  "cache (finish cid out s) = cache s" "applied (finish cid out s) = applied s"
  "cache (start_attempt c ids attempt s) = cache s" "applied (start_attempt c ids attempt s) = applied s"
  "cache (record_answer gen f s) = cache s" "applied (record_answer gen f s) = applied s"
  "cache (ensure_pass cid pur ids pass f s) = cache s" "applied (ensure_pass cid pur ids pass f s) = applied s"
  "cache (sync cid groupIds s) = cache s" "applied (sync cid groupIds s) = applied s"
  "cache (resolve_returned c ok f s) = cache s" "applied (resolve_returned c ok f s) = applied s"
  "cache (ensure_returned cid pur ids f s) = cache s" "applied (ensure_returned cid pur ids f s) = applied s"
proof -
  show ep: "cache (ensure_pass cid pur ids pass f s) = cache s"
    "applied (ensure_pass cid pur ids pass f s) = applied s" for cid pur ids pass f s
    by (simp_all add: ensure_pass_def group_defs)
  show "cache (resolve_returned c ok f s) = cache s" "applied (resolve_returned c ok f s) = applied s"
    by (cases c; simp add: ep finish_def)+
  show "cache (ensure_returned cid pur ids f s) = cache s" "applied (ensure_returned cid pur ids f s) = applied s"
    by (cases pur; simp add: finish_def)+
qed (auto simp: group_defs sync_def split: option.splits list.splits)



subsection \<open>A call that nothing interrupts\<close>

text \<open>Run the suspended pieces in order, the resolver answering with \<open>R\<close>.\<close>

fun drive :: "(string list \<Rightarrow> fetched) \<Rightarrow> nat \<Rightarrow> groups \<Rightarrow> groups" where
  "drive R 0 s = s"
| "drive R (Suc n) s =
     (case tasks s of
        [] \<Rightarrow> s
      | t # ts \<Rightarrow>
          drive R n (run_task
            (case t of AwaitResolver c ids attempt gen \<Rightarrow> Some (R ids) | _ \<Rightarrow> None)
            t (s\<lparr>tasks := ts\<rparr>)))"

definition missing_ids :: "groups \<Rightarrow> string list \<Rightarrow> string list" where
  "missing_ids s ids = filter (\<lambda>i. map_of (cache s) i = None) ids"

lemma apply_foldl_fresh:
  assumes "\<forall>i \<in> set ids. map_of (applied s) i = None" and "distinct ids" and "0 < gen"
  shows "map_of (cache (foldl (apply_id f gen) s ids)) i =
    (if i \<in> set ids then Some (answer_for f i) else map_of (cache s) i)"
  using assms(1,2)
proof (induction ids arbitrary: s)
  case (Cons j ids)
  have "map_of (cache (apply_id f gen s j)) i = (if i = j then Some (answer_for f i) else map_of (cache s) i)"
    "\<forall>k \<in> set ids. map_of (applied (apply_id f gen s j)) k = None"
    using Cons.prems by (auto simp: apply_id_def map_of_update)
  then show ?case using Cons by auto
qed simp

lemma value_of_tasks [simp]: "value_of (s\<lparr>tasks := ts\<rparr>) f i = value_of s f i"
  by (simp add: value_of_def)

lemma combined_hit:
  assumes "missing_ids s ids = []" and "tasks s = []"
  shows "drive R 3 (combined cid ids direct s) =
    finish cid (Combined (combineGrants (direct # map (\<lambda>i. Some (value_of s [] i)) ids))) s"
  using assms
  by (simp add: combined_def ensure_pass_def missing_ids_def numeral_3_eq_3 MAX_RESOLVE_ATTEMPTS_def
      push_task_def finish_def)

text \<open>The state after the one batch of answers has been applied.\<close>

definition answered_state :: "(string list \<Rightarrow> fetched) \<Rightarrow> string list \<Rightarrow> groups \<Rightarrow> groups" where
  "answered_state R missing s =
     (let gen = Suc (epoch s)
      in foldl (apply_id (R missing) gen)
           (record_answer gen (R missing) (s\<lparr>epoch := gen, tasks := []\<rparr>)) missing)"

lemma answered_state_frame [simp]:
  "tasks (answered_state R missing s) = []" "results (answered_state R missing s) = results s"
  "epoch (answered_state R missing s) = Suc (epoch s)"
  by (simp_all add: answered_state_def record_answer_def Let_def)

lemma cache_answered_state:
  assumes "ginv s" and "distinct missing" and "\<forall>i \<in> set missing. map_of (cache s) i = None"
  shows "map_of (cache (answered_state R missing s)) i =
    (if i \<in> set missing then Some (answer_for (R missing) i) else map_of (cache s) i)"
proof -
  have "map_of (applied s) i = None" if "map_of (cache s) i = None" for i
    using assms(1) that by (metis ginv_def cache_ok_def map_of_eq_None_iff image_set)
  with assms show ?thesis
    unfolding answered_state_def Let_def
    by (subst apply_foldl_fresh) (auto simp: record_answer_def)
qed

lemma combined_miss:
  fixes R :: "string list \<Rightarrow> fetched"
  assumes inv: "ginv s" and idle: "tasks s = []" and False: "missing_ids s ids \<noteq> []"
  defines "missing \<equiv> dedup (missing_ids s ids)"
  defines "s2 \<equiv> answered_state R missing s"
  assumes full: "\<forall>i \<in> set ids. map_of (cache s2) i \<noteq> None"
  shows "drive R 3 (combined cid ids direct s) =
    finish cid (Combined (combineGrants (direct #
      map (\<lambda>i. Some (value_of s2 (spread [] (R missing)) i)) ids))) s2"
proof -
  have none: "filter (\<lambda>i. map_of (cache s2) i = None) ids = []"
    using full by (simp add: filter_empty_conv)
  have fence: "\<not> Suc (epoch s) \<le> clearedThrough s"
    using inv by (simp add: ginv_def gens_ok_def)
  have "drive R 3 (combined cid ids direct s) =
      drive R 2 (push_task (ResolveReturned (EnsureCaller cid (ForCombined direct) ids 0 []) True (R missing)) s2)"
    using False idle fence
    by (simp add: numeral_3_eq_3 numeral_2_eq_2 combined_def ensure_pass_def MAX_RESOLVE_ATTEMPTS_def
        start_attempt_def push_task_def resolver_answer_def apply_batch_def missing_ids_def[symmetric]
        missing_def[symmetric] s2_def answered_state_def record_answer_def)
  also have "\<dots> = drive R 1 (push_task (EnsureReturned cid (ForCombined direct) ids (spread [] (R missing))) s2)"
    using none by (simp add: numeral_2_eq_2 push_task_def ensure_pass_def MAX_RESOLVE_ATTEMPTS_def s2_def)
  also have "\<dots> = finish cid (Combined (combineGrants (direct #
      map (\<lambda>i. Some (value_of s2 (spread [] (R missing)) i)) ids))) s2"
    by (simp add: push_task_def finish_def s2_def)
  finally show ?thesis .
qed

text \<open>C24: a \<open>combined\<close> call that nothing interrupts ends, asks the resolver once for exactly the ids
  that are not cached (and not at all when every id is), returns the OR-combination of the
  direct grants with the cached or freshly resolved grants of every id, and leaves every id
  cached.\<close>

theorem combined_uninterrupted:
  fixes R :: "string list \<Rightarrow> fetched" and cid :: nat and ids :: "string list" and direct :: "grants option"
  assumes "greach s" and idle: "tasks s = []"
  defines "t \<equiv> drive R 3 (combined cid ids direct s)"
    and "missing \<equiv> dedup (missing_ids s ids)"
  shows "tasks t = [] \<and>
    results t = results s @ [(cid, Combined (combineGrants (direct # map (\<lambda>i. Some
       (case map_of (cache s) i of Some g \<Rightarrow> g | None \<Rightarrow> answer_for (R missing) i)) ids)))] \<and>
    (\<forall>i \<in> set ids. map_of (cache t) i \<noteq> None) \<and>
    epoch t = (if missing = [] then epoch s else Suc (epoch s))"
proof -
  have inv: "ginv s" using assms(1) by (rule greach_ginv)
  have miss: "set missing = {i \<in> set ids. map_of (cache s) i = None}" "distinct missing"
    by (auto simp: missing_def missing_ids_def)
  show ?thesis
  proof (cases "missing_ids s ids = []")
    case True
    then have all: "\<forall>i \<in> set ids. map_of (cache s) i \<noteq> None"
      by (auto simp: missing_ids_def filter_empty_conv)
    then have vals: "map (\<lambda>i. Some (value_of s [] i)) ids = map (\<lambda>i. Some
        (case map_of (cache s) i of Some g \<Rightarrow> g | None \<Rightarrow> answer_for (R missing) i)) ids"
      by (auto simp: value_of_def)
    show ?thesis
      unfolding t_def combined_hit[OF True idle] vals
      using True all idle by (simp add: finish_def missing_def dedup_def)
  next
    case False
    then have ne: "missing \<noteq> []" by (metis missing_def set_dedup set_empty)
    define s2 where "s2 = answered_state R missing s"
    have cache: "map_of (cache s2) i =
        (if i \<in> set missing then Some (answer_for (R missing) i) else map_of (cache s) i)" for i
      using cache_answered_state[OF inv miss(2)] miss(1) by (simp add: s2_def)
    then have full: "\<forall>i \<in> set ids. map_of (cache s2) i \<noteq> None" using miss by auto
    have vals: "map (\<lambda>i. Some (value_of s2 (spread [] (R missing)) i)) ids = map (\<lambda>i. Some
        (case map_of (cache s) i of Some g \<Rightarrow> g | None \<Rightarrow> answer_for (R missing) i)) ids"
      using cache miss by (auto simp: value_of_def split: option.splits)
    have "t = finish cid (Combined (combineGrants (direct #
        map (\<lambda>i. Some (value_of s2 (spread [] (R missing)) i)) ids))) s2"
      using combined_miss[OF inv idle False] full by (simp add: t_def missing_def s2_def)
    then show ?thesis unfolding vals using full ne by (simp add: finish_def s2_def)
  qed
qed

subsection \<open>Bounded work\<close>

text \<open>How much a suspended piece can still cost, in pieces.\<close>

fun budget :: "task \<Rightarrow> nat" where
  "budget (AwaitResolver c ids attempt gen) =
     (case c of EnsureCaller cid pur ids' pass f \<Rightarrow> 10 * (3 - pass) | SyncCaller cid ids' \<Rightarrow> 0) + 6 - attempt"
| "budget (ResolveReturned c ok f) =
     (case c of EnsureCaller cid pur ids' pass f' \<Rightarrow> 10 * (3 - pass) | SyncCaller cid ids' \<Rightarrow> 0) + 2"
| "budget (EnsureReturned cid pur ids f) = 1"

text \<open>The attempts a piece is at are within the loop bound.\<close>

fun attempt_ok :: "task \<Rightarrow> bool" where
  "attempt_ok (AwaitResolver c ids attempt gen) = (attempt < MAX_RESOLVE_ATTEMPTS)"
| "attempt_ok t = True"

lemma ensure_pass_tasks:
  "\<exists>t. tasks (ensure_pass cid pur ids pass f s) = tasks s @ [t] \<and> attempt_ok t \<and>
     budget t \<le> 10 * (3 - pass) + 6 \<and> (MAX_RESOLVE_ATTEMPTS \<le> pass \<longrightarrow> budget t = 1)"
  by (auto simp: ensure_pass_def start_attempt_def push_task_def Let_def MAX_RESOLVE_ATTEMPTS_def)

text \<open>C25: every suspended piece leads to at most one further piece, strictly cheaper than itself:
  the retry loops of \<open>__ensure\<close> and \<open>__resolve\<close> end whatever the resolver answers and however
  often \<open>clear()\<close> invalidates them.\<close>

theorem task_budget_decreases:
  assumes "attempt_ok t"
  shows "\<exists>new. tasks (run_task ans t s) = tasks s @ new \<and> length new \<le> 1 \<and>
    (\<forall>t' \<in> set new. attempt_ok t' \<and> budget t' < budget t)"
proof (cases t)
  case (AwaitResolver c ids attempt gen)
  show ?thesis
  proof (cases ans)
    case None
    then show ?thesis by (simp add: AwaitResolver resolver_answer_def finish_def)
  next
    case (Some f)
    let ?r = "record_answer gen f s"
    have tasks: "tasks (foldl (apply_id f gen) ?r ids) = tasks s" "tasks ?r = tasks s"
      by (simp_all add: record_answer_def)
    show ?thesis
      using assms tasks
      by (auto simp: AwaitResolver Some resolver_answer_def apply_batch_def start_attempt_def push_task_def
          MAX_RESOLVE_ATTEMPTS_def Let_def split: caller.splits)
  qed
next
  case (ResolveReturned c ok f)
  show ?thesis
  proof (cases c)
    case (EnsureCaller cid pur ids pass f')
    then show ?thesis
      using ensure_pass_tasks[of cid pur ids "Suc pass" "spread f' f" s] ResolveReturned
      by (auto simp: MAX_RESOLVE_ATTEMPTS_def)
  qed (simp add: ResolveReturned finish_def)
next
  case (EnsureReturned cid pur ids f)
  then show ?thesis by (cases pur) (simp_all add: finish_def)
qed

subsection \<open>A clear between the last pass and the read\<close>

text \<open>C26: a \<open>clear()\<close> that runs after \<open>__ensure\<close> found every id cached and before \<open>combined\<close> reads
  the cache (for instance synchronously after the call) makes the call answer with the direct
  grants alone: the ids were never fetched by this call, so there is nothing to fall back to.\<close>

theorem combined_cached_then_cleared:
  assumes "missing_ids s ids = []"
  shows "EnsureReturned cid (ForCombined direct) ids [] \<in> set (tasks (clear (combined cid ids direct s))) \<and>
    results (run_task None (EnsureReturned cid (ForCombined direct) ids [])
       (drop_task (EnsureReturned cid (ForCombined direct) ids []) (clear (combined cid ids direct s)))) =
    results s @ [(cid, Combined (combineGrants (direct # map (\<lambda>i. Some []) ids)))]"
  using assms
  by (simp add: combined_def ensure_pass_def missing_ids_def MAX_RESOLVE_ATTEMPTS_def group_defs
      value_of_def answer_for_def)

subsection \<open>Witnesses\<close>

lemma greach_drive: "greach s \<Longrightarrow> greach (drive R n s)"
proof (induction n arbitrary: s)
  case (Suc n)
  show ?case
  proof (cases "tasks s")
    case (Cons t ts)
    then have "s\<lparr>tasks := ts\<rparr> = drop_task t s" by (simp add: drop_task_def)
    then have "gstep s (run_task ans t (s\<lparr>tasks := ts\<rparr>))" for ans
      using gstep.resume[of t s ans] Cons by simp
    then show ?thesis using Suc Cons by (simp add: greach.step)
  qed (use Suc in simp)
qed simp

definition sample_resolver :: "string list \<Rightarrow> fetched" where
  "sample_resolver ids = map (\<lambda>i. (i, [(''Post'', 3)])) ids"

definition sample_groups :: groups where
  "sample_groups = drive sample_resolver 3 (ensure 1 [''staff''] new_groups)"

lemma sample_groups_reach: "greach sample_groups"
  unfolding sample_groups_def
  by (rule greach_drive) (rule greach.step[OF greach.init gstep.ensure_call])

lemmas sample_groups_eval = sample_groups_def ensure_def ensure_pass_def new_groups_def group_defs
  MAX_RESOLVE_ATTEMPTS_def dedup_def set_add_def resolver_answer_def apply_batch_def apply_id_def
  answer_for_def sample_resolver_def numeral_3_eq_3

lemma sample_groups_cache:
  "cache sample_groups = [(''staff'', [(''Post'', 3)])]" "applied sample_groups = [(''staff'', 1)]"
  "tasks sample_groups = []" "results sample_groups = [(1, Ensured)]"
  by (simp_all add: sample_groups_eval)



theorem combined_uninterrupted_witness:
  "results (drive sample_resolver 3 (combined 2 [''staff'', ''ops''] None sample_groups)) =
     [(1, Ensured), (2, Combined (combineGrants [None, Some [(''Post'', 3)], Some [(''Post'', 3)]]))]"
  using combined_uninterrupted[OF sample_groups_reach sample_groups_cache(3),
      where R = sample_resolver and cid = 2 and ids = "[''staff'', ''ops'']" and direct = None]
  by (simp add: sample_groups_cache missing_ids_def dedup_def set_add_def sample_resolver_def answer_for_def)

theorem task_budget_decreases_witness:
  "\<exists>new. tasks (run_task None (ResolveReturned (SyncCaller 4 [''a'']) True []) new_groups) =
     tasks new_groups @ new \<and> length new \<le> 1"
  using task_budget_decreases[of "ResolveReturned (SyncCaller 4 [''a'']) True []" None new_groups]
  by auto

theorem combined_cached_then_cleared_witness:
  "map_of (cache sample_groups) ''staff'' = Some [(''Post'', 3)] \<and>
   results (run_task None (EnsureReturned 9 (ForCombined None) [''staff''] [])
     (drop_task (EnsureReturned 9 (ForCombined None) [''staff''] [])
       (clear (combined 9 [''staff''] None sample_groups)))) = [(1, Ensured), (9, Combined [])]"
proof -
  have "missing_ids sample_groups [''staff''] = []"
    by (simp add: missing_ids_def sample_groups_cache)
  from combined_cached_then_cleared[OF this, of 9 None] show ?thesis
    by (simp add: sample_groups_cache combineGrants_def merge_grants_def)
qed

end
