(* ===== verification/Pool.thy ===== *)
theory Pool
  imports Prelude
begin

text \<open>
  The connection pool of the package \<open>drivers\<close> (\<open>src/packages/drivers/ConnectionPool.ts\<close>).

  The resources are an arbitrary type; the four resource hooks (\<open>create\<close>, \<open>destroy\<close>, \<open>validate\<close>,
  \<open>ping\<close>) belong to the engine that owns the pool, so what they answer is arbitrary, except that
  \<open>create\<close> constructs a new resource.  Every asynchronous method is cut at its awaits: the code up
  to the first await is the operation, each continuation is a suspended task that runs when the
  hook answers.  JavaScript runs one such piece at a time, so the interleavings of the pool are
  the sequences of pieces, \<open>pstep\<close>.
\<close>

subsection \<open>Sizing knobs\<close>

record pool_config =
  cfg_min :: int
  cfg_max :: int
  cfg_idleTimeoutMs :: int
  cfg_acquireTimeoutMs :: int

record pool_options =
  opt_min :: "int option"
  opt_max :: "int option"
  opt_idleTimeoutSeconds :: "int option"
  opt_acquireTimeoutSeconds :: "int option"

definition SINGLE_CONNECTION_POOL :: pool_config where
  "SINGLE_CONNECTION_POOL =
     \<lparr>cfg_min = 1, cfg_max = 1, cfg_idleTimeoutMs = 0, cfg_acquireTimeoutMs = 30000\<rparr>"

definition MULTI_CONNECTION_DEFAULTS :: pool_config where
  "MULTI_CONNECTION_DEFAULTS =
     \<lparr>cfg_min = 0, cfg_max = 10, cfg_idleTimeoutMs = 180000, cfg_acquireTimeoutMs = 30000\<rparr>"

definition or_default :: "'a option \<Rightarrow> 'a \<Rightarrow> 'a" where
  "or_default v d = (case v of None \<Rightarrow> d | Some x \<Rightarrow> x)"

fun resolveOptions :: "pool_options option \<Rightarrow> pool_config" where
  "resolveOptions None = SINGLE_CONNECTION_POOL"
| "resolveOptions (Some opt) =
     \<lparr>cfg_min = or_default (opt_min opt) (cfg_min MULTI_CONNECTION_DEFAULTS),
      cfg_max = or_default (opt_max opt) (cfg_max MULTI_CONNECTION_DEFAULTS),
      cfg_idleTimeoutMs = or_default (opt_idleTimeoutSeconds opt) 180 * 1000,
      cfg_acquireTimeoutMs = or_default (opt_acquireTimeoutSeconds opt) 30 * 1000\<rparr>"

text \<open>A field of the untyped option object: absent, an integral number, another number, or not a
  number.\<close>

datatype field = Absent | IntField int | FractionField | NotANumber

datatype pool_value =
    UndefinedValue
  | NonObject
  | PoolObject field field field field

fun nonNegativeInt :: "field \<Rightarrow> bool" where
  "nonNegativeInt (IntField n) = (n \<ge> 0)"
| "nonNegativeInt f = False"

fun validatePoolOptions :: "pool_value \<Rightarrow> bool" where
  "validatePoolOptions UndefinedValue = True"
| "validatePoolOptions NonObject = False"
| "validatePoolOptions (PoolObject mn mx idl acq) =
     (if mn \<noteq> Absent \<and> \<not> nonNegativeInt mn then False
      else if mx \<noteq> Absent \<and> \<not> nonNegativeInt mx then False
      else if (case mx of IntField n \<Rightarrow> n < 1 | _ \<Rightarrow> False) then False
      else if (case mn of
                 IntField n \<Rightarrow>
                   n > (case mx of IntField k \<Rightarrow> k | _ \<Rightarrow> cfg_max MULTI_CONNECTION_DEFAULTS)
               | _ \<Rightarrow> False) then False
      else if idl \<noteq> Absent \<and> \<not> nonNegativeInt idl then False
      else if acq \<noteq> Absent \<and> \<not> nonNegativeInt acq then False
      else True)"

fun field_value :: "field \<Rightarrow> int option" where
  "field_value (IntField n) = Some n"
| "field_value f = None"

fun as_options :: "pool_value \<Rightarrow> pool_options option" where
  "as_options (PoolObject mn mx idl acq) =
     Some \<lparr>opt_min = field_value mn, opt_max = field_value mx,
           opt_idleTimeoutSeconds = field_value idl, opt_acquireTimeoutSeconds = field_value acq\<rparr>"
| "as_options v = None"

subsection \<open>State\<close>

datatype pool_error = PoolDraining | AcquireTimeout int | ConnectionFailed | EngineThrown | OtherThrown

datatype 'r outcome = Got 'r | Failed pool_error

text \<open>The continuations.  \<open>AcquireValidate\<close>: an \<open>acquire\<close> call awaits the validation of a reused
  resource; \<open>AcquireDestroy\<close>: it awaits the destruction of one that failed it; \<open>AcquireCreate\<close>: it
  awaits the factory.  \<open>HandoffValidate\<close>: a released resource is validated for a waiter.
  \<open>DestroyPump\<close>: \<open>destroy\<close> awaits the hook before it pumps the waiters.  \<open>CreateForWaiter\<close>,
  \<open>CreateWarm\<close>: factory calls for a waiter and for the warm-up (its batch, and whether the idle
  timer started it).  \<open>DrainDestroy\<close>: \<open>drain\<close> destroys the idle resources one by one.\<close>

datatype 'r task =
    AcquireValidate nat 'r "int option"
  | AcquireDestroy nat "int option"
  | AcquireCreate nat
  | HandoffValidate 'r
  | DestroyPump
  | CreateForWaiter
  | CreateWarm nat bool
  | DrainDestroy "'r list"

text \<open>What a hook call answers; \<open>Threw True\<close> is an \<open>EngineError\<close>.\<close>

datatype 'r answer = Validated bool | Created 'r | Done | Threw bool

text \<open>The private fields (a waiter is the number of its acquire call), the suspended tasks, the
  settled promises, and two history variables that no operation reads: the resources ever
  created and those a client holds.\<close>

record 'r pool =
  config :: pool_config
  idle :: "'r list"
  active :: "'r list"
  waiters :: "nat list"
  settled :: "nat list"
  waiterTimers :: "(nat \<times> int) list"
  idleTimers :: "'r list"
  pending :: nat
  handoff :: "'r list"
  draining :: bool
  tasks :: "'r task list"
  outcomes :: "(nat \<times> 'r outcome) list"
  destroyed :: "'r list"
  warnings :: nat
  nextCall :: nat
  nextBatch :: nat
  failedBatches :: "nat list"
  made :: "'r list"
  held :: "'r list"

definition new_pool :: "pool_config \<Rightarrow> 'r pool" where
  "new_pool c = \<lparr>config = c, idle = [], active = [], waiters = [], settled = [], waiterTimers = [],
     idleTimers = [], pending = 0, handoff = [], draining = False, tasks = [], outcomes = [],
     destroyed = [], warnings = 0, nextCall = 0, nextBatch = 0, failedBatches = [], made = [],
     held = []\<rparr>"

definition size_of :: "'r pool \<Rightarrow> nat" where
  "size_of s = length (idle s) + length (active s) + pending s + length (handoff s)"

definition below_max :: "'r pool \<Rightarrow> bool" where
  "below_max s \<longleftrightarrow> int (size_of s) < cfg_max (config s)"

record pool_stats =
  total :: nat
  active_count :: nat
  idle_count :: nat
  waiting :: nat

definition stats :: "'r pool \<Rightarrow> pool_stats" where
  "stats s = \<lparr>total = size_of s, active_count = length (active s), idle_count = length (idle s),
     waiting = length (waiters s)\<rparr>"

definition push :: "'r task \<Rightarrow> 'r pool \<Rightarrow> 'r pool" where
  "push t s = s\<lparr>tasks := tasks s @ [t]\<rparr>"

definition fail_call :: "nat \<Rightarrow> pool_error \<Rightarrow> 'r pool \<Rightarrow> 'r pool" where
  "fail_call i e s = s\<lparr>outcomes := outcomes s @ [(i, Failed e)]\<rparr>"

text \<open>A promise resolves with a resource: the client holds it from now on.\<close>

definition give :: "nat \<Rightarrow> 'r \<Rightarrow> 'r pool \<Rightarrow> 'r pool" where
  "give i r s = s\<lparr>outcomes := outcomes s @ [(i, Got r)], held := r # held s\<rparr>"

subsection \<open>Timers and destruction\<close>

definition clearIdleTimer :: "'r \<Rightarrow> 'r pool \<Rightarrow> 'r pool" where
  "clearIdleTimer r s = s\<lparr>idleTimers := set_del r (idleTimers s)\<rparr>"

definition scheduleIdleTimer :: "'r \<Rightarrow> 'r pool \<Rightarrow> 'r pool" where
  "scheduleIdleTimer r s =
     (if cfg_idleTimeoutMs (config s) \<le> 0 then s
      else if int (length (idle s) + length (active s)) \<le> cfg_min (config s) then s
      else s\<lparr>idleTimers := set_add r (idleTimers s)\<rparr>)"

definition safeDestroy :: "'r \<Rightarrow> 'r pool \<Rightarrow> 'r pool" where
  "safeDestroy r s = s\<lparr>destroyed := destroyed s @ [r]\<rparr>"

definition to_idle :: "'r \<Rightarrow> 'r pool \<Rightarrow> 'r pool" where
  "to_idle r s = scheduleIdleTimer r (s\<lparr>idle := idle s @ [r]\<rparr>)"

subsection \<open>Acquire\<close>

definition enqueue :: "nat \<Rightarrow> int option \<Rightarrow> 'r pool \<Rightarrow> 'r pool" where
  "enqueue i timeoutMs s =
     (let timeout = or_default timeoutMs (cfg_acquireTimeoutMs (config s));
          s' = (if timeout > 0 then s\<lparr>waiterTimers := AList.update i timeout (waiterTimers s)\<rparr> else s)
      in s'\<lparr>waiters := waiters s' @ [i]\<rparr>)"

text \<open>The head of the reuse loop, and what follows it when no idle resource is left.\<close>

definition acquire_next :: "nat \<Rightarrow> int option \<Rightarrow> 'r pool \<Rightarrow> 'r pool" where
  "acquire_next i timeoutMs s =
     (case idle s of
        r # rest \<Rightarrow>
          push (AcquireValidate i r timeoutMs)
            ((clearIdleTimer r (s\<lparr>idle := rest\<rparr>))\<lparr>active := set_add r (active s)\<rparr>)
      | [] \<Rightarrow>
          if below_max s then push (AcquireCreate i) (s\<lparr>pending := pending s + 1\<rparr>)
          else enqueue i timeoutMs s)"

definition acquire :: "int option \<Rightarrow> 'r pool \<Rightarrow> 'r pool" where
  "acquire timeoutMs s =
     (let i = nextCall s; s' = s\<lparr>nextCall := Suc i\<rparr>
      in if draining s then fail_call i PoolDraining s' else acquire_next i timeoutMs s')"

definition thrown :: "bool \<Rightarrow> pool_error" where
  "thrown engine = (if engine then EngineThrown else OtherThrown)"

fun acquire_validated :: "nat \<Rightarrow> 'r \<Rightarrow> int option \<Rightarrow> 'r answer \<Rightarrow> 'r pool \<Rightarrow> 'r pool" where
  "acquire_validated i r timeoutMs (Validated True) s = give i r s"
| "acquire_validated i r timeoutMs (Threw e) s = fail_call i (thrown e) s"
| "acquire_validated i r timeoutMs _ s =
     push (AcquireDestroy i timeoutMs) (safeDestroy r (s\<lparr>active := set_del r (active s)\<rparr>))"

fun acquire_created :: "nat \<Rightarrow> 'r answer \<Rightarrow> 'r pool \<Rightarrow> 'r pool" where
  "acquire_created i (Created r) s =
     give i r (s\<lparr>pending := pending s - 1, active := set_add r (active s), made := r # made s\<rparr>)"
| "acquire_created i (Threw e) s = fail_call i (thrown e) (s\<lparr>pending := pending s - 1\<rparr>)"
| "acquire_created i _ s = s"

text \<open>The timer of a queued call fires.\<close>

definition waiter_timeout :: "nat \<Rightarrow> int \<Rightarrow> 'r pool \<Rightarrow> 'r pool" where
  "waiter_timeout i timeout s =
     (let s = s\<lparr>waiterTimers := AList.delete i (waiterTimers s)\<rparr>
      in if i \<in> set (settled s) then s
         else fail_call i (AcquireTimeout timeout)
           (s\<lparr>settled := i # settled s, waiters := remove1 i (waiters s), warnings := warnings s + 1\<rparr>))"

subsection \<open>Waiters\<close>

definition hasLiveWaiter :: "'r pool \<Rightarrow> bool" where
  "hasLiveWaiter s \<longleftrightarrow> list_ex (\<lambda>w. w \<notin> set (settled s)) (waiters s)"

text \<open>\<open>settled = true\<close> and \<open>clearTimeout\<close>; the rest of the queue is \<open>ws\<close>.\<close>

definition settle :: "nat \<Rightarrow> nat list \<Rightarrow> 'r pool \<Rightarrow> 'r pool" where
  "settle w ws s = s\<lparr>waiters := ws, settled := w # settled s,
     waiterTimers := AList.delete w (waiterTimers s)\<rparr>"

fun shift_live :: "nat list \<Rightarrow> 'r pool \<Rightarrow> nat option \<times> 'r pool" where
  "shift_live [] s = (None, s\<lparr>waiters := []\<rparr>)"
| "shift_live (w # ws) s =
     (if w \<in> set (settled s) then shift_live ws s else (Some w, settle w ws s))"

definition shiftLiveWaiter :: "'r pool \<Rightarrow> nat option \<times> 'r pool" where
  "shiftLiveWaiter s = shift_live (waiters s) s"

definition resolveWaiter :: "'r \<Rightarrow> 'r pool \<Rightarrow> bool \<times> 'r pool" where
  "resolveWaiter r s =
     (case shift_live (waiters s) s of
        (None, s') \<Rightarrow> (False, s')
      | (Some w, s') \<Rightarrow> (True, give w r (s'\<lparr>active := set_add r (active s')\<rparr>)))"

definition resolve_or_idle :: "'r \<Rightarrow> 'r pool \<Rightarrow> 'r pool" where
  "resolve_or_idle r s =
     (case resolveWaiter r s of (True, s') \<Rightarrow> s' | (False, s') \<Rightarrow> to_idle r s')"

fun pump :: "nat \<Rightarrow> 'r pool \<Rightarrow> 'r pool" where
  "pump 0 s = s"
| "pump (Suc live) s =
     (if below_max s then pump live (push CreateForWaiter (s\<lparr>pending := pending s + 1\<rparr>)) else s)"

definition pumpWaiters :: "'r pool \<Rightarrow> 'r pool" where
  "pumpWaiters s =
     (if draining s then s
      else pump (length (filter (\<lambda>w. w \<notin> set (settled s)) (waiters s))) s)"

fun waiter_created :: "'r answer \<Rightarrow> 'r pool \<Rightarrow> 'r pool" where
  "waiter_created (Threw e) s =
     (let s = s\<lparr>pending := pending s - 1\<rparr>
      in case shiftLiveWaiter s of
           (None, s') \<Rightarrow> s'
         | (Some w, s') \<Rightarrow> fail_call w (if e then EngineThrown else ConnectionFailed) s')"
| "waiter_created (Created r) s =
     (let s = s\<lparr>pending := pending s - 1, made := r # made s\<rparr>
      in if draining s then safeDestroy r s else resolve_or_idle r s)"
| "waiter_created _ s = s"

subsection \<open>Release and destroy\<close>

text \<open>The client gives the resource up (\<open>held\<close>) when it calls.\<close>

definition release :: "'r \<Rightarrow> 'r pool \<Rightarrow> 'r pool" where
  "release r s =
     (if r \<notin> set (active s) then s
      else
        let s = s\<lparr>active := set_del r (active s), held := set_del r (held s)\<rparr>
        in if draining s then safeDestroy r s
           else if \<not> hasLiveWaiter s then to_idle r s
           else push (HandoffValidate r) (s\<lparr>handoff := set_add r (handoff s)\<rparr>))"

definition destroy :: "'r \<Rightarrow> 'r pool \<Rightarrow> 'r pool" where
  "destroy r s =
     push DestroyPump (safeDestroy r (clearIdleTimer r
       (s\<lparr>active := set_del r (active s), handoff := set_del r (handoff s),
          idle := remove1 r (idle s), held := set_del r (held s)\<rparr>)))"

text \<open>The continuation of \<open>__handToWaiter\<close> after the validation.\<close>

definition handoff_validated :: "'r \<Rightarrow> 'r answer \<Rightarrow> 'r pool \<Rightarrow> 'r pool" where
  "handoff_validated r ans s =
     (let s' = s\<lparr>handoff := set_del r (handoff s)\<rparr>
      in if draining s then safeDestroy r s'
         else if ans = Validated True then resolve_or_idle r s'
         else destroy r s')"

text \<open>\<open>ping\<close> after its \<open>acquire\<close>: the verdict, and the resource goes back.\<close>

fun ping_finish :: "'r outcome \<Rightarrow> 'r answer \<Rightarrow> 'r pool \<Rightarrow> bool \<times> 'r pool" where
  "ping_finish (Failed e) ans s = (False, s)"
| "ping_finish (Got r) ans s = (ans = Validated True, release r s)"

subsection \<open>Warm-up, drain, idle eviction\<close>

fun create_warm :: "nat \<Rightarrow> nat \<Rightarrow> bool \<Rightarrow> 'r pool \<Rightarrow> 'r pool" where
  "create_warm 0 b timer s = s"
| "create_warm (Suc n) b timer s =
     create_warm n b timer
       (if draining s then s else push (CreateWarm b timer) (s\<lparr>pending := pending s + 1\<rparr>))"

definition ensureMin :: "bool \<Rightarrow> 'r pool \<Rightarrow> 'r pool" where
  "ensureMin timer s =
     (if cfg_min (config s) \<le> 0 then s
      else
        let need = cfg_min (config s) - int (size_of s)
        in if need \<le> 0 then s
           else create_warm (nat need) (nextBatch s) timer (s\<lparr>nextBatch := Suc (nextBatch s)\<rparr>))"

text \<open>A failed warm-up creation rejects its \<open>Promise.all\<close>; the timer's re-warm turns the first
  rejection of a batch into a warning.\<close>

fun warm_created :: "nat \<Rightarrow> bool \<Rightarrow> 'r answer \<Rightarrow> 'r pool \<Rightarrow> 'r pool" where
  "warm_created b timer (Threw e) s =
     s\<lparr>pending := pending s - 1, failedBatches := set_add b (failedBatches s),
       warnings := (if timer \<and> b \<notin> set (failedBatches s) then warnings s + 1 else warnings s)\<rparr>"
| "warm_created b timer (Created r) s =
     (let s = s\<lparr>pending := pending s - 1, made := r # made s\<rparr>
      in if draining s then safeDestroy r s else to_idle r s)"
| "warm_created b timer _ s = s"

fun reject_all :: "nat list \<Rightarrow> 'r pool \<Rightarrow> 'r pool" where
  "reject_all [] s = s\<lparr>waiters := []\<rparr>"
| "reject_all (w # ws) s =
     reject_all ws
       (if w \<in> set (settled s) then s else fail_call w PoolDraining (settle w ws s))"

fun drain_next :: "'r list \<Rightarrow> 'r pool \<Rightarrow> 'r pool" where
  "drain_next [] s = s"
| "drain_next (r # rs) s = push (DrainDestroy rs) (safeDestroy r (clearIdleTimer r s))"

definition drain :: "'r pool \<Rightarrow> 'r pool" where
  "drain s =
     (if draining s then s
      else
        let s' = reject_all (waiters s) (s\<lparr>draining := True\<rparr>)
        in drain_next (idle s') (s'\<lparr>idle := []\<rparr>))"

definition onIdleTimeout :: "'r \<Rightarrow> 'r pool \<Rightarrow> 'r pool" where
  "onIdleTimeout r s =
     (let s = s\<lparr>idleTimers := set_del r (idleTimers s)\<rparr>
      in if r \<notin> set (idle s) then s
         else
           let size = int (length (idle s) + length (active s))
           in if size > cfg_min (config s) then safeDestroy r (s\<lparr>idle := remove1 r (idle s)\<rparr>)
              else if size < cfg_min (config s) \<and> \<not> draining s then ensureMin True s
              else s)"

text \<open>The engine reopens a drained pool when it connects again.\<close>

definition reopen :: "'r pool \<Rightarrow> 'r pool" where
  "reopen s = s\<lparr>draining := False\<rparr>"

subsection \<open>Steps\<close>

fun resume :: "'r task \<Rightarrow> 'r answer \<Rightarrow> 'r pool \<Rightarrow> 'r pool" where
  "resume (AcquireValidate i r timeoutMs) ans s = acquire_validated i r timeoutMs ans s"
| "resume (AcquireDestroy i timeoutMs) ans s = acquire_next i timeoutMs s"
| "resume (AcquireCreate i) ans s = acquire_created i ans s"
| "resume (HandoffValidate r) ans s = handoff_validated r ans s"
| "resume DestroyPump ans s = pumpWaiters s"
| "resume CreateForWaiter ans s = waiter_created ans s"
| "resume (CreateWarm b timer) ans s = warm_created b timer ans s"
| "resume (DrainDestroy rs) ans s = drain_next rs s"

text \<open>The answers a task can get: a factory answers with a resource not seen before, or throws; a
  validation answers yes or no, or throws; for the others the answer is not looked at.\<close>

fun answers :: "'r pool \<Rightarrow> 'r task \<Rightarrow> 'r answer \<Rightarrow> bool" where
  "answers s (AcquireValidate i r timeoutMs) ans = ((\<exists>b. ans = Validated b) \<or> (\<exists>e. ans = Threw e))"
| "answers s (HandoffValidate r) ans = ((\<exists>b. ans = Validated b) \<or> (\<exists>e. ans = Threw e))"
| "answers s (AcquireCreate i) ans = ((\<exists>r. ans = Created r \<and> r \<notin> set (made s)) \<or> (\<exists>e. ans = Threw e))"
| "answers s CreateForWaiter ans = ((\<exists>r. ans = Created r \<and> r \<notin> set (made s)) \<or> (\<exists>e. ans = Threw e))"
| "answers s (CreateWarm b timer) ans = ((\<exists>r. ans = Created r \<and> r \<notin> set (made s)) \<or> (\<exists>e. ans = Threw e))"
| "answers s t ans = True"

definition drop :: "'r task \<Rightarrow> 'r pool \<Rightarrow> 'r pool" where
  "drop t s = s\<lparr>tasks := remove1 t (tasks s)\<rparr>"

text \<open>Clients release or destroy what they hold, once.\<close>

inductive pstep :: "'r pool \<Rightarrow> 'r pool \<Rightarrow> bool" where
  acquire_call: "pstep s (acquire timeoutMs s)"
| release_call: "r \<in> set (held s) \<Longrightarrow> pstep s (release r s)"
| destroy_call: "r \<in> set (held s) \<Longrightarrow> pstep s (destroy r s)"
| ensure_call: "pstep s (ensureMin False s)"
| drain_call: "pstep s (drain s)"
| reopen_call: "pstep s (reopen s)"
| waiter_timer: "map_of (waiterTimers s) i = Some t \<Longrightarrow> pstep s (waiter_timeout i t s)"
| idle_timer: "r \<in> set (idleTimers s) \<Longrightarrow> pstep s (onIdleTimeout r s)"
| resumes: "t \<in> set (tasks s) \<Longrightarrow> answers s t ans \<Longrightarrow> pstep s (resume t ans (drop t s))"

inductive preach :: "pool_config \<Rightarrow> 'r pool \<Rightarrow> bool" for c where
  start: "preach c (new_pool c)"
| step: "preach c s \<Longrightarrow> pstep s t \<Longrightarrow> preach c t"

end
