(* ===== verification/PoolOwnership.thy ===== *)
theory PoolOwnership
  imports Pool
begin

text \<open>
  Who owns a connection: every resource of the pool is in exactly one place (idle, checked out or
  being claimed, being handed over), a client holds it exclusively, a destroyed one is gone.

  A suspended task claims resources, so ownership is stated relative to the claims: \<open>own V H D s\<close>
  for the resources under validation by \<open>acquire\<close>, under validation for a waiter, and waiting
  to be destroyed by \<open>drain\<close>.  A resource in \<open>limbo\<close> is in the hands of the running piece.
\<close>

fun task_validates :: "'r task \<Rightarrow> 'r option" where
  "task_validates (AcquireValidate i r timeoutMs) = Some r"
| "task_validates t = None"

fun task_hands :: "'r task \<Rightarrow> 'r option" where
  "task_hands (HandoffValidate r) = Some r"
| "task_hands t = None"

fun task_drains :: "'r task \<Rightarrow> 'r list" where
  "task_drains (DrainDestroy rs) = rs"
| "task_drains t = []"

definition validating :: "'r pool \<Rightarrow> 'r list" where
  "validating s = List.map_filter task_validates (tasks s)"

definition handing :: "'r pool \<Rightarrow> 'r list" where
  "handing s = List.map_filter task_hands (tasks s)"

definition drainees :: "'r pool \<Rightarrow> 'r list" where
  "drainees s = concat (map task_drains (tasks s))"

definition places :: "'r pool \<Rightarrow> 'r list" where
  "places s = idle s @ active s @ handoff s"

definition own :: "'r list \<Rightarrow> 'r list \<Rightarrow> 'r list \<Rightarrow> 'r pool \<Rightarrow> bool" where
  "own V H D s \<longleftrightarrow>
     distinct (places s) \<and> distinct (held s @ V) \<and> set (held s @ V) \<subseteq> set (active s) \<and>
     distinct H \<and> set H = set (handoff s) \<and>
     set (places s) \<inter> (set (destroyed s) \<union> set D) = {} \<and> distinct (destroyed s @ D) \<and>
     set (places s) \<union> set (destroyed s) \<union> set D \<subseteq> set (made s)"

definition own_inv :: "'r pool \<Rightarrow> bool" where
  "own_inv s \<longleftrightarrow> own (validating s) (handing s) (drainees s) s"

definition limbo :: "'r \<Rightarrow> 'r list \<Rightarrow> 'r pool \<Rightarrow> bool" where
  "limbo r D s \<longleftrightarrow> r \<in> set (made s) \<and> r \<notin> set (places s) \<union> set (destroyed s) \<union> set D"

lemmas own_defs = own_def limbo_def places_def

subsection \<open>Claims of the task list\<close>

lemma claims_push [simp]:
  "validating (push t s) = validating s @ (case task_validates t of None \<Rightarrow> [] | Some r \<Rightarrow> [r])"
  "handing (push t s) = handing s @ (case task_hands t of None \<Rightarrow> [] | Some r \<Rightarrow> [r])"
  "drainees (push t s) = drainees s @ task_drains t"
  by (simp_all add: validating_def handing_def drainees_def push_def js_simps)

lemma claims_cong:
  "tasks s = tasks t \<Longrightarrow> validating s = validating t \<and> handing s = handing t \<and> drainees s = drainees t"
  by (simp add: validating_def handing_def drainees_def)

lemma own_push [simp]: "own V H D (push t s) = own V H D s"
  by (simp add: own_defs push_def)

lemma own_drop [simp]: "own V H D (drop t s) = own V H D s"
  by (simp add: own_defs drop_def)

lemma limbo_drop [simp]: "limbo r D (drop t s) = limbo r D s"
  by (simp add: own_defs drop_def)

lemma set_drains_remove1:
  "t \<in> set ts \<Longrightarrow>
     set (concat (map task_drains ts)) = set (task_drains t) \<union> set (concat (map task_drains (remove1 t ts)))"
  by (induction ts) auto

lemma distinct_drains_remove1:
  "t \<in> set ts \<Longrightarrow> distinct (concat (map task_drains ts)) \<Longrightarrow>
     distinct (task_drains t @ concat (map task_drains (remove1 t ts)))"
proof (induction ts)
  case (Cons x ts)
  show ?case
  proof (cases "x = t")
    case False
    then have "t \<in> set ts" using Cons.prems by simp
    then show ?thesis using Cons set_drains_remove1[of t ts] False by auto
  qed (use Cons in auto)
qed simp

lemmas drainees_remove1 = set_drains_remove1 distinct_drains_remove1

lemma own_perm:
  "own V H D s \<Longrightarrow> set V' = set V \<Longrightarrow> distinct V' \<Longrightarrow> set H' = set H \<Longrightarrow> distinct H' \<Longrightarrow>
     set D' = set D \<Longrightarrow> distinct D' \<Longrightarrow> own V' H' D' s"
  by (auto simp: own_def)

text \<open>What is left of the claims when a task is taken off the list.\<close>

lemma own_drop_task:
  assumes "own_inv s" and "t \<in> set (tasks s)"
  shows "\<exists>V H D. validating (drop t s) = V \<and> handing (drop t s) = H \<and> drainees (drop t s) = D \<and>
    own (case task_validates t of None \<Rightarrow> V | Some r \<Rightarrow> r # V)
        (case task_hands t of None \<Rightarrow> H | Some r \<Rightarrow> r # H) (task_drains t @ D) (drop t s)"
proof -
  let ?V = "validating (drop t s)" and ?H = "handing (drop t s)" and ?D = "drainees (drop t s)"
  have inv: "own (validating s) (handing s) (drainees s) s" using assms(1) by (simp add: own_inv_def)
  then have dist: "distinct (validating s)" "distinct (handing s)" "distinct (drainees s)"
    by (auto simp: own_def)
  have V: "set (case task_validates t of None \<Rightarrow> ?V | Some r \<Rightarrow> r # ?V) = set (validating s) \<and>
      distinct (case task_validates t of None \<Rightarrow> ?V | Some r \<Rightarrow> r # ?V)"
  proof (cases "task_validates t")
    case (Some r)
    then have "r \<in> set (validating s)" using assms(2) by (force simp: validating_def set_map_filter)
    then show ?thesis
      using map_filter_remove1_Some[of task_validates t r "tasks s"] Some assms(2) dist
      by (auto simp: validating_def drop_def)
  qed (use dist in \<open>simp add: validating_def drop_def map_filter_remove1_None\<close>)
  have H: "set (case task_hands t of None \<Rightarrow> ?H | Some r \<Rightarrow> r # ?H) = set (handing s) \<and>
      distinct (case task_hands t of None \<Rightarrow> ?H | Some r \<Rightarrow> r # ?H)"
  proof (cases "task_hands t")
    case (Some r)
    then have "r \<in> set (handing s)" using assms(2) by (force simp: handing_def set_map_filter)
    then show ?thesis
      using map_filter_remove1_Some[of task_hands t r "tasks s"] Some assms(2) dist
      by (auto simp: handing_def drop_def)
  qed (use dist in \<open>simp add: handing_def drop_def map_filter_remove1_None\<close>)
  have "set (task_drains t @ ?D) = set (drainees s) \<and> distinct (task_drains t @ ?D)"
    using assms(2) drainees_remove1[of t "tasks s"] dist by (simp add: drainees_def drop_def)
  then show ?thesis using own_perm[OF inv] V H by simp
qed

subsection \<open>The pieces\<close>

lemma own_to_idle: "own V H D s \<Longrightarrow> limbo r D s \<Longrightarrow> own V H D (to_idle r s)"
  by (auto simp: own_defs to_idle_def scheduleIdleTimer_def)

lemma own_safeDestroy: "own V H D s \<Longrightarrow> limbo r D s \<Longrightarrow> own V H D (safeDestroy r s)"
  by (auto simp: own_defs safeDestroy_def)

lemma own_fail [simp]: "own V H D (fail_call i e s) = own V H D s"
  by (simp add: own_defs fail_call_def)

lemma own_settle [simp]: "own V H D (settle w ws s) = own V H D s" "limbo r D (settle w ws s) = limbo r D s"
  by (simp_all add: own_defs settle_def)

lemma own_give: "own (r # V) H D s \<Longrightarrow> own V H D (give i r s)"
  by (auto simp: own_defs give_def)

lemma own_forget: "own (r # V) H D s \<Longrightarrow> own V H D s"
  by (auto simp: own_def)

lemma own_activate: "own V H D s \<Longrightarrow> limbo r D s \<Longrightarrow> own (r # V) H D (s\<lparr>active := set_add r (active s)\<rparr>)"
  by (auto simp: own_defs set_add_def)

lemma own_deactivate:
  "own (r # V) H D s \<Longrightarrow>
     own V H D (s\<lparr>active := set_del r (active s)\<rparr>) \<and> limbo r D (s\<lparr>active := set_del r (active s)\<rparr>)"
  by (auto simp: own_defs intro: distinct_set_del)

lemma own_release_held:
  "own V H D s \<Longrightarrow> r \<in> set (held s) \<Longrightarrow>
     own V H D (s\<lparr>active := set_del r (active s), held := set_del r (held s)\<rparr>) \<and>
     limbo r D (s\<lparr>active := set_del r (active s), held := set_del r (held s)\<rparr>)"
  by (auto simp: own_defs intro: distinct_set_del)

lemma own_fields [simp]:
  "own V H D (s\<lparr>pending := n\<rparr>) = own V H D s" "own V H D (s\<lparr>idleTimers := x\<rparr>) = own V H D s"
  "own V H D (s\<lparr>waiters := ws\<rparr>) = own V H D s" "own V H D (s\<lparr>nextBatch := b\<rparr>) = own V H D s"
  "own V H D (s\<lparr>draining := d\<rparr>) = own V H D s" "own V H D (s\<lparr>nextCall := n\<rparr>) = own V H D s"
  "limbo r D (s\<lparr>waiters := ws\<rparr>) = limbo r D s" "limbo r D (s\<lparr>pending := n\<rparr>) = limbo r D s"
  "own V H D (clearIdleTimer r' s) = own V H D s" "limbo r D (clearIdleTimer r' s) = limbo r D s"
  by (simp_all add: own_defs clearIdleTimer_def)

lemma own_shift_live:
  "own V H D (snd (shift_live ws s)) = own V H D s" "limbo r D (snd (shift_live ws s)) = limbo r D s"
  by (induction ws) auto

lemma own_resolve_or_idle:
  assumes "own V H D s" and "limbo r D s"
  shows "own V H D (resolve_or_idle r s)"
proof -
  obtain w s' where sh: "shift_live (waiters s) s = (w, s')" by fastforce
  then have s': "own V H D s'" "limbo r D s'"
    using own_shift_live(1)[of V H D "waiters s" s] own_shift_live(2)[of r D "waiters s" s] assms
    by simp_all
  then have "own V H D (give i r (s'\<lparr>active := set_add r (active s')\<rparr>))" for i
    by (intro own_give own_activate)
  then show ?thesis
    using s' sh by (cases w) (auto simp: resolve_or_idle_def resolveWaiter_def own_to_idle)
qed

lemma own_take_idle:
  "own V H D s \<Longrightarrow> idle s = r # rest \<Longrightarrow>
     own V H D (s\<lparr>idle := rest\<rparr>) \<and> limbo r D (s\<lparr>idle := rest\<rparr>)"
  by (simp add: own_defs)

lemma active_clearIdleTimer [simp]: "active (clearIdleTimer r s) = active s"
  by (simp add: clearIdleTimer_def)

lemma own_create: "own V H D s \<Longrightarrow> r \<notin> set (made s) \<Longrightarrow>
  own V H D (s\<lparr>pending := n, made := r # made s\<rparr>) \<and> limbo r D (s\<lparr>pending := n, made := r # made s\<rparr>)"
  by (auto simp: own_defs)

lemma tasks_frame [simp]:
  "tasks (to_idle r s) = tasks s" "tasks (safeDestroy r s) = tasks s" "tasks (fail_call i e s) = tasks s"
  "tasks (settle w ws s) = tasks s" "tasks (give i r s) = tasks s" "tasks (clearIdleTimer r s) = tasks s"
  "tasks (snd (shift_live ws s)) = tasks s" "tasks (resolve_or_idle r s) = tasks s"
proof -
  show sl: "tasks (snd (shift_live ws s)) = tasks s" for ws
    by (induction ws) (auto simp: settle_def)
  show "tasks (to_idle r s) = tasks s" by (simp add: to_idle_def scheduleIdleTimer_def)
  then show "tasks (resolve_or_idle r s) = tasks s"
    using sl[of "waiters s"]
    by (auto simp: resolve_or_idle_def resolveWaiter_def give_def to_idle_def scheduleIdleTimer_def
        split: prod.splits option.splits)
qed (simp_all add: safeDestroy_def fail_call_def settle_def give_def clearIdleTimer_def)

text \<open>Ownership when the running piece holds the claims \<open>V\<close>, \<open>H\<close> and \<open>D\<close> beside those of the
  suspended tasks.\<close>

definition own_with :: "'r list \<Rightarrow> 'r list \<Rightarrow> 'r list \<Rightarrow> 'r pool \<Rightarrow> bool" where
  "own_with V H D s \<longleftrightarrow> own (V @ validating s) (H @ handing s) (D @ drainees s) s"

lemma own_inv_with: "own_inv s \<longleftrightarrow> own_with [] [] [] s"
  by (simp add: own_inv_def own_with_def)

lemma own_with_push:
  assumes "own_with (case task_validates t of None \<Rightarrow> [] | Some r \<Rightarrow> [r])
    (case task_hands t of None \<Rightarrow> [] | Some r \<Rightarrow> [r]) (task_drains t) s"
  shows "own_inv (push t s)"
proof -
  from assms have "own (validating (push t s)) (handing (push t s)) (drainees (push t s)) s"
    unfolding own_with_def by (rule own_perm) (use assms in \<open>auto simp: own_with_def own_def split: option.splits\<close>)
  then show ?thesis by (simp only: own_inv_def own_push)
qed

lemma own_with_drop:
  assumes "own_inv s" and "t \<in> set (tasks s)"
  shows "own_with (case task_validates t of None \<Rightarrow> [] | Some r \<Rightarrow> [r])
    (case task_hands t of None \<Rightarrow> [] | Some r \<Rightarrow> [r]) (task_drains t) (drop t s)"
  using own_drop_task[OF assms] by (auto simp: own_with_def split: option.splits)

lemmas claims_defs = validating_def handing_def drainees_def

lemma claims_frame [simp]:
  "validating (to_idle r s) = validating s" "handing (to_idle r s) = handing s"
  "drainees (to_idle r s) = drainees s"
  "validating (safeDestroy r s) = validating s" "handing (safeDestroy r s) = handing s"
  "drainees (safeDestroy r s) = drainees s"
  "validating (give i r s) = validating s" "handing (give i r s) = handing s"
  "drainees (give i r s) = drainees s"
  "validating (fail_call i e s) = validating s" "handing (fail_call i e s) = handing s"
  "drainees (fail_call i e s) = drainees s"
  "validating (resolve_or_idle r s) = validating s" "handing (resolve_or_idle r s) = handing s"
  "drainees (resolve_or_idle r s) = drainees s"
  "validating (settle w ws s) = validating s" "handing (settle w ws s) = handing s"
  "drainees (settle w ws s) = drainees s"
  "validating (clearIdleTimer r s) = validating s" "handing (clearIdleTimer r s) = handing s"
  "drainees (clearIdleTimer r s) = drainees s"
  by (simp_all add: claims_defs)

lemma claims_fields [simp]:
  "validating (s\<lparr>pending := n\<rparr>) = validating s" "handing (s\<lparr>pending := n\<rparr>) = handing s"
  "drainees (s\<lparr>pending := n\<rparr>) = drainees s"
  "validating (s\<lparr>active := a\<rparr>) = validating s" "handing (s\<lparr>active := a\<rparr>) = handing s"
  "drainees (s\<lparr>active := a\<rparr>) = drainees s"
  "validating (s\<lparr>idle := x\<rparr>) = validating s" "handing (s\<lparr>idle := x\<rparr>) = handing s"
  "drainees (s\<lparr>idle := x\<rparr>) = drainees s"
  "validating (s\<lparr>handoff := h\<rparr>) = validating s" "handing (s\<lparr>handoff := h\<rparr>) = handing s"
  "drainees (s\<lparr>handoff := h\<rparr>) = drainees s"
  "validating (s\<lparr>held := l\<rparr>) = validating s" "handing (s\<lparr>held := l\<rparr>) = handing s"
  "drainees (s\<lparr>held := l\<rparr>) = drainees s"
  "validating (s\<lparr>made := m\<rparr>) = validating s" "handing (s\<lparr>made := m\<rparr>) = handing s"
  "drainees (s\<lparr>made := m\<rparr>) = drainees s"
  "validating (s\<lparr>waiters := w\<rparr>) = validating s" "handing (s\<lparr>waiters := w\<rparr>) = handing s"
  "drainees (s\<lparr>waiters := w\<rparr>) = drainees s"
  "validating (s\<lparr>draining := b\<rparr>) = validating s" "handing (s\<lparr>draining := b\<rparr>) = handing s"
  "drainees (s\<lparr>draining := b\<rparr>) = drainees s"
  by (simp_all add: claims_defs)

subsection \<open>The operations keep ownership\<close>

lemma own_enqueue [simp]: "own V H D (enqueue i tm s) = own V H D s"
  by (simp add: enqueue_def Let_def own_defs)

lemma claims_enqueue [simp]:
  "validating (enqueue i tm s) = validating s" "handing (enqueue i tm s) = handing s"
  "drainees (enqueue i tm s) = drainees s"
  by (simp_all add: claims_defs enqueue_def Let_def)

lemma own_inv_acquire_next:
  assumes "own_inv s" shows "own_inv (acquire_next i tm s)"
proof (cases "idle s")
  case Nil
  then show ?thesis
    using assms by (simp add: acquire_next_def own_inv_def)
next
  case (Cons r rest)
  have "own_with [r] [] [] ((clearIdleTimer r (s\<lparr>idle := rest\<rparr>))\<lparr>active := set_add r (active s)\<rparr>)"
    using own_activate[of "validating s" "handing s" "drainees s" "clearIdleTimer r (s\<lparr>idle := rest\<rparr>)" r]
      own_take_idle[OF _ Cons] assms
    by (simp add: own_inv_def own_with_def)
  then show ?thesis
    using Cons own_with_push[of "AcquireValidate i r tm"] by (simp add: acquire_next_def)
qed

lemma own_inv_acquire: "own_inv s \<Longrightarrow> own_inv (acquire tm s)"
  using own_inv_acquire_next[of "s\<lparr>nextCall := Suc (nextCall s)\<rparr>"]
  by (auto simp: acquire_def Let_def own_inv_def claims_defs)

lemma own_inv_destroy:
  assumes "own_inv s" and "limbo r (drainees s) s"
  shows "own_inv (destroy r s)"
proof -
  have "r \<notin> set (active s)" "r \<notin> set (handoff s)" "r \<notin> set (idle s)" "r \<notin> set (held s)"
    using assms by (auto simp: own_inv_def own_defs)
  then have "destroy r s = push DestroyPump (safeDestroy r (clearIdleTimer r s))"
    by (simp add: destroy_def remove1_idem)
  then show ?thesis
    using own_with_push[of DestroyPump "safeDestroy r (clearIdleTimer r s)"] assms
    by (simp add: own_inv_def own_with_def own_safeDestroy)
qed

lemma set_del_idem: "set_del x (set_del x xs) = set_del x xs"
  by (simp add: set_del_def)

lemma own_inv_destroy_held:
  assumes "own_inv s" and "r \<in> set (held s)"
  shows "own_inv (destroy r s)"
proof -
  let ?s = "s\<lparr>active := set_del r (active s), held := set_del r (held s)\<rparr>"
  have "destroy r s = destroy r ?s"
    by (simp add: destroy_def set_del_idem clearIdleTimer_def safeDestroy_def)
  moreover have "own_inv ?s" "limbo r (drainees ?s) ?s"
    using own_release_held[of "validating s" "handing s" "drainees s" s r] assms
    by (simp_all add: own_inv_def)
  ultimately show ?thesis using own_inv_destroy by metis
qed

lemma own_inv_release:
  assumes "own_inv s" and "r \<in> set (held s)"
  shows "own_inv (release r s)"
proof -
  let ?s = "s\<lparr>active := set_del r (active s), held := set_del r (held s)\<rparr>"
  have s: "own (validating s) (handing s) (drainees s) ?s" "limbo r (drainees s) ?s"
    using own_release_held[of "validating s" "handing s" "drainees s" s r] assms
    by (simp_all add: own_inv_def)
  then have "own_with [] [r] [] (?s\<lparr>handoff := set_add r (handoff s)\<rparr>)"
    by (auto simp: own_with_def own_defs set_add_def)
  then have "own_inv (push (HandoffValidate r) (?s\<lparr>handoff := set_add r (handoff s)\<rparr>))"
    using own_with_push[of "HandoffValidate r"] by simp
  then show ?thesis
    using assms(1) s
    by (simp add: release_def Let_def own_inv_def own_to_idle own_safeDestroy)
qed

lemma own_inv_safeDestroy: "own_inv s \<Longrightarrow> limbo r (drainees s) s \<Longrightarrow> own_inv (safeDestroy r s)"
  by (simp add: own_inv_def own_safeDestroy)

lemma own_inv_to_idle: "own_inv s \<Longrightarrow> limbo r (drainees s) s \<Longrightarrow> own_inv (to_idle r s)"
  by (simp add: own_inv_def own_to_idle)

lemma own_inv_resolve_or_idle:
  "own_inv s \<Longrightarrow> limbo r (drainees s) s \<Longrightarrow> own_inv (resolve_or_idle r s)"
  by (simp add: own_inv_def own_resolve_or_idle)

lemma own_inv_created:
  "own_inv s \<Longrightarrow> r \<notin> set (made s) \<Longrightarrow>
     own_inv (s\<lparr>pending := n, made := r # made s\<rparr>) \<and>
     limbo r (drainees s) (s\<lparr>pending := n, made := r # made s\<rparr>)"
  using own_create[of "validating s" "handing s" "drainees s" s r n] by (simp add: own_inv_def)

lemma own_inv_acquire_validated:
  assumes "own_with [r] [] [] s"
  shows "own_inv (acquire_validated i r tm ans s)"
proof -
  have r: "own (r # validating s) (handing s) (drainees s) s" using assms by (simp add: own_with_def)
  have "own_inv (push (AcquireDestroy i tm) (safeDestroy r (s\<lparr>active := set_del r (active s)\<rparr>)))"
    using own_deactivate[OF r]
      own_with_push[of "AcquireDestroy i tm" "safeDestroy r (s\<lparr>active := set_del r (active s)\<rparr>)"]
    by (simp add: own_with_def own_safeDestroy)
  moreover have "own_inv (give i r s)" using own_give[OF r] by (simp add: own_inv_def)
  moreover have "own_inv (fail_call i e s)" for e using own_forget[OF r] by (simp add: own_inv_def)
  ultimately show ?thesis
    by (cases "(i, r, tm, ans, s)" rule: acquire_validated.cases) auto
qed

lemma own_inv_acquire_created:
  assumes "own_inv s" and "\<And>r. ans = Created r \<Longrightarrow> r \<notin> set (made s)"
  shows "own_inv (acquire_created i ans s)"
proof (cases "(i, ans, s)" rule: acquire_created.cases)
  case (1 i' r s')
  let ?u = "s\<lparr>pending := pending s - 1, made := r # made s\<rparr>"
  have "own_inv ?u \<and> limbo r (drainees s) ?u" using own_inv_created assms 1 by fastforce
  then have "own (r # validating s) (handing s) (drainees s) (?u\<lparr>active := set_add r (active ?u)\<rparr>)"
    using own_activate[of "validating s" "handing s" "drainees s" ?u r] by (simp add: own_inv_def)
  then have "own_inv (give i r (?u\<lparr>active := set_add r (active ?u)\<rparr>))"
    using own_give by (simp add: own_inv_def)
  moreover have eq: "?u\<lparr>active := set_add r (active ?u)\<rparr> =
      s\<lparr>pending := pending s - 1, active := set_add r (active s), made := r # made s\<rparr>"
    by simp
  ultimately have "own_inv (acquire_created i (Created r) s)" unfolding eq acquire_created.simps by blast
  then show ?thesis using 1 by simp
qed (use assms in \<open>simp_all add: own_inv_def\<close>)

lemma own_inv_handoff_validated:
  assumes "own_with [] [r] [] s"
  shows "own_inv (handoff_validated r ans s)"
proof -
  let ?s = "s\<lparr>handoff := set_del r (handoff s)\<rparr>"
  have "own_inv ?s \<and> limbo r (drainees ?s) ?s"
    using assms by (auto simp: own_with_def own_inv_def own_defs)
  then show ?thesis
    using own_inv_destroy[of ?s r] own_inv_resolve_or_idle[of ?s r] own_inv_safeDestroy[of ?s r]
    unfolding handoff_validated_def Let_def by presburger
qed

lemma own_inv_shift_live:
  assumes "own_inv s" and "shift_live ws s = (w, s')"
  shows "own_inv s'"
proof -
  have "s' = snd (shift_live ws s)" using assms(2) by simp
  then show ?thesis
    using assms(1) tasks_frame(7)[of ws s] by (simp add: own_inv_def own_shift_live claims_defs)
qed

lemma own_inv_fail [simp]: "own_inv (fail_call i e s) = own_inv s"
  by (simp add: own_inv_def)

lemma own_inv_pending [simp]: "own_inv (s\<lparr>pending := n\<rparr>) = own_inv s"
  by (simp add: own_inv_def)

lemma own_inv_waiter_created:
  assumes "own_inv s" and "\<And>r. ans = Created r \<Longrightarrow> r \<notin> set (made s)"
  shows "own_inv (waiter_created ans s)"
proof (cases "(ans, s)" rule: waiter_created.cases)
  case (1 e s')
  have "own_inv (s\<lparr>pending := pending s - 1\<rparr>)" using assms by simp
  moreover obtain w u where sh: "shift_live (waiters s) (s\<lparr>pending := pending s - 1\<rparr>) = (w, u)"
    by fastforce
  ultimately have "own_inv u" using own_inv_shift_live by blast
  then show ?thesis using 1 sh by (simp add: shiftLiveWaiter_def Let_def split: option.split)
next
  case (2 r s')
  let ?u = "s\<lparr>pending := pending s - 1, made := r # made s\<rparr>"
  have "own_inv ?u \<and> limbo r (drainees ?u) ?u"
    using own_inv_created[of s r "pending s - 1"] assms 2 by simp
  then show ?thesis
    using 2 own_inv_resolve_or_idle[of ?u r] own_inv_safeDestroy[of ?u r] by (simp add: Let_def)
qed (use assms in simp_all)

lemma own_inv_warm_created:
  assumes "own_inv s" and "\<And>r. ans = Created r \<Longrightarrow> r \<notin> set (made s)"
  shows "own_inv (warm_created b timer ans s)"
proof (cases "(b, timer, ans, s)" rule: warm_created.cases)
  case (1 b' timer' e s')
  then show ?thesis using assms by (simp add: own_inv_def own_defs claims_defs)
next
  case (2 b' timer' r s')
  let ?u = "s\<lparr>pending := pending s - 1, made := r # made s\<rparr>"
  have "own_inv ?u \<and> limbo r (drainees ?u) ?u"
    using own_inv_created[of s r "pending s - 1"] assms 2 by simp
  then show ?thesis
    using 2 own_inv_to_idle[of ?u r] own_inv_safeDestroy[of ?u r] by (simp add: Let_def)
qed (use assms in simp_all)

lemma own_inv_push_plain:
  "task_validates t = None \<Longrightarrow> task_hands t = None \<Longrightarrow> task_drains t = [] \<Longrightarrow>
     own_inv (push t s) = own_inv s"
  by (simp add: own_inv_def)

lemma own_inv_create_warm: "own_inv s \<Longrightarrow> own_inv (create_warm n b timer s)"
  by (induction n arbitrary: s) (auto simp: own_inv_push_plain)

lemma own_inv_ensureMin: "own_inv s \<Longrightarrow> own_inv (ensureMin timer s)"
  using own_inv_create_warm[of "s\<lparr>nextBatch := Suc (nextBatch s)\<rparr>"]
  by (auto simp: ensureMin_def Let_def own_inv_def claims_defs)

lemma own_inv_pumpWaiters: "own_inv s \<Longrightarrow> own_inv (pumpWaiters s)"
proof -
  have "own_inv s \<Longrightarrow> own_inv (pump n s)" for n
    by (induction n arbitrary: s) (auto simp: own_inv_push_plain)
  then show "own_inv s \<Longrightarrow> own_inv (pumpWaiters s)" by (simp add: pumpWaiters_def)
qed

lemma own_inv_reject_all: "own_inv s \<Longrightarrow> own_inv (reject_all ws s)"
proof (induction ws arbitrary: s)
  case Nil
  then show ?case by (simp add: own_inv_def)
next
  case (Cons w ws)
  have "own_inv (settle w ws s)" using Cons.prems by (simp add: own_inv_def)
  then show ?case using Cons by simp
qed

lemma own_inv_drain_next: "own_with [] [] rs s \<Longrightarrow> own_inv (drain_next rs s)"
proof (cases rs)
  case (Cons r rest)
  assume "own_with [] [] rs s"
  then have "own_with [] [] rest (safeDestroy r (clearIdleTimer r s))"
    unfolding own_with_def using Cons
    by (auto simp: own_defs safeDestroy_def clearIdleTimer_def claims_defs)
  then show ?thesis using Cons own_with_push[of "DrainDestroy rest"] by simp
qed (simp add: own_inv_with)

lemma idle_reject_all [simp]: "idle (reject_all ws s) = idle s"
  by (induction ws arbitrary: s) (auto simp: fail_call_def settle_def)

lemma own_inv_drain:
  assumes "own_inv s" shows "own_inv (drain s)"
proof (cases "draining s")
  case False
  let ?s = "reject_all (waiters s) (s\<lparr>draining := True\<rparr>)"
  have "own_inv (s\<lparr>draining := True\<rparr>)" using assms by (simp add: own_inv_def)
  then have "own_inv ?s" by (rule own_inv_reject_all)
  then have "own_with [] [] (idle ?s) (?s\<lparr>idle := []\<rparr>)"
    unfolding own_inv_def own_with_def by (auto simp: own_defs)
  then show ?thesis using False own_inv_drain_next by (simp add: drain_def Let_def)
qed (use assms in \<open>simp add: drain_def\<close>)

lemma own_remove_idle:
  "own_inv s \<Longrightarrow> r \<in> set (idle s) \<Longrightarrow>
     own_inv (s\<lparr>idle := remove1 r (idle s)\<rparr>) \<and> limbo r (drainees s) (s\<lparr>idle := remove1 r (idle s)\<rparr>)"
  using set_remove1_subset[of r "idle s"] by (auto simp: own_inv_def own_defs)

lemma own_inv_onIdleTimeout:
  assumes "own_inv s" shows "own_inv (onIdleTimeout r s)"
proof -
  let ?s = "s\<lparr>idleTimers := set_del r (idleTimers s)\<rparr>"
  have inv: "own_inv ?s" using assms by (simp add: own_inv_def claims_defs)
  have "own_inv (safeDestroy r (?s\<lparr>idle := remove1 r (idle ?s)\<rparr>))" if "r \<in> set (idle ?s)"
    using own_remove_idle[OF inv that] by (simp add: own_inv_safeDestroy)
  then show ?thesis using inv own_inv_ensureMin[OF inv] by (simp add: onIdleTimeout_def Let_def)
qed

lemma own_inv_resume:
  assumes "own_inv s" and "t \<in> set (tasks s)" and "answers s t ans"
  shows "own_inv (resume t ans (drop t s))"
proof -
  have w: "own_with (case task_validates t of None \<Rightarrow> [] | Some r \<Rightarrow> [r])
      (case task_hands t of None \<Rightarrow> [] | Some r \<Rightarrow> [r]) (task_drains t) (drop t s)"
    using assms own_with_drop by blast
  have fresh: "ans = Created r \<Longrightarrow> t = AcquireCreate i \<or> t = CreateForWaiter \<or> t = CreateWarm b tm
      \<Longrightarrow> r \<notin> set (made (drop t s))" for r i b tm
    using assms(3) by (auto simp: drop_def)
  show ?thesis
    using w fresh
    by (cases t) (auto simp: own_inv_with[symmetric] intro: own_inv_acquire_validated
        own_inv_acquire_next own_inv_acquire_created own_inv_handoff_validated own_inv_pumpWaiters
        own_inv_waiter_created own_inv_warm_created own_inv_drain_next)
qed

lemma own_inv_waiter_timeout: "own_inv s \<Longrightarrow> own_inv (waiter_timeout i t s)"
  by (simp add: waiter_timeout_def Let_def fail_call_def own_inv_def own_defs claims_defs)

lemma own_inv_reopen: "own_inv s \<Longrightarrow> own_inv (reopen s)"
  by (simp add: reopen_def own_inv_def)

lemma own_inv_new: "own_inv (new_pool c)"
  by (simp add: new_pool_def own_inv_def own_defs claims_defs js_simps)

lemma own_inv_step: "pstep s t \<Longrightarrow> own_inv s \<Longrightarrow> own_inv t"
  by (induction rule: pstep.induct)
    (auto intro: own_inv_acquire own_inv_release own_inv_destroy_held own_inv_ensureMin own_inv_drain
      own_inv_waiter_timeout own_inv_onIdleTimeout own_inv_resume own_inv_reopen)

lemma own_inv_reachable: "preach c s \<Longrightarrow> own_inv s"
  by (induction rule: preach.induct) (auto intro: own_inv_step own_inv_new)

text \<open>C1: exclusive ownership.  In every interleaving of the pool's operations, continuations and
  timers, a connection is in at most one place (idle, checked out, being handed over), no two
  clients hold the same one, what a client holds is checked out, a destroyed connection is never
  in the pool or held again, and none is destroyed twice.\<close>

theorem exclusive_ownership:
  assumes "preach c s"
  shows "distinct (idle s @ active s @ handoff s) \<and> distinct (held s) \<and>
    set (held s) \<subseteq> set (active s) \<and>
    set (destroyed s) \<inter> (set (idle s) \<union> set (active s) \<union> set (handoff s) \<union> set (held s)) = {} \<and>
    distinct (destroyed s)"
  using own_inv_reachable[OF assms] by (auto simp: own_inv_def own_defs)

definition sample_run :: "nat pool" where
  "sample_run =
     resume (AcquireCreate 0) (Created 7)
       (drop (AcquireCreate 0) (acquire None (new_pool SINGLE_CONNECTION_POOL)))"

lemma sample_run_reachable: "preach SINGLE_CONNECTION_POOL sample_run"
  unfolding sample_run_def
  by (rule preach.step[OF preach.step[OF preach.start acquire_call] resumes])
    (simp_all add: acquire_def acquire_next_def new_pool_def below_max_def size_of_def
      SINGLE_CONNECTION_POOL_def push_def)

lemma held_sample_run: "held sample_run = [7]"
  by (simp add: sample_run_def acquire_def acquire_next_def new_pool_def below_max_def size_of_def
      SINGLE_CONNECTION_POOL_def push_def drop_def give_def)

theorem exclusive_ownership_witness:
  "set (held sample_run) = {7} \<and> {7} \<subseteq> set (active sample_run) \<and> 7 \<notin> set (destroyed sample_run)"
  using exclusive_ownership[OF sample_run_reachable] held_sample_run by auto

end
