(* ===== verification/PoolCapacity.thy ===== *)
theory PoolCapacity
  imports PoolOwnership
begin

text \<open>
  The size of the connection pool: the connections idle, checked out, being created and being
  handed over never exceed \<open>max\<close>, in any interleaving.  Every piece of the pool either moves a
  connection between places or takes room that the running piece has just seen or freed, so the
  invariant carries the room (\<open>k\<close>) and the creation slots (\<open>p\<close>) the running piece holds.
\<close>

fun creating :: "'r task \<Rightarrow> bool" where
  "creating (AcquireCreate i) = True"
| "creating CreateForWaiter = True"
| "creating (CreateWarm b timer) = True"
| "creating t = False"

definition creations :: "'r pool \<Rightarrow> nat" where
  "creations s = length (filter creating (tasks s))"

definition room :: "nat \<Rightarrow> nat \<Rightarrow> 'r pool \<Rightarrow> bool" where
  "room k p s \<longleftrightarrow> int (size_of s) + int k \<le> cfg_max (config s) \<and>
     cfg_min (config s) \<le> cfg_max (config s) \<and> pending s = p + creations s"

subsection \<open>The pieces\<close>

lemma room_less: "room k p s \<Longrightarrow> k' \<le> k \<Longrightarrow> room k' p s"
  by (auto simp: room_def)

lemma room_same:
  "size_of s' \<le> size_of s \<Longrightarrow> config s' = config s \<Longrightarrow> pending s' = pending s \<Longrightarrow> tasks s' = tasks s \<Longrightarrow>
     room k p s \<Longrightarrow> room k p s'"
  by (auto simp: room_def creations_def)

lemma room_frame [simp]:
  "room k p (safeDestroy r s) = room k p s" "room k p (clearIdleTimer r s) = room k p s"
  "room k p (fail_call i e s) = room k p s" "room k p (settle w ws s) = room k p s"
  "room k p (give i r s) = room k p s" "room k p (enqueue i tm s) = room k p s"
  "room k p (s\<lparr>waiters := ws\<rparr>) = room k p s" "room k p (s\<lparr>draining := d\<rparr>) = room k p s"
  "room k p (s\<lparr>nextCall := n\<rparr>) = room k p s" "room k p (s\<lparr>nextBatch := n\<rparr>) = room k p s"
  "room k p (s\<lparr>made := m\<rparr>) = room k p s" "room k p (s\<lparr>idleTimers := x\<rparr>) = room k p s"
  "room k p (reopen s) = room k p s"
  by (simp_all add: room_def creations_def size_of_def safeDestroy_def clearIdleTimer_def fail_call_def
      settle_def give_def enqueue_def Let_def reopen_def)

lemma room_push: "\<not> creating t \<Longrightarrow> room k p (push t s) = room k p s"
  by (simp add: room_def creations_def push_def size_of_def)

lemma room_push_creation:
  "creating t \<Longrightarrow> room (Suc k) p s \<Longrightarrow> room k p (push t (s\<lparr>pending := pending s + 1\<rparr>))"
  by (simp add: room_def creations_def push_def size_of_def)

lemma room_drop:
  assumes "room k p s" and "t \<in> set (tasks s)"
  shows "room k (p + of_bool (creating t)) (drop t s)"
proof -
  have "length (filter creating ts) = of_bool (creating t) + length (filter creating (remove1 t ts))"
    if "t \<in> set ts" for ts
    using that by (induction ts) auto
  then show ?thesis using assms by (auto simp: room_def creations_def drop_def size_of_def)
qed

lemma room_created:
  "room k (Suc p) s \<Longrightarrow> room (Suc k) p (s\<lparr>pending := pending s - 1\<rparr>)"
  "room k (Suc p) s \<Longrightarrow> room (Suc k) p (s\<lparr>pending := pending s - 1, made := m\<rparr>)"
  by (auto simp: room_def creations_def size_of_def)

lemma room_to_idle: "room (Suc k) p s \<Longrightarrow> room k p (to_idle r s)"
  by (simp add: room_def creations_def size_of_def to_idle_def scheduleIdleTimer_def)

lemma room_activate: "room (Suc k) p s \<Longrightarrow> room k p (s\<lparr>active := set_add r (active s)\<rparr>)"
  using length_set_add_le[of r "active s"] by (simp add: room_def creations_def size_of_def)

lemma room_deactivate: "room k p s \<Longrightarrow> room k p (s\<lparr>active := set_del r (active s)\<rparr>)"
  using length_set_del_le[of r "active s"] by (elim room_same[rotated 4]) (auto simp: size_of_def)

lemma room_shift_live: "room k p s \<Longrightarrow> shift_live ws s = (w, s') \<Longrightarrow> room k p s'"
  by (induction ws arbitrary: w) (auto split: if_splits)

lemma room_resolve_or_idle: "room (Suc k) p s \<Longrightarrow> room k p (resolve_or_idle r s)"
  using room_shift_live[of "Suc k" p s "waiters s"]
  by (auto simp: resolve_or_idle_def resolveWaiter_def room_to_idle room_activate
      split: prod.splits option.splits)

lemma room_below_max: "room k p s \<Longrightarrow> below_max s \<Longrightarrow> room 1 p s"
  by (simp add: room_def below_max_def)

subsection \<open>The operations\<close>

lemma room_acquire_next: "room 0 p s \<Longrightarrow> room 0 p (acquire_next i tm s)"
proof (cases "idle s")
  case Nil
  assume r: "room 0 p s"
  then have "below_max s \<Longrightarrow> room 0 p (push (AcquireCreate i) (s\<lparr>pending := pending s + 1\<rparr>))"
    using room_push_creation[of "AcquireCreate i" 0 p s] room_below_max by force
  then show ?thesis using Nil r by (simp add: acquire_next_def)
next
  case (Cons r rest)
  assume "room 0 p s"
  then have "room 1 p (clearIdleTimer r (s\<lparr>idle := rest\<rparr>))"
    using Cons by (simp add: room_def creations_def size_of_def clearIdleTimer_def)
  then have "room 0 p ((clearIdleTimer r (s\<lparr>idle := rest\<rparr>))\<lparr>active := set_add r (active s)\<rparr>)"
    using room_activate[of 0 p "clearIdleTimer r (s\<lparr>idle := rest\<rparr>)" r] by simp
  then show ?thesis using Cons by (simp add: acquire_next_def room_push)
qed

lemma room_acquire: "room 0 p s \<Longrightarrow> room 0 p (acquire tm s)"
  by (simp add: acquire_def Let_def room_acquire_next)

lemma room_acquire_validated:
  "room 0 p s \<Longrightarrow> room 0 p (acquire_validated i r tm ans s)"
  by (cases "(i, r, tm, ans, s)" rule: acquire_validated.cases)
    (auto simp: room_push intro: room_deactivate)

lemma room_acquire_created:
  assumes "room 0 (Suc p) s" and "(\<exists>r. ans = Created r) \<or> (\<exists>e. ans = Threw e)"
  shows "room 0 p (acquire_created i ans s)"
proof (cases "\<exists>r. ans = Created r")
  case True
  then obtain r where ans: "ans = Created r" by blast
  have "room 0 p (s\<lparr>pending := pending s - 1, active := set_add r (active s)\<rparr>)"
    using room_activate[OF room_created(1)[OF assms(1)], of r] by simp
  then have "room 0 p (s\<lparr>pending := pending s - 1, active := set_add r (active s), made := r # made s\<rparr>)"
    by (elim room_same[rotated 4]) (simp_all add: size_of_def)
  then show ?thesis unfolding ans acquire_created.simps room_frame .
next
  case False
  then obtain e where "ans = Threw e" using assms(2) by blast
  then show ?thesis using room_less[OF room_created(1)[OF assms(1)]] by simp
qed

lemma room_pump: "room 0 p s \<Longrightarrow> room 0 p (pump n s)"
proof (induction n arbitrary: s)
  case (Suc n)
  then show ?case using room_push_creation[of CreateForWaiter 0 p s] room_below_max[of 0 p s] by simp
qed simp

lemma room_pumpWaiters: "room 0 p s \<Longrightarrow> room 0 p (pumpWaiters s)"
  by (simp add: pumpWaiters_def room_pump)

lemma remove1_shorter: "length (remove1 x xs) \<le> length xs"
  by (simp add: length_remove1)

lemma room_destroy: "room 0 p s \<Longrightarrow> room 0 p (destroy r s)"
proof -
  assume r: "room 0 p s"
  let ?s = "s\<lparr>active := set_del r (active s), handoff := set_del r (handoff s),
          idle := remove1 r (idle s), held := set_del r (held s)\<rparr>"
  have "size_of ?s \<le> size_of s"
    using length_set_del_le[of r "active s"] length_set_del_le[of r "handoff s"]
      remove1_shorter[of r "idle s"] by (simp add: size_of_def del: length_remove1)
  then have "room 0 p ?s" using room_same[OF _ _ _ _ r, of ?s] by simp
  then show ?thesis by (simp add: destroy_def room_push)
qed

lemma room_release: "room 0 p s \<Longrightarrow> room 0 p (release r s)"
proof -
  assume r: "room 0 p s"
  let ?s = "s\<lparr>active := set_del r (active s), held := set_del r (held s)\<rparr>"
  have s: "room 1 p ?s" if "r \<in> set (active s)"
    using r length_set_del_in[OF that] by (auto simp: room_def creations_def size_of_def)
  moreover have "room 0 p (?s\<lparr>handoff := set_add r (handoff s)\<rparr>)" if "r \<in> set (active s)"
    using s[OF that] length_set_add_le[of r "handoff s"] by (auto simp: room_def creations_def size_of_def)
  ultimately show ?thesis
    using r room_less[of 1 p ?s 0]
    by (auto simp: release_def Let_def room_push room_to_idle)
qed

lemma room_handoff_validated:
  assumes "room 0 p s" and "r \<in> set (handoff s)"
  shows "room 0 p (handoff_validated r ans s)"
proof -
  have s: "room 1 p (s\<lparr>handoff := set_del r (handoff s)\<rparr>)"
    using assms(1) length_set_del_in[OF assms(2)] by (auto simp: room_def creations_def size_of_def)
  then show ?thesis
    using room_less[OF s, of 0]
    by (simp add: handoff_validated_def Let_def room_resolve_or_idle room_destroy)
qed

lemma room_waiter_created:
  assumes "room 0 (Suc p) s" and "(\<exists>r. ans = Created r) \<or> (\<exists>e. ans = Threw e)"
  shows "room 0 p (waiter_created ans s)"
proof (cases "\<exists>r. ans = Created r")
  case True
  then obtain r where ans: "ans = Created r" by blast
  have "room 1 p (s\<lparr>pending := pending s - 1, made := r # made s\<rparr>)"
    using room_created(2)[OF assms(1)] by simp
  then show ?thesis
    using room_less[of 1 p "s\<lparr>pending := pending s - 1, made := r # made s\<rparr>" 0]
    by (simp add: ans Let_def room_resolve_or_idle)
next
  case False
  then obtain e where ans: "ans = Threw e" using assms(2) by blast
  have s: "room 0 p (s\<lparr>pending := pending s - 1\<rparr>)"
    using room_less[OF room_created(1)[OF assms(1)]] by simp
  obtain w u where sh: "shift_live (waiters s) (s\<lparr>pending := pending s - 1\<rparr>) = (w, u)" by fastforce
  then have "room 0 p u" using room_shift_live[OF s] by blast
  then show ?thesis using sh by (simp add: ans shiftLiveWaiter_def Let_def split: option.split)
qed

lemma room_warm_created:
  assumes "room 0 (Suc p) s" and "(\<exists>r. ans = Created r) \<or> (\<exists>e. ans = Threw e)"
  shows "room 0 p (warm_created b timer ans s)"
proof (cases "\<exists>r. ans = Created r")
  case True
  then obtain r where ans: "ans = Created r" by blast
  have "room 1 p (s\<lparr>pending := pending s - 1, made := r # made s\<rparr>)"
    using room_created(2)[OF assms(1)] by simp
  then show ?thesis
    using room_less[of 1 p "s\<lparr>pending := pending s - 1, made := r # made s\<rparr>" 0]
    by (simp add: ans Let_def room_to_idle)
next
  case False
  then obtain e where ans: "ans = Threw e" using assms(2) by blast
  then show ?thesis using room_less[OF room_created(1)[OF assms(1)], of 0]
    by (simp add: room_def creations_def size_of_def)
qed

lemma room_create_warm: "room n p s \<Longrightarrow> room 0 p (create_warm n b timer s)"
proof (induction n arbitrary: s)
  case (Suc n)
  then show ?case
    using room_push_creation[of "CreateWarm b timer" n p s] room_less[OF Suc.prems, of n] by simp
qed simp

lemma room_ensureMin: "room 0 p s \<Longrightarrow> room 0 p (ensureMin timer s)"
proof -
  assume r: "room 0 p s"
  let ?need = "cfg_min (config s) - int (size_of s)"
  have "room (nat ?need) p (s\<lparr>nextBatch := Suc (nextBatch s)\<rparr>)" if "?need > 0"
    using r that by (simp add: room_def) (simp add: creations_def size_of_def)
  from room_create_warm[OF this] show ?thesis
    using r by (simp add: ensureMin_def Let_def)
qed

lemma room_reject_all: "room k p s \<Longrightarrow> room k p (reject_all ws s)"
  by (induction ws arbitrary: s) auto

lemma room_drain_next: "room k p s \<Longrightarrow> room k p (drain_next rs s)"
  by (cases rs) (simp_all add: room_push)

lemma room_drain: "room 0 p s \<Longrightarrow> room 0 p (drain s)"
proof -
  assume r: "room 0 p s"
  let ?s = "reject_all (waiters s) (s\<lparr>draining := True\<rparr>)"
  have "room 0 p ?s" using r room_reject_all[of 0 p "s\<lparr>draining := True\<rparr>"] by simp
  then have "room 0 p (?s\<lparr>idle := []\<rparr>)"
    by (rule room_same[rotated 4]) (auto simp: size_of_def)
  then show ?thesis using r by (simp add: drain_def Let_def room_drain_next)
qed

lemma room_onIdleTimeout: "room 0 p s \<Longrightarrow> room 0 p (onIdleTimeout r s)"
proof -
  assume "room 0 p s"
  then have s: "room 0 p (s\<lparr>idleTimers := set_del r (idleTimers s)\<rparr>)" (is "room 0 p ?s") by simp
  moreover from s have "room 0 p (?s\<lparr>idle := remove1 r (idle ?s)\<rparr>)"
    by (rule room_same[rotated 4]) (simp_all add: size_of_def length_remove1)
  ultimately show ?thesis by (simp add: onIdleTimeout_def Let_def room_ensureMin)
qed

lemma room_waiter_timeout: "room 0 p s \<Longrightarrow> room 0 p (waiter_timeout i t s)"
  by (simp add: waiter_timeout_def Let_def fail_call_def room_def creations_def size_of_def)

subsection \<open>The configuration is fixed\<close>

lemma config_pieces [simp]:
  "config (to_idle r s) = config s" "config (safeDestroy r s) = config s"
  "config (clearIdleTimer r s) = config s" "config (fail_call i e s) = config s"
  "config (settle w ws s) = config s" "config (give i r s) = config s" "config (push t s) = config s"
  "config (drop t s) = config s" "config (enqueue i tm s) = config s"
  by (simp_all add: to_idle_def scheduleIdleTimer_def safeDestroy_def clearIdleTimer_def fail_call_def
      settle_def give_def push_def drop_def enqueue_def Let_def)

lemma config_loops [simp]:
  "config (snd (shift_live ws s)) = config s" "config (pump n s) = config s"
  "config (create_warm n b timer s) = config s" "config (reject_all ws s) = config s"
  "config (drain_next rs s) = config s"
proof -
  show "config (snd (shift_live ws s)) = config s" by (induction ws) auto
  show "config (pump n s) = config s" by (induction n arbitrary: s) auto
  show "config (create_warm n b timer s) = config s" by (induction n arbitrary: s) auto
  show "config (reject_all ws s) = config s" by (induction ws arbitrary: s) auto
  show "config (drain_next rs s) = config s" by (cases rs) auto
qed

lemma config_shift_live: "shift_live ws s = (w, s') \<Longrightarrow> config s' = config s"
  using config_loops(1)[of ws s] by simp

lemma config_resolve_or_idle [simp]: "config (resolve_or_idle r s) = config s"
  by (auto simp: resolve_or_idle_def resolveWaiter_def dest: config_shift_live split: prod.splits option.splits)

lemma config_acquire_next [simp]: "config (acquire_next i tm s) = config s"
  by (simp add: acquire_next_def split: list.split)

lemma config_ops [simp]:
  "config (acquire tm s) = config s"
  "config (acquire_validated i r tm ans s) = config s" "config (acquire_created i ans s) = config s"
  "config (release r s) = config s" "config (destroy r s) = config s"
  "config (ensureMin timer s) = config s" "config (pumpWaiters s) = config s"
  "config (warm_created b timer ans s) = config s" "config (waiter_created ans s) = config s"
  "config (drain s) = config s" "config (reopen s) = config s" "config (waiter_timeout i t s) = config s"
proof -
  show "config (acquire tm s) = config s" by (simp add: acquire_def Let_def)
  show "config (acquire_validated i r tm ans s) = config s"
    by (cases "(i, r, tm, ans, s)" rule: acquire_validated.cases) auto
  show "config (acquire_created i ans s) = config s"
    by (cases "(i, ans, s)" rule: acquire_created.cases) auto
  show "config (warm_created b timer ans s) = config s"
    by (cases "(b, timer, ans, s)" rule: warm_created.cases) (auto simp: Let_def)
  show "config (waiter_created ans s) = config s"
    by (cases "(ans, s)" rule: waiter_created.cases)
      (auto simp: Let_def shiftLiveWaiter_def dest: config_shift_live split: prod.splits option.splits)
qed (simp_all add: release_def destroy_def ensureMin_def pumpWaiters_def drain_def reopen_def
    waiter_timeout_def Let_def)

lemma config_handoff_validated [simp]: "config (handoff_validated r ans s) = config s"
  by (simp add: handoff_validated_def Let_def)

lemma config_onIdleTimeout [simp]: "config (onIdleTimeout r s) = config s"
  by (simp add: onIdleTimeout_def Let_def)

lemma config_step: "pstep s t \<Longrightarrow> config t = config s"
proof (induction rule: pstep.induct)
  case (resumes t s ans)
  show ?case by (cases t) simp_all
qed simp_all

lemma config_reachable: "preach c s \<Longrightarrow> config s = c"
  by (induction rule: preach.induct) (auto simp: config_step new_pool_def)

subsection \<open>Capacity\<close>

lemma room_resume:
  assumes "room 0 0 s" and "own_inv s" and "t \<in> set (tasks s)" and "answers s t ans"
  shows "room 0 0 (resume t ans (drop t s))"
proof -
  have d: "room 0 (of_bool (creating t)) (drop t s)" using room_drop[OF assms(1,3)] by simp
  have h: "r \<in> set (handoff (drop t s))" if "t = HandoffValidate r" for r
    using assms(2,3) that by (force simp: own_inv_def own_def handing_def set_map_filter drop_def)
  have cr: "creating t \<Longrightarrow> (\<exists>r. ans = Created r) \<or> (\<exists>e. ans = Threw e)"
    using assms(4) by (cases t) auto
  show ?thesis
    using d h cr
    by (cases t) (auto intro: room_acquire_validated room_acquire_next room_acquire_created
        room_handoff_validated room_pumpWaiters room_waiter_created room_warm_created room_drain_next)
qed

lemma room_step: "pstep s t \<Longrightarrow> own_inv s \<Longrightarrow> room 0 0 s \<Longrightarrow> room 0 0 t"
  by (induction rule: pstep.induct)
    (auto intro: room_acquire room_release room_destroy room_ensureMin room_drain room_waiter_timeout
      room_onIdleTimeout room_resume)

lemma room_new: "0 \<le> cfg_max c \<Longrightarrow> cfg_min c \<le> cfg_max c \<Longrightarrow> room 0 0 (new_pool c)"
  by (simp add: new_pool_def room_def size_of_def creations_def)

lemma room_reachable:
  "preach c s \<Longrightarrow> 0 \<le> cfg_max c \<Longrightarrow> cfg_min c \<le> cfg_max c \<Longrightarrow> room 0 0 s"
  by (induction rule: preach.induct)
    (auto intro: room_step own_inv_reachable room_new)

lemma accepted_options_bounds:
  assumes "validatePoolOptions v"
  shows "1 \<le> cfg_max (resolveOptions (as_options v)) \<and> 0 \<le> cfg_min (resolveOptions (as_options v)) \<and>
    cfg_min (resolveOptions (as_options v)) \<le> cfg_max (resolveOptions (as_options v))"
proof (cases v)
  case (PoolObject mn mx idl acq)
  then show ?thesis
    using assms
    by (cases mn; cases mx) (auto simp: or_default_def MULTI_CONNECTION_DEFAULTS_def split: if_splits)
qed (use assms in \<open>simp_all add: SINGLE_CONNECTION_POOL_def\<close>)

lemma held_le_active:
  assumes "own_inv s" shows "length (held s) \<le> length (active s)"
proof -
  have "distinct (held s)" "distinct (active s)" "set (held s) \<subseteq> set (active s)"
    using assms by (auto simp: own_inv_def own_defs)
  then show ?thesis by (metis List.finite_set card_mono distinct_card)
qed

text \<open>C6: capacity.  In every interleaving of a pool built from options that validation accepts,
  the idle, checked-out and handed-over connections together with those being created never
  exceed \<open>max\<close>, and so neither do the connections that clients hold.\<close>

theorem capacity_respected:
  assumes "validatePoolOptions v" and "preach (resolveOptions (as_options v)) s"
  shows "int (total (stats s)) \<le> cfg_max (resolveOptions (as_options v)) \<and>
    int (length (held s)) \<le> cfg_max (resolveOptions (as_options v))"
proof -
  have "room 0 0 s"
    using room_reachable[OF assms(2)] accepted_options_bounds[OF assms(1)] by simp
  then have "int (size_of s) \<le> cfg_max (resolveOptions (as_options v))"
    using config_reachable[OF assms(2)] by (simp add: room_def)
  then show ?thesis
    using held_le_active[OF own_inv_reachable[OF assms(2)]] by (simp add: stats_def size_of_def)
qed

theorem capacity_respected_witness:
  "total (stats sample_run) \<le> 1 \<and> held sample_run = [7]"
  using capacity_respected[of UndefinedValue sample_run] sample_run_reachable held_sample_run
  by (simp add: SINGLE_CONNECTION_POOL_def)

end
