(* ===== verification/PoolCalls.thy ===== *)
theory PoolCalls
  imports PoolCapacity "HOL-Library.Multiset"
begin

text \<open>
  The acquire calls of the pool: every call is answered at most once and none is lost.  The calls
  issued so far are exactly the answered ones, the queued ones and those with a suspended
  \<open>acquire\<close>, each counted once.  The running piece may hold calls of its own (\<open>C\<close>).
\<close>

fun task_call :: "'r task \<Rightarrow> nat option" where
  "task_call (AcquireValidate i r timeoutMs) = Some i"
| "task_call (AcquireDestroy i timeoutMs) = Some i"
| "task_call (AcquireCreate i) = Some i"
| "task_call t = None"

definition in_progress :: "'r pool \<Rightarrow> nat list" where
  "in_progress s = List.map_filter task_call (tasks s)"

definition answered :: "'r pool \<Rightarrow> nat list" where
  "answered s = map fst (outcomes s)"

definition accounted :: "nat multiset \<Rightarrow> 'r pool \<Rightarrow> bool" where
  "accounted C s \<longleftrightarrow>
     mset (answered s) + mset (waiters s) + mset (in_progress s) + C = mset [0..<nextCall s] \<and>
     set (settled s) \<subseteq> set (answered s) \<union> set_mset C \<and> set (map fst (waiterTimers s)) \<subseteq> set (waiters s)"

lemma accounted_parts:
  assumes "accounted C s"
  shows "distinct (answered s)" "distinct (waiters s)" "distinct (in_progress s)"
    "set (answered s) \<inter> set (waiters s) = {}" "set (answered s) \<inter> set (in_progress s) = {}"
    "set (waiters s) \<inter> set (in_progress s) = {}"
    "c \<in># C \<Longrightarrow> c \<notin> set (answered s) \<union> set (waiters s) \<union> set (in_progress s)"
proof -
  have ms: "mset (answered s @ waiters s @ in_progress s) + C = mset [0..<nextCall s]"
    using assms by (simp add: accounted_def ac_simps)
  obtain cs where cs: "C = mset cs" using ex_mset[of C] by auto
  then have "mset (answered s @ waiters s @ in_progress s @ cs) = mset [0..<nextCall s]"
    using ms by (simp add: add.assoc)
  then have "distinct (answered s @ waiters s @ in_progress s @ cs)"
    by (metis distinct_upt mset_eq_imp_distinct_iff)
  then show "distinct (answered s)" "distinct (waiters s)" "distinct (in_progress s)"
    "set (answered s) \<inter> set (waiters s) = {}" "set (answered s) \<inter> set (in_progress s) = {}"
    "set (waiters s) \<inter> set (in_progress s) = {}"
    "c \<in># C \<Longrightarrow> c \<notin> set (answered s) \<union> set (waiters s) \<union> set (in_progress s)"
    using cs by auto
qed

text \<open>The waiters of the queue are never settled, so the guards on settled waiters do not skip.\<close>

lemma accounted_live:
  assumes "accounted {#} s" shows "set (waiters s) \<inter> set (settled s) = {}"
  using accounted_parts(4)[OF assms] assms by (auto simp: accounted_def)

subsection \<open>The pieces\<close>

lemma accounted_same:
  "outcomes s' = outcomes s \<Longrightarrow> waiters s' = waiters s \<Longrightarrow> tasks s' = tasks s \<Longrightarrow>
     nextCall s' = nextCall s \<Longrightarrow> settled s' = settled s \<Longrightarrow> waiterTimers s' = waiterTimers s \<Longrightarrow>
     accounted C s' = accounted C s"
  by (simp add: accounted_def answered_def in_progress_def)

lemma accounted_frame [simp]:
  "accounted C (safeDestroy r s) = accounted C s" "accounted C (clearIdleTimer r s) = accounted C s"
  "accounted C (to_idle r s) = accounted C s" "accounted C (s\<lparr>idle := a\<rparr>) = accounted C s"
  "accounted C (s\<lparr>active := a\<rparr>) = accounted C s" "accounted C (s\<lparr>pending := n\<rparr>) = accounted C s"
  "accounted C (s\<lparr>made := m\<rparr>) = accounted C s" "accounted C (s\<lparr>idleTimers := x\<rparr>) = accounted C s"
  "accounted C (s\<lparr>handoff := h\<rparr>) = accounted C s" "accounted C (s\<lparr>held := h\<rparr>) = accounted C s"
  "accounted C (s\<lparr>draining := d\<rparr>) = accounted C s" "accounted C (s\<lparr>nextBatch := n\<rparr>) = accounted C s"
  "accounted C (reopen s) = accounted C s"
  by (simp_all add: accounted_def answered_def in_progress_def safeDestroy_def clearIdleTimer_def
      to_idle_def scheduleIdleTimer_def reopen_def)

lemma accounted_push [simp]:
  "accounted C (push t s) =
     accounted C s" if "task_call t = None"
  using that by (simp add: accounted_def answered_def in_progress_def push_def js_simps)

lemma accounted_push_call:
  "task_call t = Some i \<Longrightarrow> accounted {#i#} s \<Longrightarrow> i \<notin> set (settled s) \<Longrightarrow> accounted {#} (push t s)"
  by (auto simp: accounted_def answered_def in_progress_def push_def js_simps)

lemma accounted_answer:
  "accounted {#i#} s \<Longrightarrow> accounted {#} (fail_call i e s)"
  "accounted {#i#} s \<Longrightarrow> accounted {#} (give i r s)"
  by (auto simp: accounted_def answered_def in_progress_def fail_call_def give_def)

lemma accounted_drop:
  assumes "accounted {#} s" and "t \<in> set (tasks s)"
  shows "accounted (case task_call t of None \<Rightarrow> {#} | Some i \<Rightarrow> {#i#}) (drop t s)"
proof -
  have "mset (List.map_filter f ts) =
      mset (List.map_filter f (remove1 t ts)) + (case f t of None \<Rightarrow> {#} | Some i \<Rightarrow> {#i#})"
    if "t \<in> set ts" for f :: "'a task \<Rightarrow> nat option" and ts
    using that by (induction ts) (auto simp: js_simps split: option.splits)
  from this[OF assms(2), of task_call] show ?thesis
    using assms(1)
    by (auto simp: accounted_def answered_def in_progress_def drop_def ac_simps split: option.splits)
qed

lemma drop_not_settled:
  assumes "accounted {#} s" and "t \<in> set (tasks s)" and "task_call t = Some i"
  shows "i \<notin> set (settled (drop t s))"
proof -
  have "i \<in> set (in_progress s)" using assms(2,3) by (force simp: in_progress_def set_map_filter)
  then show ?thesis
    using accounted_parts(5)[OF assms(1)] assms(1) by (auto simp: accounted_def drop_def)
qed

lemma set_fst_delete: "set (map fst (AList.delete w al)) = set (map fst al) - {w}"
  by (induction al) (auto simp: AList.delete_eq)

lemma accounted_settle:
  assumes "accounted {#} s" and "waiters s = w # ws"
  shows "accounted {#w#} (settle w ws s)"
  using assms set_fst_delete[of w "waiterTimers s"]
  by (auto simp: accounted_def answered_def in_progress_def settle_def)

lemma shift_live_accounted:
  assumes "accounted {#} s"
  shows "shift_live (waiters s) s =
    (case waiters s of [] \<Rightarrow> (None, s) | w # ws \<Rightarrow> (Some w, settle w ws s))"
  using accounted_live[OF assms] by (cases "waiters s") auto

lemma accounted_resolve_or_idle:
  assumes "accounted {#} s" shows "accounted {#} (resolve_or_idle r s)"
proof (cases "waiters s")
  case Nil
  then show ?thesis
    using assms accounted_same[of "s\<lparr>waiters := []\<rparr>" s] by (simp add: resolve_or_idle_def resolveWaiter_def)
next
  case (Cons w ws)
  then have "accounted {#w#} (settle w ws s)" using assms accounted_settle by blast
  then show ?thesis
    using assms shift_live_accounted[OF assms] Cons
    by (simp add: resolve_or_idle_def resolveWaiter_def accounted_answer)
qed

subsection \<open>The operations\<close>

lemma accounted_enqueue:
  assumes "accounted {#i#} s" and "i \<notin> set (settled s)"
  shows "accounted {#} (enqueue i tm s)"
proof -
  have k: "set (map fst (AList.update i t al)) = insert i (set (map fst al))" for t :: int and al
    by (induction al) auto
  show ?thesis
    using assms k[of _ "waiterTimers s"]
    by (auto simp: accounted_def answered_def in_progress_def enqueue_def Let_def)
qed

lemma accounted_acquire_next:
  assumes "accounted {#i#} s" and "i \<notin> set (settled s)"
  shows "accounted {#} (acquire_next i tm s)"
proof (cases "idle s")
  case Nil
  then show ?thesis
    using assms accounted_enqueue[OF assms] accounted_push_call[of "AcquireCreate i" i "s\<lparr>pending := pending s + 1\<rparr>"]
    by (simp add: acquire_next_def)
next
  case (Cons r rest)
  then show ?thesis
    using assms accounted_push_call[of "AcquireValidate i r tm" i
        "(clearIdleTimer r (s\<lparr>idle := rest\<rparr>))\<lparr>active := set_add r (active s)\<rparr>"]
    by (simp add: acquire_next_def clearIdleTimer_def)
qed

lemma accounted_acquire:
  assumes "accounted {#} s" shows "accounted {#} (acquire tm s)"
proof -
  let ?s = "s\<lparr>nextCall := Suc (nextCall s)\<rparr>"
  have "accounted {#nextCall s#} ?s"
    using assms by (auto simp: accounted_def answered_def in_progress_def)
  moreover have "nextCall s \<notin> set (settled ?s)"
  proof -
    have "set (answered s) \<subseteq> {0..<nextCall s}"
      using assms mset_eq_setD[of "answered s @ waiters s @ in_progress s" "[0..<nextCall s]"]
      by (auto simp: accounted_def ac_simps)
    then show ?thesis using assms by (auto simp: accounted_def)
  qed
  ultimately show ?thesis
    using accounted_acquire_next[of "nextCall s" ?s tm] accounted_answer(1)[of "nextCall s" ?s PoolDraining]
    by (simp add: acquire_def Let_def)
qed

lemma accounted_acquire_validated:
  assumes "accounted {#i#} s" and "i \<notin> set (settled s)"
  shows "accounted {#} (acquire_validated i r tm ans s)"
proof -
  have "accounted {#} (push (AcquireDestroy i tm) (safeDestroy r (s\<lparr>active := set_del r (active s)\<rparr>)))"
    using assms(2) by (intro accounted_push_call[of _ i], simp, unfold accounted_frame)
      (simp_all add: assms(1) safeDestroy_def)
  then show ?thesis
    using accounted_answer[OF assms(1)]
    by (cases "(i, r, tm, ans, s)" rule: acquire_validated.cases) auto
qed

lemma accounted_acquire_created:
  assumes "accounted {#i#} s" and "(\<exists>r. ans = Created r) \<or> (\<exists>e. ans = Threw e)"
  shows "accounted {#} (acquire_created i ans s)"
  using assms(2)
proof
  assume "\<exists>r. ans = Created r"
  then obtain r where "ans = Created r" by blast
  moreover have "accounted {#i#} (s\<lparr>pending := pending s - 1, active := set_add r (active s), made := r # made s\<rparr>)"
    by (subst accounted_same[of _ s]) (use assms in simp_all)
  ultimately show ?thesis by (simp only: acquire_created.simps accounted_answer)
next
  assume "\<exists>e. ans = Threw e"
  moreover have "accounted {#i#} (s\<lparr>pending := pending s - 1\<rparr>)" using assms by simp
  ultimately show ?thesis by (auto simp: accounted_answer)
qed

lemma accounted_waiter_created:
  assumes "accounted {#} s" shows "accounted {#} (waiter_created ans s)"
proof (cases "(ans, s)" rule: waiter_created.cases)
  case (1 e s')
  let ?s = "s\<lparr>pending := pending s - 1\<rparr>"
  have s: "accounted {#} ?s" using assms by simp
  show ?thesis
  proof (cases "waiters ?s")
    case Nil
    then show ?thesis using 1 s shift_live_accounted[OF s]
      by (simp add: shiftLiveWaiter_def Let_def accounted_def answered_def in_progress_def)
  next
    case (Cons w ws)
    then show ?thesis using 1 shift_live_accounted[OF s] accounted_answer(1)[OF accounted_settle[OF s Cons]]
      by (simp add: shiftLiveWaiter_def Let_def)
  qed
next
  case (2 r s')
  have "accounted {#} (s\<lparr>pending := pending s - 1, made := r # made s\<rparr>)"
    by (subst accounted_same[of _ s]) (use assms in simp_all)
  then show ?thesis using 2 by (simp add: Let_def accounted_resolve_or_idle)
qed (use assms in simp_all)

lemma accounted_warm_created: "accounted {#} s \<Longrightarrow> accounted {#} (warm_created b timer ans s)"
  by (cases "(b, timer, ans, s)" rule: warm_created.cases)
    (auto simp: Let_def to_idle_def scheduleIdleTimer_def safeDestroy_def accounted_def answered_def
      in_progress_def)

lemma accounted_pumpWaiters: "accounted {#} s \<Longrightarrow> accounted {#} (pumpWaiters s)"
proof -
  have "accounted {#} s \<Longrightarrow> accounted {#} (pump n s)" for n
    by (induction n arbitrary: s) auto
  then show "accounted {#} s \<Longrightarrow> accounted {#} (pumpWaiters s)" by (simp add: pumpWaiters_def)
qed

lemma accounted_release: "accounted {#} s \<Longrightarrow> accounted {#} (release r s)"
  by (simp add: release_def Let_def)

lemma accounted_destroy: "accounted {#} s \<Longrightarrow> accounted {#} (destroy r s)"
  by (simp add: destroy_def)

lemma accounted_handoff_validated: "accounted {#} s \<Longrightarrow> accounted {#} (handoff_validated r ans s)"
  by (simp add: handoff_validated_def Let_def accounted_resolve_or_idle accounted_destroy)

lemma accounted_ensureMin:
  fixes s :: "'a pool"
  shows "accounted {#} s \<Longrightarrow> accounted {#} (ensureMin timer s)"
proof -
  have w: "accounted {#} s \<Longrightarrow> accounted {#} (create_warm n b timer s)" for n b and s :: "'a pool"
    by (induction n arbitrary: s) auto
  show "accounted {#} s \<Longrightarrow> accounted {#} (ensureMin timer s)" by (simp add: ensureMin_def Let_def w)
qed

lemma accounted_reject_all:
  "accounted {#} s \<Longrightarrow> waiters s = ws \<Longrightarrow> accounted {#} (reject_all ws s)"
proof (induction ws arbitrary: s)
  case Nil
  then show ?case by (simp add: accounted_def answered_def in_progress_def)
next
  case (Cons w ws)
  have "accounted {#} (fail_call w PoolDraining (settle w ws s))"
    using accounted_answer(1)[OF accounted_settle[OF Cons.prems]] .
  moreover have "waiters (fail_call w PoolDraining (settle w ws s)) = ws"
    by (simp add: fail_call_def settle_def)
  moreover have "w \<notin> set (settled s)" using accounted_live[OF Cons.prems(1)] Cons.prems(2) by auto
  ultimately show ?case using Cons.IH by simp
qed

lemma accounted_drain_next: "accounted {#} s \<Longrightarrow> accounted {#} (drain_next rs s)"
  by (cases rs) simp_all

lemma accounted_drain: "accounted {#} s \<Longrightarrow> accounted {#} (drain s)"
  using accounted_reject_all[of "s\<lparr>draining := True\<rparr>" "waiters s"]
  by (simp add: drain_def Let_def accounted_drain_next)

lemma accounted_onIdleTimeout: "accounted {#} s \<Longrightarrow> accounted {#} (onIdleTimeout r s)"
  by (simp add: onIdleTimeout_def Let_def accounted_ensureMin)

lemma accounted_waiter_timeout:
  assumes "accounted {#} s" and "map_of (waiterTimers s) i = Some t"
  shows "accounted {#} (waiter_timeout i t s)"
proof -
  have w: "i \<in> set (waiters s)"
    using assms map_of_SomeD[OF assms(2)] by (force simp: accounted_def)
  then have "i \<notin> set (settled s)" using accounted_live[OF assms(1)] by auto
  moreover have "mset (waiters s) = add_mset i (mset (remove1 i (waiters s)))"
    using w by simp
  moreover have "set (remove1 i (waiters s)) = set (waiters s) - {i}"
    using accounted_parts(2)[OF assms(1)] by simp
  ultimately show ?thesis
    using assms(1) set_fst_delete[of i "waiterTimers s"]
    by (auto simp: waiter_timeout_def Let_def fail_call_def accounted_def answered_def in_progress_def
        simp del: mset_remove1 set_remove1_eq)
qed

lemma accounted_resume:
  assumes "accounted {#} s" and "t \<in> set (tasks s)" and "answers s t ans"
  shows "accounted {#} (resume t ans (drop t s))"
proof -
  have d: "accounted (case task_call t of None \<Rightarrow> {#} | Some i \<Rightarrow> {#i#}) (drop t s)"
    using accounted_drop assms by blast
  have n: "task_call t = Some i \<Longrightarrow> i \<notin> set (settled (drop t s))" for i
    using drop_not_settled[OF assms(1,2)] by blast
  show ?thesis
    using d n assms(3)
    by (cases t) (auto intro: accounted_acquire_validated accounted_acquire_next accounted_acquire_created
        accounted_handoff_validated accounted_pumpWaiters accounted_waiter_created
        accounted_warm_created accounted_drain_next)
qed

lemma accounted_step: "pstep s t \<Longrightarrow> accounted {#} s \<Longrightarrow> accounted {#} t"
  by (induction rule: pstep.induct)
    (auto intro: accounted_acquire accounted_release accounted_destroy accounted_ensureMin
      accounted_drain accounted_waiter_timeout accounted_onIdleTimeout accounted_resume)

lemma accounted_new: "accounted {#} (new_pool c)"
  by (simp add: new_pool_def accounted_def answered_def in_progress_def js_simps)

lemma accounted_reachable: "preach c s \<Longrightarrow> accounted {#} s"
  by (induction rule: preach.induct) (auto intro: accounted_step accounted_new)

text \<open>C7: no acquire call is lost or answered twice.  In every interleaving, the calls issued so
  far are exactly those answered (with a connection or an error), those in the queue and those with
  a suspended \<open>acquire\<close>, each counted once; a pending timer belongs to a queued call.\<close>

theorem calls_accounted:
  assumes "preach c s"
  shows "mset (map fst (outcomes s) @ waiters s @ List.map_filter task_call (tasks s)) =
      mset [0..<nextCall s] \<and>
    distinct (map fst (outcomes s)) \<and> set (map fst (waiterTimers s)) \<subseteq> set (waiters s)"
  using accounted_reachable[OF assms] accounted_parts(1)[OF accounted_reachable[OF assms]]
  by (simp add: accounted_def answered_def in_progress_def ac_simps)

lemma outcomes_sample_run: "outcomes sample_run = [(0, Got 7)]"
  by (simp add: sample_run_def acquire_def acquire_next_def new_pool_def below_max_def size_of_def
      SINGLE_CONNECTION_POOL_def push_def drop_def give_def)

theorem calls_accounted_witness:
  "mset (0 # waiters sample_run @ List.map_filter task_call (tasks sample_run)) =
     mset [0..<nextCall sample_run]"
  using calls_accounted[OF sample_run_reachable] outcomes_sample_run by simp

end
