(* ===== verification/PoolService.thy ===== *)
theory PoolService
  imports PoolCalls
begin

text \<open>
  What the pool does for its callers: the hand-over of a freed connection to the longest-waiting
  call, what \<open>drain\<close> leaves, the floor that idle eviction respects; and the one way in which a
  connection is lost, an exception of the validator inside \<open>acquire\<close>.
\<close>

subsection \<open>Frames of the queue\<close>

lemma settled_frame [simp]:
  "settled (drop t s) = settled s" "waiters (drop t s) = waiters s" "outcomes (drop t s) = outcomes s"
  "draining (drop t s) = draining s" "handoff (drop t s) = handoff s" "held (drop t s) = held s"
  "active (drop t s) = active s" "idle (drop t s) = idle s" "destroyed (drop t s) = destroyed s"
  by (simp_all add: drop_def)


definition sample_handoff :: "nat pool" where
  "sample_handoff = release 7 (acquire None sample_run)"

lemma sample_handoff_reachable: "preach SINGLE_CONNECTION_POOL sample_handoff"
  unfolding sample_handoff_def
  by (rule preach.step[OF preach.step[OF sample_run_reachable acquire_call] release_call])
    (simp add: sample_run_def acquire_def acquire_next_def new_pool_def below_max_def size_of_def
      SINGLE_CONNECTION_POOL_def push_def drop_def give_def set_add_def enqueue_def Let_def)

lemma sample_handoff_fields:
  "waiters sample_handoff = [1]" "draining sample_handoff = False"
  "tasks sample_handoff = [HandoffValidate 7]"
  by (simp_all add: sample_handoff_def release_def hasLiveWaiter_def sample_run_def acquire_def
      acquire_next_def new_pool_def below_max_def size_of_def SINGLE_CONNECTION_POOL_def push_def
      drop_def give_def set_add_def set_del_def enqueue_def or_default_def Let_def)


subsection \<open>Drain\<close>

lemma reject_all_outcomes:
  "distinct ws \<Longrightarrow> set ws \<inter> set (settled s) = {} \<Longrightarrow>
     outcomes (reject_all ws s) = outcomes s @ map (\<lambda>w. (w, Failed PoolDraining)) ws \<and>
     waiters (reject_all ws s) = [] \<and> draining (reject_all ws s) = draining s"
proof (induction ws arbitrary: s)
  case (Cons w ws)
  let ?s = "fail_call w PoolDraining (settle w ws s)"
  have "outcomes (reject_all ws ?s) = outcomes ?s @ map (\<lambda>w. (w, Failed PoolDraining)) ws \<and>
      waiters (reject_all ws ?s) = [] \<and> draining (reject_all ws ?s) = draining ?s"
    using Cons by (intro Cons.IH) (auto simp: fail_call_def settle_def)
  then show ?case using Cons.prems by (auto simp: fail_call_def settle_def)
qed simp

text \<open>Lemma: \<open>drain\<close> answers every queued call with the draining error, in order, empties the queue
  and the idle list, and from then on a connection that is released is destroyed.\<close>

theorem drain_rejects_and_empties:
  assumes "preach c s" and "\<not> draining s"
  shows "outcomes (drain s) = outcomes s @ map (\<lambda>w. (w, Failed PoolDraining)) (waiters s) \<and>
    waiters (drain s) = [] \<and> idle (drain s) = [] \<and> draining (drain s) \<and>
    (\<forall>r\<in>set (active (drain s)). destroyed (release r (drain s)) = destroyed (drain s) @ [r])"
proof -
  let ?s = "reject_all (waiters s) (s\<lparr>draining := True\<rparr>)"
  have r: "outcomes ?s = outcomes s @ map (\<lambda>w. (w, Failed PoolDraining)) (waiters s) \<and>
      waiters ?s = [] \<and> draining ?s"
    using accounted_live[OF accounted_reachable[OF assms(1)]]
      accounted_parts(2)[OF accounted_reachable[OF assms(1)]]
      reject_all_outcomes[of "waiters s" "s\<lparr>draining := True\<rparr>"]
    by simp
  moreover have "outcomes (drain s) = outcomes ?s \<and> waiters (drain s) = waiters ?s \<and>
      idle (drain s) = [] \<and> draining (drain s) = draining ?s"
    using assms(2) by (cases "idle ?s")
      (simp_all add: drain_def Let_def push_def safeDestroy_def clearIdleTimer_def)
  ultimately show ?thesis by (auto simp: release_def Let_def safeDestroy_def)
qed

theorem drain_rejects_and_empties_witness:
  "outcomes (drain sample_handoff) = outcomes sample_handoff @ [(1, Failed PoolDraining)]"
  using drain_rejects_and_empties[OF sample_handoff_reachable] by (simp add: sample_handoff_fields)

subsection \<open>Idle eviction\<close>

text \<open>Lemma: idle eviction respects the floor: when the timer of an idle connection destroys it, the
  connections that stay idle or checked out are still at least \<open>min\<close>; otherwise nothing is
  destroyed, and below \<open>min\<close> (unless draining) exactly the missing connections are re-created.\<close>

theorem eviction_keeps_floor:
  "let s' = onIdleTimeout r s; n = int (length (idle s) + length (active s)); mn = cfg_min (config s)
   in if r \<in> set (idle s) \<and> n > mn
      then destroyed s' = destroyed s @ [r] \<and> mn \<le> int (length (idle s') + length (active s'))
      else destroyed s' = destroyed s \<and> idle s' = idle s \<and> active s' = active s \<and>
        pending s' = pending s +
          (if r \<in> set (idle s) \<and> n < mn \<and> \<not> draining s then nat (mn - int (size_of s)) else 0)"
proof -
  have cw: "pending (create_warm n b True u) = pending u + n \<and> idle (create_warm n b True u) = idle u \<and>
      active (create_warm n b True u) = active u \<and> destroyed (create_warm n b True u) = destroyed u"
    if "\<not> draining u" for n b and u :: "'a pool"
    using that by (induction n arbitrary: u) (auto simp: push_def)
  have "Suc (length (remove1 r (idle s))) = length (idle s)" if "r \<in> set (idle s)"
    using that length_pos_if_in_set[of r "idle s"] by (simp add: length_remove1)
  then show ?thesis
    by (auto simp: onIdleTimeout_def Let_def safeDestroy_def ensureMin_def cw size_of_def
        simp del: length_remove1)
qed

subsection \<open>The lost connection\<close>

text \<open>All the room of the pool is taken by connections that nobody holds and no task knows.\<close>

definition starved :: "'r pool \<Rightarrow> bool" where
  "starved s \<longleftrightarrow> cfg_max (config s) \<le> int (length (active s)) \<and> cfg_min (config s) \<le> cfg_max (config s) \<and>
     held s = [] \<and> idle s = [] \<and> handoff s = [] \<and> tasks s = []"

definition gots :: "'r pool \<Rightarrow> (nat \<times> 'r outcome) list" where
  "gots s = filter (\<lambda>(i, out). \<exists>r. out = Got r) (outcomes s)"

lemma reject_all_starved: "starved s \<Longrightarrow> starved (reject_all ws s) \<and> gots (reject_all ws s) = gots s"
proof (induction ws arbitrary: s)
  case (Cons w ws)
  have "starved (fail_call w PoolDraining (settle w ws s))" "gots (fail_call w PoolDraining (settle w ws s)) = gots s"
    using Cons.prems by (simp_all add: starved_def gots_def fail_call_def settle_def)
  then show ?case using Cons by simp
qed (simp add: starved_def gots_def)

lemma starved_step:
  assumes "pstep s t" and "starved s" shows "starved t \<and> gots t = gots s"
  using assms
proof (induction rule: pstep.induct)
  case (acquire_call s tm)
  then show ?case
    by (auto simp: acquire_def acquire_next_def below_max_def size_of_def enqueue_def fail_call_def
        starved_def gots_def Let_def)
next
  case (drain_call s)
  then have "starved (s\<lparr>draining := True\<rparr>)" "gots (s\<lparr>draining := True\<rparr>) = gots s"
    by (simp_all add: starved_def gots_def)
  then have r: "starved (reject_all (waiters s) (s\<lparr>draining := True\<rparr>)) \<and>
      gots (reject_all (waiters s) (s\<lparr>draining := True\<rparr>)) = gots s"
    using reject_all_starved[of "s\<lparr>draining := True\<rparr>"] by simp
  have id: "s'\<lparr>idle := []\<rparr> = s'" if "idle s' = []" for s' :: "'a pool" using that by simp
  show ?case using r drain_call by (auto simp: drain_def Let_def starved_def gots_def)
qed (auto simp: ensureMin_def size_of_def reopen_def waiter_timeout_def fail_call_def onIdleTimeout_def
    starved_def gots_def Let_def)

text \<open>C28: a starved pool stays starved: whatever is called or fires from then on, no acquire call
  ever gets a connection again.  The witness is a run of the single-connection pool in which the
  validator throws once while a call re-uses the idle connection.\<close>

theorem starved_forever:
  assumes "starved s" and "pstep\<^sup>*\<^sup>* s t"
  shows "starved t \<and> gots t = gots s"
  using assms(2,1) by (induction rule: rtranclp_induct) (auto dest: starved_step)

definition leaked_run :: "nat pool" where
  "leaked_run =
     (let s = acquire None (release 7 sample_run)
      in resume (AcquireValidate 1 7 None) (Threw True) (drop (AcquireValidate 1 7 None) s))"

lemma leaked_run_fields:
  "config leaked_run = SINGLE_CONNECTION_POOL" "active leaked_run = [7]" "held leaked_run = []"
  "idle leaked_run = []" "handoff leaked_run = []" "tasks leaked_run = []"
  by (simp_all add: leaked_run_def release_def hasLiveWaiter_def sample_run_def acquire_def
      acquire_next_def new_pool_def below_max_def size_of_def SINGLE_CONNECTION_POOL_def push_def
      drop_def give_def set_add_def set_del_def to_idle_def scheduleIdleTimer_def clearIdleTimer_def
      fail_call_def Let_def)

lemma leaked_run_reachable: "preach SINGLE_CONNECTION_POOL leaked_run"
  unfolding leaked_run_def Let_def
  by (rule preach.step[OF preach.step[OF preach.step[OF sample_run_reachable release_call]
        acquire_call] resumes])
    (simp_all add: release_def hasLiveWaiter_def sample_run_def acquire_def
      acquire_next_def new_pool_def below_max_def size_of_def SINGLE_CONNECTION_POOL_def push_def
      drop_def give_def set_add_def set_del_def to_idle_def scheduleIdleTimer_def clearIdleTimer_def
      fail_call_def Let_def, blast)

theorem starved_forever_witness:
  "preach SINGLE_CONNECTION_POOL leaked_run \<and> starved leaked_run \<and>
   gots (acquire None leaked_run) = gots leaked_run"
proof -
  have "starved leaked_run"
    by (simp add: starved_def leaked_run_fields SINGLE_CONNECTION_POOL_def)
  moreover have "pstep\<^sup>*\<^sup>* leaked_run (acquire None leaked_run)"
    by (intro r_into_rtranclp acquire_call)
  ultimately show ?thesis using starved_forever leaked_run_reachable by blast
qed

subsection \<open>The stranded call\<close>

text \<open>When the creation for a waiter fails, the call at the head of the queue is rejected and the
  freed slot is not offered to the next one: a run of the single-connection pool ends with a
  queued call, no connection, no work in progress and a free slot.\<close>

definition stranded_run :: "nat pool" where
  "stranded_run =
     (let s = destroy 7 (acquire None (acquire None sample_run));
          s = resume DestroyPump Done (drop DestroyPump s)
      in resume CreateForWaiter (Threw True) (drop CreateForWaiter s))"

lemmas run_simps = release_def hasLiveWaiter_def sample_run_def acquire_def acquire_next_def
  new_pool_def below_max_def size_of_def SINGLE_CONNECTION_POOL_def push_def drop_def give_def
  set_add_def set_del_def to_idle_def scheduleIdleTimer_def clearIdleTimer_def fail_call_def Let_def
  destroy_def safeDestroy_def pumpWaiters_def enqueue_def or_default_def shiftLiveWaiter_def settle_def

lemma stranded_waiter:
  "preach SINGLE_CONNECTION_POOL stranded_run \<and> waiters stranded_run = [2] \<and>
   tasks stranded_run = [] \<and> idle stranded_run = [] \<and> active stranded_run = [] \<and>
   below_max stranded_run"
proof (intro conjI)
  show "preach SINGLE_CONNECTION_POOL stranded_run"
    unfolding stranded_run_def Let_def
    by (rule preach.step[OF preach.step[OF preach.step[OF preach.step[OF preach.step[OF
      sample_run_reachable acquire_call] acquire_call] destroy_call] resumes] resumes])
      (simp_all add: run_simps, blast?)
qed (simp_all add: stranded_run_def run_simps)

end
