(* ===== verification/PoolLifecycle.thy ===== *)
theory PoolLifecycle
  imports PoolService
begin

text \<open>
  The connection lifecycle of the pooled engines (\<open>src/packages/drivers/poolLifecycle.ts\<close>).

  The helpers work on the interface \<open>PooledHost\<close>; it is the record \<open>pooled_host\<close> here, with the
  laws a host promises as the locale \<open>hosted\<close> and the engine's pool as its interpretation.  Each
  helper is cut at its awaits; a continuation resumes at any later moment, with the awaited call
  fulfilled or rejected.
\<close>

datatype engine_status = CLOSED | CONNECTING | READY

record 'p pooled_host =
  host_ensureMin :: "'p \<Rightarrow> 'p"
  host_drain :: "'p \<Rightarrow> 'p"
  host_draining :: "'p \<Rightarrow> bool"
  host_set_draining :: "bool \<Rightarrow> 'p \<Rightarrow> 'p"

datatype lifecycle_error = EngineRaised | ConnectionFailedError | DisconnectionFailedError

datatype lifecycle_event = ConnectEvent | ConnectionFailedEvent lifecycle_error | DisconnectEvent
  | ErrorEvent lifecycle_error

datatype lifecycle_result = Returned | Raised lifecycle_error

datatype cont =
    ConnectWarm nat
  | ConnectDrained nat
  | ConnectFailDrained nat lifecycle_error
  | DisconnectDrained nat

text \<open>What the awaited call settles to; \<open>Rejects True\<close> is an \<open>EngineError\<close>.\<close>

datatype settlement = Fulfils | Rejects bool

record 'p engine =
  hpool :: 'p
  status :: engine_status
  events :: "lifecycle_event list"
  conts :: "cont list"
  results :: "(nat \<times> lifecycle_result) list"

definition new_engine :: "'p \<Rightarrow> 'p engine" where
  "new_engine p = \<lparr>hpool = p, status = CLOSED, events = [], conts = [], results = []\<rparr>"

definition emit :: "lifecycle_event \<Rightarrow> 'p engine \<Rightarrow> 'p engine" where
  "emit e h = h\<lparr>events := events h @ [e]\<rparr>"

definition settle_call :: "nat \<Rightarrow> lifecycle_result \<Rightarrow> 'p engine \<Rightarrow> 'p engine" where
  "settle_call i res h = h\<lparr>results := results h @ [(i, res)]\<rparr>"

definition await_then :: "cont \<Rightarrow> 'p engine \<Rightarrow> 'p engine" where
  "await_then c h = h\<lparr>conts := conts h @ [c]\<rparr>"

definition drained :: "'p pooled_host \<Rightarrow> 'p engine \<Rightarrow> 'p engine" where
  "drained ho h = h\<lparr>hpool := host_drain ho (hpool h)\<rparr>"

definition createEnginePool :: "pool_options option \<Rightarrow> 'r pool" where
  "createEnginePool opt = new_pool (resolveOptions opt)"

definition poolStatsSnapshot :: "'r pool engine \<Rightarrow> pool_stats" where
  "poolStatsSnapshot h = stats (hpool h)"

definition poolConnect :: "'p pooled_host \<Rightarrow> nat \<Rightarrow> 'p engine \<Rightarrow> 'p engine" where
  "poolConnect ho i h =
     (if status h \<noteq> CLOSED then settle_call i Returned h
      else await_then (ConnectWarm i)
        (h\<lparr>status := CONNECTING, hpool := host_ensureMin ho (host_set_draining ho False (hpool h))\<rparr>))"

definition poolDisconnect :: "'p pooled_host \<Rightarrow> nat \<Rightarrow> 'p engine \<Rightarrow> 'p engine" where
  "poolDisconnect ho i h =
     (if status h = CLOSED then settle_call i Returned h
      else await_then (DisconnectDrained i) (drained ho h))"

text \<open>The continuations.  The errors of the drains in \<open>poolConnect\<close> are swallowed (\<open>catch\<close>).\<close>

fun wrap_error :: "lifecycle_error \<Rightarrow> bool \<Rightarrow> lifecycle_error" where
  "wrap_error e True = EngineRaised"
| "wrap_error e False = e"

fun continue_with :: "'p pooled_host \<Rightarrow> cont \<Rightarrow> settlement \<Rightarrow> 'p engine \<Rightarrow> 'p engine" where
  "continue_with ho (ConnectWarm i) Fulfils h =
     (if host_draining ho (hpool h) then await_then (ConnectDrained i) (drained ho h)
      else settle_call i Returned (emit ConnectEvent (h\<lparr>status := READY\<rparr>)))"
| "continue_with ho (ConnectWarm i) (Rejects engine) h =
     await_then (ConnectFailDrained i (wrap_error ConnectionFailedError engine)) (drained ho h)"
| "continue_with ho (ConnectDrained i) a h = settle_call i Returned (h\<lparr>status := CLOSED\<rparr>)"
| "continue_with ho (ConnectFailDrained i e) a h =
     settle_call i (Raised e) (emit (ConnectionFailedEvent e) (h\<lparr>status := CLOSED\<rparr>))"
| "continue_with ho (DisconnectDrained i) Fulfils h =
     settle_call i Returned (emit DisconnectEvent (h\<lparr>status := CLOSED\<rparr>))"
| "continue_with ho (DisconnectDrained i) (Rejects engine) h =
     (let e = wrap_error DisconnectionFailedError engine
      in settle_call i (Raised e) (emit (ErrorEvent e) h))"

text \<open>\<open>None\<close>: the answer is \<open>false\<close> without a pool call.\<close>

definition poolPing :: "'r pool engine \<Rightarrow> 'r pool engine option" where
  "poolPing h =
     (if status h = CLOSED then None else Some (h\<lparr>hpool := acquire None (hpool h)\<rparr>))"

subsection \<open>Steps\<close>

definition resume_cont :: "'p pooled_host \<Rightarrow> cont \<Rightarrow> settlement \<Rightarrow> 'p engine \<Rightarrow> 'p engine" where
  "resume_cont ho c a h = continue_with ho c a (h\<lparr>conts := remove1 c (conts h)\<rparr>)"

text \<open>\<open>work\<close> is what the pool does by itself and for its other callers.\<close>

inductive lstep :: "'p pooled_host \<Rightarrow> ('p \<Rightarrow> 'p \<Rightarrow> bool) \<Rightarrow> 'p engine \<Rightarrow> 'p engine \<Rightarrow> bool"
  for ho work where
  connect_called: "lstep ho work h (poolConnect ho i h)"
| disconnect_called: "lstep ho work h (poolDisconnect ho i h)"
| continues: "c \<in> set (conts h) \<Longrightarrow> lstep ho work h (resume_cont ho c a h)"
| pool_works: "work (hpool h) p \<Longrightarrow> lstep ho work h (h\<lparr>hpool := p\<rparr>)"

inductive lreach :: "'p pooled_host \<Rightarrow> ('p \<Rightarrow> 'p \<Rightarrow> bool) \<Rightarrow> 'p \<Rightarrow> 'p engine \<Rightarrow> bool"
  for ho work p where
  opened: "lreach ho work p (new_engine p)"
| stepped: "lreach ho work p h \<Longrightarrow> lstep ho work h h' \<Longrightarrow> lreach ho work p h'"

subsection \<open>What a host promises\<close>

text \<open>Draining is what \<open>drain\<close> starts and only the lifecycle ends.\<close>

locale hosted =
  fixes ho :: "'p pooled_host" and work :: "'p \<Rightarrow> 'p \<Rightarrow> bool"
  assumes drain_drains: "host_draining ho (host_drain ho p)"
    and set_draining: "host_draining ho (host_set_draining ho b p) = b"
    and ensureMin_draining: "host_draining ho (host_ensureMin ho p) = host_draining ho p"
    and work_draining: "work p q \<Longrightarrow> host_draining ho q = host_draining ho p"
begin

definition draining_cont :: "cont \<Rightarrow> bool" where
  "draining_cont c = (\<forall>i. c \<noteq> ConnectWarm i)"

definition disconnect_failed :: "'p engine \<Rightarrow> bool" where
  "disconnect_failed h = (\<exists>e. ErrorEvent e \<in> set (events h))"

definition linv :: "'p engine \<Rightarrow> bool" where
  "linv h \<longleftrightarrow> (status h = READY \<and> host_draining ho (hpool h) \<longrightarrow>
     (\<exists>c\<in>set (conts h). draining_cont c) \<or> disconnect_failed h)"

lemma continue_linv: "linv h \<Longrightarrow> c \<in> set (conts h) \<Longrightarrow> linv (resume_cont ho c a h)"
  by (cases c; cases a)
    (auto simp: linv_def resume_cont_def settle_call_def emit_def await_then_def drained_def
      draining_cont_def disconnect_failed_def Let_def)

lemma lstep_linv: "lstep ho work h h' \<Longrightarrow> linv h \<Longrightarrow> linv h'"
proof (induction rule: lstep.induct)
  case (disconnect_called h i)
  then show ?case
    by (auto simp: linv_def poolDisconnect_def settle_call_def await_then_def drained_def
        draining_cont_def disconnect_failed_def)
next
  case (continues c h a)
  then show ?case by (rule continue_linv[rotated])
qed (auto simp: linv_def poolConnect_def settle_call_def await_then_def work_draining
    draining_cont_def disconnect_failed_def)

lemma linv_new: "linv (new_engine p)"
  by (simp add: linv_def new_engine_def)

lemma lreach_linv: "lreach ho work p h \<Longrightarrow> linv h"
  by (induction rule: lreach.induct) (auto intro: lstep_linv linv_new)

lemma ready_serves:
  assumes "lreach ho work p h" and "status h = READY" and "conts h = []"
    and "\<And>e. ErrorEvent e \<notin> set (events h)"
  shows "\<not> host_draining ho (hpool h)"
  using lreach_linv[OF assms(1)] assms by (auto simp: linv_def disconnect_failed_def)

end

subsection \<open>The engine's pool as a host\<close>

definition pool_host :: "'r pool pooled_host" where
  "pool_host = \<lparr>host_ensureMin = ensureMin False, host_drain = drain, host_draining = draining,
     host_set_draining = (\<lambda>b s. s\<lparr>draining := b\<rparr>)\<rparr>"

text \<open>Everything the pool does but the calls of the lifecycle itself.\<close>

definition pool_work :: "'r pool \<Rightarrow> 'r pool \<Rightarrow> bool" where
  "pool_work s t \<longleftrightarrow> pstep s t \<and> draining t = draining s"

lemma draining_pieces [simp]:
  "draining (to_idle r s) = draining s" "draining (push t s) = draining s"
  "draining (safeDestroy r s) = draining s" "draining (clearIdleTimer r s) = draining s"
  "draining (fail_call i e s) = draining s" "draining (settle w ws s) = draining s"
  by (simp_all add: to_idle_def scheduleIdleTimer_def push_def safeDestroy_def clearIdleTimer_def
      fail_call_def settle_def)

lemma draining_loops [simp]:
  "draining (create_warm n b timer s) = draining s" "draining (reject_all ws s) = draining s"
  "draining (drain_next rs s) = draining s"
proof -
  show "draining (create_warm n b timer s) = draining s" by (induction n arbitrary: s) auto
  show "draining (reject_all ws s) = draining s" by (induction ws arbitrary: s) auto
  show "draining (drain_next rs s) = draining s" by (cases rs) auto
qed

interpretation eh: hosted pool_host pool_work
  by unfold_locales
    (auto simp: pool_host_def pool_work_def drain_def Let_def ensureMin_def)

text \<open>C17: an engine that is ready, with no connect or disconnect call in flight and no failed
  disconnect behind it, serves: its pool is not draining, so \<open>acquire\<close> is not refused.  The checks
  after the awaits of \<open>poolConnect\<close> are what makes this hold under interleaved calls.\<close>

theorem ready_engine_serves:
  assumes "lreach pool_host pool_work p h" and "status h = READY" and "conts h = []"
    and "\<And>e. ErrorEvent e \<notin> set (events h)"
  shows "\<not> draining (hpool h) \<and>
    outcomes (acquire tm (hpool h)) = outcomes (hpool h)"
proof -
  have "\<not> draining (hpool h)" using eh.ready_serves[OF assms] by (simp add: pool_host_def)
  then show ?thesis
    by (auto simp: acquire_def acquire_next_def enqueue_def push_def clearIdleTimer_def Let_def
        split: list.split)
qed


subsection \<open>A stale disconnect\<close>

text \<open>A connect is warming up two connections when a disconnect drains the pool; the connect sees
  the drain and closes, a second connect opens the engine again, and only then the first drain has
  destroyed its last connection.  The continuation of the disconnect closes the engine under the
  second connect: the status is \<open>CLOSED\<close> while the pool holds two live connections, and a further
  disconnect returns without draining them.\<close>

definition two_warm :: pool_options where
  "two_warm = \<lparr>opt_min = Some 2, opt_max = Some 2, opt_idleTimeoutSeconds = Some 0,
     opt_acquireTimeoutSeconds = None\<rparr>"

definition pool_resumes :: "nat task \<Rightarrow> nat answer \<Rightarrow> nat pool engine \<Rightarrow> nat pool engine" where
  "pool_resumes t a h = h\<lparr>hpool := resume t a (drop t (hpool h))\<rparr>"

definition stale_start :: "nat pool engine" where
  "stale_start =
     poolDisconnect pool_host 1 (pool_resumes (CreateWarm 0 False) (Created 1)
       (poolConnect pool_host 0 (new_engine (createEnginePool (Some two_warm)))))"

definition stale_reopened :: "nat pool engine" where
  "stale_reopened =
     poolConnect pool_host 2 (resume_cont pool_host (ConnectDrained 0) Fulfils
       (resume_cont pool_host (ConnectWarm 0) Fulfils
         (pool_resumes (CreateWarm 0 False) (Created 2) stale_start)))"

definition stale_run :: "nat pool engine" where
  "stale_run =
     resume_cont pool_host (DisconnectDrained 1) Fulfils (pool_resumes (DrainDestroy []) Done
       (resume_cont pool_host (ConnectWarm 2) Fulfils
         (pool_resumes (CreateWarm 1 False) (Created 4)
           (pool_resumes (CreateWarm 1 False) (Created 3) stale_reopened))))"

lemmas lifecycle_simps = poolConnect_def poolDisconnect_def resume_cont_def settle_call_def
  await_then_def drained_def pool_host_def emit_def new_engine_def createEnginePool_def
  pool_resumes_def two_warm_def or_default_def drain_def ensureMin_def run_simps

lemma stale_start_value:
  "hpool stale_start = (new_pool (resolveOptions (Some two_warm)))\<lparr>draining := True, destroyed := [1],
     tasks := [CreateWarm 0 False, DrainDestroy []], pending := 1, made := [1], nextBatch := 1\<rparr> \<and>
   status stale_start = CONNECTING \<and> conts stale_start = [ConnectWarm 0, DisconnectDrained 1]"
  by (simp add: stale_start_def lifecycle_simps numeral_2_eq_2)

lemma stale_reopened_value:
  "hpool stale_reopened = (new_pool (resolveOptions (Some two_warm)))\<lparr>destroyed := [1, 2],
     tasks := [DrainDestroy [], CreateWarm 1 False, CreateWarm 1 False], pending := 2, made := [2, 1],
     nextBatch := 2\<rparr> \<and>
   status stale_reopened = CONNECTING \<and> conts stale_reopened = [DisconnectDrained 1, ConnectWarm 2]"
  using stale_start_value
  by (simp add: stale_reopened_def lifecycle_simps numeral_2_eq_2)

lemma stale_run_value:
  "status stale_run = CLOSED \<and> conts stale_run = [] \<and> tasks (hpool stale_run) = [] \<and>
   idle (hpool stale_run) = [3, 4] \<and> \<not> draining (hpool stale_run)"
  using stale_reopened_value
  by (simp add: stale_run_def lifecycle_simps numeral_2_eq_2)

lemma lreach_pool:
  assumes "lreach pool_host pool_work p h" and "t \<in> set (tasks (hpool h))" and "answers (hpool h) t a"
    and "draining (resume t a (drop t (hpool h))) = draining (hpool h)"
  shows "lreach pool_host pool_work p (pool_resumes t a h)"
  unfolding pool_resumes_def
  by (rule stepped[OF assms(1) pool_works]) (use assms in \<open>auto simp: pool_work_def intro: resumes\<close>)

lemma lreach_cont:
  "lreach ho work p h \<Longrightarrow> c \<in> set (conts h) \<Longrightarrow> lreach ho work p (resume_cont ho c a h)"
  by (rule stepped[OF _ continues])

lemma stale_run_reachable: "lreach pool_host pool_work (createEnginePool (Some two_warm)) stale_run"
proof -
  let ?R = "lreach pool_host pool_work (createEnginePool (Some two_warm))"
  have "?R (pool_resumes (CreateWarm 0 False) (Created 1)
      (poolConnect pool_host 0 (new_engine (createEnginePool (Some two_warm)))))"
    by (rule lreach_pool[OF stepped[OF opened connect_called]])
      (simp_all add: lifecycle_simps numeral_2_eq_2)
  then have "?R stale_start" unfolding stale_start_def by (rule stepped[OF _ disconnect_called])
  then have "?R (pool_resumes (CreateWarm 0 False) (Created 2) stale_start)"
    by (rule lreach_pool) (use stale_start_value in \<open>simp_all add: lifecycle_simps numeral_2_eq_2\<close>)
  then have "?R (resume_cont pool_host (ConnectWarm 0) Fulfils
      (pool_resumes (CreateWarm 0 False) (Created 2) stale_start))"
    by (rule lreach_cont) (use stale_start_value in \<open>simp add: pool_resumes_def\<close>)
  then have "?R (resume_cont pool_host (ConnectDrained 0) Fulfils (resume_cont pool_host (ConnectWarm 0) Fulfils
      (pool_resumes (CreateWarm 0 False) (Created 2) stale_start)))"
    by (rule lreach_cont) (use stale_start_value in \<open>simp add: lifecycle_simps numeral_2_eq_2\<close>)
  then have "?R stale_reopened" unfolding stale_reopened_def by (rule stepped[OF _ connect_called])
  then have "?R (pool_resumes (CreateWarm 1 False) (Created 3) stale_reopened)"
    by (rule lreach_pool) (use stale_reopened_value in \<open>simp_all add: lifecycle_simps numeral_2_eq_2\<close>)
  then have "?R (pool_resumes (CreateWarm 1 False) (Created 4)
      (pool_resumes (CreateWarm 1 False) (Created 3) stale_reopened))"
    by (rule lreach_pool) (use stale_reopened_value in \<open>simp_all add: lifecycle_simps numeral_2_eq_2\<close>)
  then have "?R (resume_cont pool_host (ConnectWarm 2) Fulfils (pool_resumes (CreateWarm 1 False) (Created 4)
      (pool_resumes (CreateWarm 1 False) (Created 3) stale_reopened)))"
    by (rule lreach_cont) (use stale_reopened_value in \<open>simp add: pool_resumes_def\<close>)
  then have "?R (pool_resumes (DrainDestroy []) Done (resume_cont pool_host (ConnectWarm 2) Fulfils
      (pool_resumes (CreateWarm 1 False) (Created 4)
        (pool_resumes (CreateWarm 1 False) (Created 3) stale_reopened))))"
    by (rule lreach_pool) (use stale_reopened_value in \<open>simp_all add: lifecycle_simps numeral_2_eq_2\<close>)
  then show ?thesis
    unfolding stale_run_def
    by (rule lreach_cont) (use stale_reopened_value in \<open>simp add: lifecycle_simps numeral_2_eq_2\<close>)
qed

text \<open>C29: that run is a run of the engine, it ends closed and at rest with two live idle
  connections, and a further disconnect leaves the pool as it is.\<close>

theorem stale_disconnect_leaks:
  "lreach pool_host pool_work (createEnginePool (Some two_warm)) stale_run \<and> status stale_run = CLOSED \<and>
   conts stale_run = [] \<and> tasks (hpool stale_run) = [] \<and> idle (hpool stale_run) = [3, 4] \<and>
   hpool (poolDisconnect pool_host i stale_run) = hpool stale_run"
  using stale_run_reachable stale_run_value by (simp add: poolDisconnect_def settle_call_def)

definition ready_run :: "nat pool engine" where
  "ready_run = resume_cont pool_host (ConnectWarm 0) Fulfils
     (pool_resumes (CreateWarm 0 False) (Created 1)
       (poolConnect pool_host 0 (new_engine (createEnginePool None))))"

lemma ready_run_reachable: "lreach pool_host pool_work (createEnginePool None) ready_run"
  unfolding ready_run_def
  by (rule lreach_cont[OF lreach_pool[OF stepped[OF opened connect_called]]])
    (simp_all add: lifecycle_simps)

theorem ready_engine_serves_witness:
  "status ready_run = READY \<and> outcomes (acquire None (hpool ready_run)) = outcomes (hpool ready_run)"
proof -
  have "status ready_run = READY" "conts ready_run = []" "events ready_run = [ConnectEvent]"
    by (simp_all add: ready_run_def lifecycle_simps)
  then show ?thesis using ready_engine_serves[OF ready_run_reachable] by simp
qed


end
