(* ===== verification/UriText.thy ===== *)
theory UriText
  imports Prelude
begin

text \<open>
  JavaScript strings as lists of UTF-16 code units, and the parts of the standard library that the
  router uses on them: the code points of a string, \<open>split\<close>, \<open>indexOf\<close>, \<open>slice\<close> and
  \<open>decodeURIComponent\<close> (the percent and UTF-8 decoding of ECMA-262, \<open>None\<close> where it throws).
\<close>

type_synonym code_unit = "16 word"
type_synonym jstring = "code_unit list"

text \<open>ASCII literals.\<close>

definition js :: "string \<Rightarrow> jstring" where
  "js s = map (\<lambda>c. of_nat (of_char c)) s"

abbreviation slash :: code_unit where "slash \<equiv> 47"
abbreviation colon :: code_unit where "colon \<equiv> 58"
abbreviation dash :: code_unit where "dash \<equiv> 45"
abbreviation percent :: code_unit where "percent \<equiv> 37"

definition slice :: "nat \<Rightarrow> nat \<Rightarrow> 'a list \<Rightarrow> 'a list" where
  "slice a b xs = take (b - a) (drop a xs)"

text \<open>\<open>s.indexOf(c, pos)\<close>, the length of the string when there is none.\<close>

fun index_from :: "'a \<Rightarrow> 'a list \<Rightarrow> nat" where
  "index_from c [] = 0"
| "index_from c (x # xs) = (if x = c then 0 else Suc (index_from c xs))"

definition end_of_segment :: "jstring \<Rightarrow> nat \<Rightarrow> nat" where
  "end_of_segment url pos = pos + index_from slash (drop pos url)"

fun split_on :: "'a \<Rightarrow> 'a list \<Rightarrow> 'a list list" where
  "split_on c [] = [[]]"
| "split_on c (x # xs) =
     (if x = c then [] # split_on c xs
      else (case split_on c xs of [] \<Rightarrow> [[x]] | w # ws \<Rightarrow> (x # w) # ws))"

lemma split_plain: "c \<notin> set a \<Longrightarrow> split_on c a = [a]"
  by (induction a) auto

lemma split_first: "c \<notin> set a \<Longrightarrow> split_on c (a @ c # b) = a # split_on c b"
  by (induction a) (auto split: list.split)

definition starts_with :: "'a list \<Rightarrow> 'a list \<Rightarrow> bool" where
  "starts_with p s \<longleftrightarrow> take (length p) s = p"

definition ends_with :: "'a list \<Rightarrow> 'a list \<Rightarrow> bool" where
  "ends_with p s \<longleftrightarrow> length p \<le> length s \<and> drop (length s - length p) s = p"

text \<open>White space and line ends, which \<open>s.trim()\<close> cuts off at both ends.\<close>

definition js_space :: "code_unit \<Rightarrow> bool" where
  "js_space u \<longleftrightarrow> u \<in> set [9, 10, 11, 12, 13, 32, 160, 5760, 8192, 8193, 8194, 8195, 8196, 8197, 8198,
     8199, 8200, 8201, 8202, 8232, 8233, 8239, 8287, 12288, 65279]"

definition trim :: "jstring \<Rightarrow> jstring" where
  "trim s = rev (dropWhile js_space (rev (dropWhile js_space s)))"

subsection \<open>Code points\<close>

definition high_surrogate :: "code_unit \<Rightarrow> bool" where
  "high_surrogate u \<longleftrightarrow> 55296 \<le> u \<and> u \<le> 56319"

definition low_surrogate :: "code_unit \<Rightarrow> bool" where
  "low_surrogate u \<longleftrightarrow> 56320 \<le> u \<and> u \<le> 57343"

fun code_points :: "jstring \<Rightarrow> jstring list" where
  "code_points [] = []"
| "code_points [u] = [[u]]"
| "code_points (u # v # r) =
     (if high_surrogate u \<and> low_surrogate v then [u, v] # code_points r
      else [u] # code_points (v # r))"

lemma concat_code_points [simp]: "concat (code_points s) = s"
  by (induction s rule: code_points.induct) auto

text \<open>The UTF-16 form of a code point.\<close>

definition utf16 :: "nat \<Rightarrow> jstring" where
  "utf16 v = (if v < 65536 then [of_nat v]
     else [of_nat (55296 + (v - 65536) div 1024), of_nat (56320 + (v - 65536) mod 1024)])"

subsection \<open>Percent decoding\<close>

definition hex_value :: "code_unit \<Rightarrow> nat option" where
  "hex_value u =
     (if 48 \<le> u \<and> u \<le> 57 then Some (unat u - 48)
      else if 65 \<le> u \<and> u \<le> 70 then Some (unat u - 55)
      else if 97 \<le> u \<and> u \<le> 102 then Some (unat u - 87)
      else None)"

text \<open>One \<open>%XX\<close> and what follows it.\<close>

fun pct :: "jstring \<Rightarrow> (nat \<times> jstring) option" where
  "pct (p # a # b # rest) =
     (if p = percent then
        (case (hex_value a, hex_value b) of
           (Some x, Some y) \<Rightarrow> Some (16 * x + y, rest)
         | _ \<Rightarrow> None)
      else None)"
| "pct _ = None"

fun continuation_bytes :: "nat \<Rightarrow> jstring \<Rightarrow> (nat list \<times> jstring) option" where
  "continuation_bytes 0 r = Some ([], r)"
| "continuation_bytes (Suc n) r =
     (case pct r of
        None \<Rightarrow> None
      | Some (b, r') \<Rightarrow>
          if 128 \<le> b \<and> b < 192 then
            (case continuation_bytes n r' of
               None \<Rightarrow> None
             | Some (bs, r'') \<Rightarrow> Some (b # bs, r''))
          else None)"

text \<open>The number of continuation bytes a leading byte asks for, and the bits it carries.\<close>

definition lead_byte :: "nat \<Rightarrow> (nat \<times> nat) option" where
  "lead_byte b =
     (if 192 \<le> b \<and> b < 224 then Some (1, b - 192)
      else if 224 \<le> b \<and> b < 240 then Some (2, b - 224)
      else if 240 \<le> b \<and> b < 248 then Some (3, b - 240)
      else None)"

definition utf8_value :: "nat \<Rightarrow> nat list \<Rightarrow> nat" where
  "utf8_value v bs = foldl (\<lambda>acc b. acc * 64 + (b - 128)) v bs"

text \<open>Neither overlong, nor a surrogate, nor beyond Unicode.\<close>

definition utf8_valid :: "nat \<Rightarrow> nat \<Rightarrow> bool" where
  "utf8_valid n v \<longleftrightarrow>
     (if n = 1 then 128 \<le> v
      else if n = 2 then 2048 \<le> v \<and> \<not> (55296 \<le> v \<and> v \<le> 57343)
      else 65536 \<le> v \<and> v \<le> 1114111)"

lemma pct_length: "pct s = Some (b, r) \<Longrightarrow> length s = length r + 3"
  by (cases s rule: pct.cases) (auto split: if_splits option.splits)

lemma continuation_bytes_length:
  "continuation_bytes n s = Some (bs, r) \<Longrightarrow> length r \<le> length s"
  by (induction n arbitrary: s bs) (fastforce split: option.splits if_splits dest: pct_length)+

function decodeURIComponent :: "jstring \<Rightarrow> jstring option" where
  "decodeURIComponent [] = Some []"
| "decodeURIComponent (u # us) =
     (if u \<noteq> percent then map_option (\<lambda>d. u # d) (decodeURIComponent us)
      else
        (case pct (u # us) of
           None \<Rightarrow> None
         | Some (b, r) \<Rightarrow>
             if b < 128 then map_option (\<lambda>d. of_nat b # d) (decodeURIComponent r)
             else
               (case lead_byte b of
                  None \<Rightarrow> None
                | Some (n, v) \<Rightarrow>
                    (case continuation_bytes n r of
                       None \<Rightarrow> None
                     | Some (bs, r') \<Rightarrow>
                         if utf8_valid n (utf8_value v bs)
                         then map_option (\<lambda>d. utf16 (utf8_value v bs) @ d) (decodeURIComponent r')
                         else None))))"
  by pat_completeness auto
termination
  by (relation "measure length") (auto dest!: pct_length continuation_bytes_length)

subsection \<open>Decoding splits at a character that no escape contains\<close>

definition separator :: "code_unit \<Rightarrow> bool" where
  "separator c \<longleftrightarrow> c \<noteq> percent \<and> hex_value c = None"

lemma separator_dash [simp]: "separator dash"
  by (simp add: separator_def hex_value_def)

lemma pct_no_escape: "u \<noteq> percent \<Longrightarrow> pct (u # b) = None"
  by (cases "u # b" rule: pct.cases) auto

lemma pct_no_digit: "hex_value u = None \<Longrightarrow> pct (v # u # b) = None"
  by (cases "v # u # b" rule: pct.cases) (auto split: option.splits)

lemma pct_append:
  "separator c \<Longrightarrow> pct (a @ c # b) = (case pct a of None \<Rightarrow> None | Some (n, r) \<Rightarrow> Some (n, r @ c # b))"
  by (cases a rule: pct.cases) (auto simp: separator_def pct_no_escape pct_no_digit split: option.splits)

lemma continuation_bytes_append:
  "separator c \<Longrightarrow> continuation_bytes n (a @ c # b) =
     (case continuation_bytes n a of None \<Rightarrow> None | Some (bs, r) \<Rightarrow> Some (bs, r @ c # b))"
  by (induction n arbitrary: a) (auto simp: pct_append split: option.splits)

lemma decode_append:
  assumes "separator c"
  shows "decodeURIComponent (a @ c # b) =
    (case decodeURIComponent a of
       None \<Rightarrow> None
     | Some x \<Rightarrow> map_option (\<lambda>y. x @ c # y) (decodeURIComponent b))"
proof (induction a rule: decodeURIComponent.induct)
  case 1
  then show ?case using assms by (simp add: separator_def)
next
  case (2 u us)
  show ?case
  proof (cases "u = percent")
    case False
    then show ?thesis using 2(1) by (auto simp: option.map_comp comp_def split: option.splits)
  next
    case True
    show ?thesis
      using True 2(2,3) pct_append[OF assms, of "u # us" b] continuation_bytes_append[OF assms]
      by (auto simp: option.map_comp comp_def split: option.splits)
  qed
qed

text \<open>So a value that decodes keeps decoding when the part up to a separator is cut off.\<close>

lemma decode_suffix:
  assumes "separator c" and "decodeURIComponent (a @ c # b) \<noteq> None"
  shows "decodeURIComponent b \<noteq> None"
  using decode_append[OF assms(1), of a b] assms(2) by (auto split: option.splits)

subsection \<open>Decimal digits\<close>

definition unit_digit :: "code_unit \<Rightarrow> bool" where
  "unit_digit u \<longleftrightarrow> 48 \<le> u \<and> u \<le> 57"

definition units_val :: "nat \<Rightarrow> nat list \<Rightarrow> nat" where
  "units_val b ds = foldl (\<lambda>acc d. acc * b + d) 0 ds"

definition decimal_val :: "jstring \<Rightarrow> nat" where
  "decimal_val s = units_val 10 (map (\<lambda>u. unat u - 48) s)"

lemma unit_of_digit:
  assumes "is_digit c"
  shows "unit_digit (of_nat (of_char c))" "unat (of_nat (of_char c) :: code_unit) = of_char c"
proof -
  show u: "unat (of_nat (of_char c) :: code_unit) = of_char c"
    using assms by (simp add: is_digit_def unat_of_nat take_bit_nat_eq_self)
  show "unit_digit (of_nat (of_char c))"
    using assms u by (simp add: unit_digit_def is_digit_def word_le_nat_alt)
qed

lemma decimal_val_js: "list_all is_digit s \<Longrightarrow> decimal_val (js s) = digits_val 10 s"
proof -
  assume "list_all is_digit s"
  then have "map (\<lambda>u. unat u - 48) (js s) = map digit_val s"
    by (induction s) (auto simp: js_def digit_val_def unit_of_digit(2))
  then show ?thesis by (simp add: decimal_val_def units_val_def digits_val_def foldl_map)
qed

lemma units_of_digits: "list_all is_digit s \<Longrightarrow> list_all unit_digit (js s)"
  by (auto simp: js_def list_all_iff unit_of_digit(1))

lemma radix_value: "decimal_val (js (radix_string 10 n)) = n"
  using decimal_val_js[of "radix_string 10 n"] decimal_roundtrip[of n] by (simp add: all_digits_def)

end
