(* ===== verification/Router.thy ===== *)
theory Router
  imports UriText
begin

text \<open>
  The HTTP router of the package \<open>radrouter\<close> (\<open>src/packages/radrouter/RadRouter.ts\<close>): path
  normalisation and parsing, the compressed radix trie with its insertion, lookup with
  backtracking, and maintenance.

  A tree of mutable nodes becomes a value: an operation that walks to a node and changes it
  rebuilds the nodes on the way, by a recursion whose continuation acts where the walk goes on.
  The Unicode table behind \<open>toLowerCase\<close> is a parameter, \<open>lower\<close>.
\<close>

subsection \<open>Methods, versions, handlers\<close>

datatype http_method = GET | POST | PUT | DELETE | PATCH | HEAD | OPTIONS | TRACE | CONNECT

definition ALL_HTTP_METHODS :: "http_method list" where
  "ALL_HTTP_METHODS = [GET, POST, PUT, DELETE, PATCH, HEAD, OPTIONS, TRACE, CONNECT]"

text \<open>The declaration order of the methods as their linear order.\<close>

fun method_rank :: "http_method \<Rightarrow> nat" where
  "method_rank GET = 0" | "method_rank POST = 1" | "method_rank PUT = 2" | "method_rank DELETE = 3"
| "method_rank PATCH = 4" | "method_rank HEAD = 5" | "method_rank OPTIONS = 6"
| "method_rank TRACE = 7" | "method_rank CONNECT = 8"

lemma method_rank_inj: "method_rank a = method_rank b \<longleftrightarrow> a = b"
  by (cases a; cases b) auto

instantiation http_method :: linorder
begin

definition less_eq_http_method :: "http_method \<Rightarrow> http_method \<Rightarrow> bool" where
  "less_eq_http_method a b \<longleftrightarrow> method_rank a \<le> method_rank b"

definition less_http_method :: "http_method \<Rightarrow> http_method \<Rightarrow> bool" where
  "less_http_method a b \<longleftrightarrow> method_rank a < method_rank b"

instance
  by standard (auto simp: less_eq_http_method_def less_http_method_def method_rank_inj)

end

text \<open>The key \<open>method:version\<close>, or the method alone for no (or an empty) version; a method name has
  no colon, so the pair determines the string.\<close>

type_synonym handler_key = "http_method \<times> jstring option"

record 'm route_handler =
  middlewares :: "'m list"
  rh_method :: http_method
  rh_version :: "jstring option"

type_synonym 'm handlers = "(handler_key \<times> 'm route_handler) list"

definition handler_key :: "http_method \<Rightarrow> jstring option \<Rightarrow> handler_key" where
  "handler_key m v = (m, if v = Some [] then None else v)"

datatype node_kind = StaticKind | ParamKind | ParamWithSuffixKind | GreedySuffixKind | GreedyPrefixKind

datatype chunk =
    Static jstring
  | Param jstring
  | ParamWithSuffix jstring jstring
  | GreedySuffix jstring
  | GreedyPrefix jstring

datatype 'm route_node = RouteNode
  (kind: node_kind)
  (label: jstring)
  (paramName: "jstring option")
  (suffix: "jstring option")
  (staticChildren: "(code_unit \<times> 'm route_node) list")
  (paramChild: "'m route_node option")
  (paramSuffixChildren: "'m route_node list")
  (greedyChild: "'m route_node option")
  (handlers: "'m handlers")

definition new_node :: "node_kind \<Rightarrow> jstring \<Rightarrow> jstring option \<Rightarrow> jstring option \<Rightarrow> 'm route_node" where
  "new_node k l pn sf = RouteNode k l pn sf [] None [] None []"

definition addHandler :: "http_method \<Rightarrow> 'm list \<Rightarrow> jstring option \<Rightarrow> 'm handlers \<Rightarrow> 'm handlers" where
  "addHandler m mws v hs =
     AList.update (handler_key m v) \<lparr>middlewares = mws, rh_method = m, rh_version = v\<rparr> hs"

definition getHandler :: "http_method \<Rightarrow> jstring option \<Rightarrow> 'm handlers \<Rightarrow> 'm route_handler option" where
  "getHandler m v hs = map_of hs (handler_key m v)"

record 'm rad_router =
  root :: "'m route_node"
  globalMiddlewares :: "'m list"
  defaultVersion :: "jstring option"
  caseSensitive :: bool
  ignoreTrailingSlash :: bool

record router_options =
  ro_defaultVersion :: "jstring option"
  ro_caseSensitive :: "bool option"
  ro_ignoreTrailingSlash :: "bool option"

definition new_router :: "router_options \<Rightarrow> 'm rad_router" where
  "new_router opt = \<lparr>root = new_node StaticKind [] None None, globalMiddlewares = [],
     defaultVersion = ro_defaultVersion opt,
     caseSensitive = (case ro_caseSensitive opt of None \<Rightarrow> True | Some b \<Rightarrow> b),
     ignoreTrailingSlash = (case ro_ignoreTrailingSlash opt of None \<Rightarrow> True | Some b \<Rightarrow> b)\<rparr>"

definition use :: "'m \<Rightarrow> 'm rad_router \<Rightarrow> 'm rad_router" where
  "use mw r = r\<lparr>globalMiddlewares := globalMiddlewares r @ [mw]\<rparr>"

subsection \<open>Normalisation\<close>

definition fold_point :: "(jstring \<Rightarrow> jstring) \<Rightarrow> jstring \<Rightarrow> jstring" where
  "fold_point lower cp = (let l = lower cp in if l \<noteq> cp \<and> length l = length cp then l else cp)"

definition foldCase :: "(jstring \<Rightarrow> jstring) \<Rightarrow> jstring \<Rightarrow> jstring" where
  "foldCase lower s = concat (map (fold_point lower) (code_points s))"

definition ident_start :: "code_unit \<Rightarrow> bool" where
  "ident_start u \<longleftrightarrow> (65 \<le> u \<and> u \<le> 90) \<or> (97 \<le> u \<and> u \<le> 122) \<or> u = 95"

definition word_unit :: "code_unit \<Rightarrow> bool" where
  "word_unit u \<longleftrightarrow> ident_start u \<or> (48 \<le> u \<and> u \<le> 57)"

text \<open>\<open>PARAM_NAME_PATTERN\<close> on a whole string, and a match of \<open>PARAM_TOKEN_PATTERN\<close> at the head of
  one with what follows it.\<close>

fun valid_param_name :: "jstring \<Rightarrow> bool" where
  "valid_param_name [] = False"
| "valid_param_name (u # us) = (ident_start u \<and> list_all word_unit us)"

fun param_token :: "jstring \<Rightarrow> (jstring \<times> jstring) option" where
  "param_token (p # u # us) =
     (if p = colon \<and> ident_start u then
        (case dropWhile word_unit us of
           q # rest \<Rightarrow>
             if q = colon then Some (p # u # takeWhile word_unit us @ [q], rest) else None
         | [] \<Rightarrow> None)
      else None)"
| "param_token _ = None"

lemma param_token_length: "param_token s = Some (t, r) \<Longrightarrow> length r < length s"
proof (cases s rule: param_token.cases)
  case (1 p u us)
  assume "param_token s = Some (t, r)"
  then have "length r < length (dropWhile word_unit us)"
    using 1 by (auto split: if_splits list.splits)
  also have "\<dots> \<le> length us" by (rule length_dropWhile_le)
  finally show ?thesis using 1 by simp
qed simp_all

text \<open>The folding of the text between the tokens; \<open>buf\<close> is the text since the last one.\<close>

function fold_static :: "(jstring \<Rightarrow> jstring) \<Rightarrow> jstring \<Rightarrow> jstring \<Rightarrow> jstring" where
  "fold_static lower buf [] = foldCase lower buf"
| "fold_static lower buf (u # us) =
     (case param_token (u # us) of
        Some (t, r) \<Rightarrow> foldCase lower buf @ t @ fold_static lower [] r
      | None \<Rightarrow> fold_static lower (buf @ [u]) us)"
  by pat_completeness auto
termination
  by (relation "measure (\<lambda>(lower, buf, s). length s)") (auto dest: param_token_length)

fun merge_slashes :: "jstring \<Rightarrow> jstring" where
  "merge_slashes (u # v # r) =
     (if u = slash \<and> v = slash then merge_slashes (v # r) else u # merge_slashes (v # r))"
| "merge_slashes s = s"

definition lead_slash :: "jstring \<Rightarrow> jstring" where
  "lead_slash s = (if starts_with [slash] s then s else slash # s)"

definition drop_trailing_slash :: "bool \<Rightarrow> jstring \<Rightarrow> jstring" where
  "drop_trailing_slash ignore s =
     (if ignore \<and> length s > 1 \<and> ends_with [slash] s then butlast s else s)"

definition normalizePath :: "(jstring \<Rightarrow> jstring) \<Rightarrow> 'm rad_router \<Rightarrow> jstring \<Rightarrow> bool \<Rightarrow> jstring" where
  "normalizePath lower r path mergeSlashes =
     (if path = [] then []
      else
        let folded =
              (if caseSensitive r then path
               else if colon \<in> set path then fold_static lower [] path
               else foldCase lower path);
            merged = (if mergeSlashes then merge_slashes folded else folded)
        in drop_trailing_slash (ignoreTrailingSlash r) (lead_slash merged))"

definition normalizeForLookup ::
  "(jstring \<Rightarrow> jstring) \<Rightarrow> 'm rad_router \<Rightarrow> jstring \<Rightarrow> (jstring \<times> jstring) option" where
  "normalizeForLookup lower r path =
     (if path = [] then None
      else
        let orig = drop_trailing_slash (ignoreTrailingSlash r) (lead_slash path)
        in Some (if caseSensitive r then orig else foldCase lower orig, orig))"

subsection \<open>Parsing\<close>

datatype router_error =
    MalformedPath jstring
  | RouteConflict jstring jstring
  | DuplicateRoute http_method "jstring option"

definition validate_name :: "jstring \<Rightarrow> jstring \<Rightarrow> chunk \<Rightarrow> router_error + chunk" where
  "validate_name name seg c = (if valid_param_name name then Inr c else Inl (MalformedPath seg))"

definition parse_segment :: "jstring \<Rightarrow> router_error + chunk" where
  "parse_segment seg =
     (if starts_with (js ''*-:'') seg \<and> ends_with [colon] seg then
        let name = slice 3 (length seg - 1) seg in validate_name name seg (GreedyPrefix name)
      else if starts_with [colon] seg \<and> ends_with (js '':-*'') seg then
        let name = slice 1 (length seg - 3) seg in validate_name name seg (GreedySuffix name)
      else if starts_with [colon] seg \<and> ends_with [colon] seg then
        let name = slice 1 (length seg - 1) seg in validate_name name seg (Param name)
      else if starts_with [colon] seg then
        let second = Suc (index_from colon (drop 1 seg))
        in if second < length seg - 1 then
             let name = slice 1 second seg; sf = drop (Suc second) seg
             in validate_name name seg (ParamWithSuffix name sf)
           else Inl (MalformedPath seg)
      else Inl (MalformedPath seg))"

fun is_greedy_suffix :: "chunk \<Rightarrow> bool" where
  "is_greedy_suffix (GreedySuffix n) = True"
| "is_greedy_suffix c = False"

text \<open>The loop over the segments, with the static buffer and the greedy segment seen, if any.\<close>

fun parse_segments :: "jstring list \<Rightarrow> jstring \<Rightarrow> jstring option \<Rightarrow> router_error + chunk list" where
  "parse_segments [] buf greedy = Inr (if buf = [] then [] else [Static buf])"
| "parse_segments (seg # segs) buf greedy =
     (case greedy of
        Some g \<Rightarrow> Inl (MalformedPath g)
      | None \<Rightarrow>
          if colon \<notin> set seg then parse_segments segs (buf @ slash # seg) None
          else
            (case parse_segment seg of
               Inl e \<Rightarrow> Inl e
             | Inr c \<Rightarrow>
                 (case parse_segments segs [] (if is_greedy_suffix c then Some seg else None) of
                    Inl e \<Rightarrow> Inl e
                  | Inr cs \<Rightarrow> Inr (Static (buf @ [slash]) # c # cs))))"

definition parsePath :: "jstring \<Rightarrow> router_error + chunk list" where
  "parsePath path =
     (if path = [] then Inl (MalformedPath [])
      else if path = [slash] then Inr [Static [slash]]
      else parse_segments (split_on slash (drop 1 path)) [] None)"

subsection \<open>Insertion\<close>

fun common_prefix :: "'a list \<Rightarrow> 'a list \<Rightarrow> nat" where
  "common_prefix (x # xs) (y # ys) = (if x = y then Suc (common_prefix xs ys) else 0)"
| "common_prefix _ _ = 0"

lemma common_prefix_le: "common_prefix xs ys \<le> length xs" "common_prefix xs ys \<le> length ys"
  by (induction xs ys rule: common_prefix.induct) auto

text \<open>What the rest of the walk does to the node it has reached, and whether it threw.\<close>

type_synonym 'm walk = "'m route_node \<Rightarrow> 'm route_node \<times> router_error option"

definition with_static :: "code_unit \<Rightarrow> 'm route_node \<times> router_error option \<Rightarrow> 'm walk" where
  "with_static u res n =
     (RouteNode (kind n) (label n) (paramName n) (suffix n)
        (AList.update u (fst res) (staticChildren n)) (paramChild n) (paramSuffixChildren n)
        (greedyChild n) (handlers n), snd res)"

text \<open>The node \<open>child\<close> split after \<open>common\<close> characters: the upper part, and the tail that keeps
  every collection of the child.\<close>

definition split_tail :: "nat \<Rightarrow> 'm route_node \<Rightarrow> 'm route_node" where
  "split_tail common child =
     RouteNode StaticKind (drop common (label child)) None None (staticChildren child)
       (paramChild child) (paramSuffixChildren child) (greedyChild child) (handlers child)"

definition split_head :: "nat \<Rightarrow> 'm route_node \<Rightarrow> 'm route_node" where
  "split_head common child =
     RouteNode (kind child) (take common (label child)) (paramName child) (suffix child)
       [(hd (drop common (label child)), split_tail common child)] None [] None []"

text \<open>The loop of \<open>__insertStatic\<close>, with the walk \<open>k\<close> that goes on from the node it ends in.\<close>

function insertStatic :: "'m route_node \<Rightarrow> jstring \<Rightarrow> 'm walk \<Rightarrow> 'm route_node \<times> router_error option" where
  "insertStatic n [] k = k n"
| "insertStatic n (u # us) k =
     (case map_of (staticChildren n) u of
        None \<Rightarrow> with_static u (k (new_node StaticKind (u # us) None None)) n
      | Some child \<Rightarrow>
          let common = common_prefix (label child) (u # us)
          in if common = length (label child) then
               (if common = length (u # us) then with_static u (k child) n
                else if common = 0 then (n, None)
                else with_static u (insertStatic child (drop common (u # us)) k) n)
             else if common = length (u # us) then with_static u (k (split_head common child)) n
             else
               (let rest = drop common (u # us)
                in with_static u
                     (with_static (hd rest) (k (new_node StaticKind rest None None))
                        (split_head common child)) n))"
  by pat_completeness auto
termination
  by (relation "measure (\<lambda>(n, l, k). length l)") auto

definition with_param :: "'m route_node \<times> router_error option \<Rightarrow> 'm walk" where
  "with_param res n =
     (RouteNode (kind n) (label n) (paramName n) (suffix n) (staticChildren n) (Some (fst res))
        (paramSuffixChildren n) (greedyChild n) (handlers n), snd res)"

definition with_suffixes :: "'m route_node list \<Rightarrow> 'm route_node \<Rightarrow> 'm route_node" where
  "with_suffixes scs n =
     RouteNode (kind n) (label n) (paramName n) (suffix n) (staticChildren n) (paramChild n)
       scs (greedyChild n) (handlers n)"

definition with_greedy :: "'m route_node \<times> router_error option \<Rightarrow> 'm walk" where
  "with_greedy res n =
     (RouteNode (kind n) (label n) (paramName n) (suffix n) (staticChildren n) (paramChild n)
        (paramSuffixChildren n) (Some (fst res)) (handlers n), snd res)"

definition with_handlers :: "'m handlers \<Rightarrow> 'm route_node \<Rightarrow> 'm route_node" where
  "with_handlers hs n =
     RouteNode (kind n) (label n) (paramName n) (suffix n) (staticChildren n) (paramChild n)
       (paramSuffixChildren n) (greedyChild n) hs"

definition suffix_of :: "'m route_node \<Rightarrow> jstring" where
  "suffix_of n = (case suffix n of None \<Rightarrow> [] | Some s \<Rightarrow> s)"

text \<open>A stable sort by descending suffix length; the child found by its suffix is changed in place.\<close>

definition sort_suffixes :: "'m route_node list \<Rightarrow> 'm route_node list" where
  "sort_suffixes scs = sort_key (\<lambda>n. - int (length (suffix_of n))) scs"

fun update_first :: "('a \<Rightarrow> bool) \<Rightarrow> 'a \<Rightarrow> 'a list \<Rightarrow> 'a list" where
  "update_first P y [] = []"
| "update_first P y (x # xs) = (if P x then y # xs else x # update_first P y xs)"

definition greedy_kind :: "chunk \<Rightarrow> node_kind" where
  "greedy_kind c = (if is_greedy_suffix c then GreedySuffixKind else GreedyPrefixKind)"

definition insertGreedy ::
  "node_kind \<Rightarrow> jstring \<Rightarrow> jstring \<Rightarrow> 'm walk \<Rightarrow> 'm route_node \<Rightarrow> 'm route_node \<times> router_error option" where
  "insertGreedy wantKind name path k n =
     (case greedyChild n of
        None \<Rightarrow> with_greedy (k (new_node wantKind [] (Some name) None)) n
      | Some c \<Rightarrow>
          if kind c \<noteq> wantKind \<or> paramName c \<noteq> Some name then (n, Some (RouteConflict path name))
          else with_greedy (k c) n)"

text \<open>The walk of \<open>addRoute\<close> over the chunks; \<open>path\<close> is the one the caller gave.\<close>

fun insertChunks ::
  "http_method \<Rightarrow> jstring \<Rightarrow> 'm list \<Rightarrow> jstring option \<Rightarrow> chunk list \<Rightarrow> 'm route_node \<Rightarrow>
   'm route_node \<times> router_error option" where
  "insertChunks m path mws v [] n =
     (if map_of (handlers n) (handler_key m v) \<noteq> None then (n, Some (DuplicateRoute m v))
      else (with_handlers (addHandler m mws v (handlers n)) n, None))"
| "insertChunks m path mws v (Static l # cs) n = insertStatic n l (insertChunks m path mws v cs)"
| "insertChunks m path mws v (Param name # cs) n =
     (case paramChild n of
        None \<Rightarrow> with_param (insertChunks m path mws v cs (new_node ParamKind [] (Some name) None)) n
      | Some c \<Rightarrow>
          if paramName c \<noteq> Some name then (n, Some (RouteConflict path name))
          else with_param (insertChunks m path mws v cs c) n)"
| "insertChunks m path mws v (ParamWithSuffix name sf # cs) n =
     (case find (\<lambda>c. suffix c = Some sf) (paramSuffixChildren n) of
        Some c \<Rightarrow>
          if paramName c \<noteq> Some name then (n, Some (RouteConflict path name))
          else
            (let res = insertChunks m path mws v cs c
             in (with_suffixes (update_first (\<lambda>c. suffix c = Some sf) (fst res) (paramSuffixChildren n)) n,
                 snd res))
      | None \<Rightarrow>
          let res = insertChunks m path mws v cs (new_node ParamWithSuffixKind [] (Some name) (Some sf))
          in (with_suffixes (sort_suffixes (paramSuffixChildren n @ [fst res])) n, snd res))"
| "insertChunks m path mws v (GreedySuffix name # cs) n =
     insertGreedy GreedySuffixKind name path (insertChunks m path mws v cs) n"
| "insertChunks m path mws v (GreedyPrefix name # cs) n =
     insertGreedy GreedyPrefixKind name path (insertChunks m path mws v cs) n"

definition addRoute ::
  "(jstring \<Rightarrow> jstring) \<Rightarrow> http_method \<Rightarrow> jstring \<Rightarrow> 'm list \<Rightarrow> jstring option \<Rightarrow> 'm rad_router \<Rightarrow>
   'm rad_router \<times> router_error option" where
  "addRoute lower m path mws v r =
     (case parsePath (normalizePath lower r path True) of
        Inl e \<Rightarrow> (r, Some e)
      | Inr cs \<Rightarrow>
          let res = insertChunks m path mws v cs (root r) in (r\<lparr>root := fst res\<rparr>, snd res))"

text \<open>The shorthands.\<close>

definition route_get where "route_get lower path mws v r = addRoute lower GET path mws v r"
definition route_post where "route_post lower path mws v r = addRoute lower POST path mws v r"
definition route_put where "route_put lower path mws v r = addRoute lower PUT path mws v r"
definition route_delete where "route_delete lower path mws v r = addRoute lower DELETE path mws v r"
definition route_patch where "route_patch lower path mws v r = addRoute lower PATCH path mws v r"
definition route_head where "route_head lower path mws v r = addRoute lower HEAD path mws v r"
definition route_options where "route_options lower path mws v r = addRoute lower OPTIONS path mws v r"

subsection \<open>Lookup\<close>

text \<open>The arguments that \<open>__search\<close> hands down unchanged.\<close>

record query =
  q_url :: jstring
  q_orig :: jstring
  q_method :: http_method
  q_version :: "jstring option"
  q_default :: "jstring option"

type_synonym route_params = "jstring \<rightharpoonup> jstring"

definition resolveHandler :: "query \<Rightarrow> 'm handlers \<Rightarrow> 'm route_handler option" where
  "resolveHandler q hs =
     (case (case q_version q of None \<Rightarrow> None | Some v \<Rightarrow> getHandler (q_method q) (Some v) hs) of
        Some h \<Rightarrow> Some h
      | None \<Rightarrow>
          (case (case q_default q of
                   None \<Rightarrow> None
                 | Some d \<Rightarrow> if q_version q \<noteq> Some d then getHandler (q_method q) (Some d) hs else None) of
             Some h \<Rightarrow> Some h
           | None \<Rightarrow> getHandler (q_method q) None hs))"

text \<open>A failed branch puts the parameter back (deleting it when it was unset).\<close>

fun restore :: "route_params \<Rightarrow> jstring \<Rightarrow> 'm route_handler option \<times> route_params \<Rightarrow>
    'm route_handler option \<times> route_params" where
  "restore params name (Some h, ps) = (Some h, ps)"
| "restore params name (None, ps) = (None, ps(name := params name))"

definition capture :: "query \<Rightarrow> nat \<Rightarrow> nat \<Rightarrow> jstring option" where
  "capture q a b = decodeURIComponent (slice a b (q_orig q))"

definition label_at :: "query \<Rightarrow> nat \<Rightarrow> jstring \<Rightarrow> bool" where
  "label_at q pos l \<longleftrightarrow> starts_with l (drop pos (q_url q))"

function (sequential)
    search :: "query \<Rightarrow> 'm route_node \<Rightarrow> nat \<Rightarrow> route_params \<Rightarrow> 'm route_handler option \<times> route_params"
  and try_static :: "query \<Rightarrow> (code_unit \<times> 'm route_node) list \<Rightarrow> nat \<Rightarrow> route_params \<Rightarrow>
    'm route_handler option \<times> route_params"
  and try_suffixes :: "query \<Rightarrow> 'm route_node list \<Rightarrow> nat \<Rightarrow> route_params \<Rightarrow>
    'm route_handler option \<times> route_params"
  and try_param :: "query \<Rightarrow> 'm route_node option \<Rightarrow> nat \<Rightarrow> route_params \<Rightarrow>
    'm route_handler option \<times> route_params"
  and try_greedy :: "query \<Rightarrow> 'm route_node option \<Rightarrow> nat \<Rightarrow> route_params \<Rightarrow>
    'm route_handler option \<times> route_params"
  and greedy_gaps :: "query \<Rightarrow> 'm route_node \<Rightarrow> jstring \<Rightarrow> nat \<Rightarrow> nat \<Rightarrow> nat option \<Rightarrow> nat \<Rightarrow> route_params \<Rightarrow>
    'm route_handler option \<times> route_params" where
  "search q (RouteNode k l pn sf sc pc scs gc hs) pos params =
     (if pos \<ge> length (q_url q) then (resolveHandler q hs, params)
      else
        (case try_static q sc pos params of
           (Some h, ps) \<Rightarrow> (Some h, ps)
         | (None, ps) \<Rightarrow>
             (case try_suffixes q scs pos ps of
                (Some h, ps) \<Rightarrow> (Some h, ps)
              | (None, ps) \<Rightarrow>
                  (case try_param q pc pos ps of
                     (Some h, ps) \<Rightarrow> (Some h, ps)
                   | (None, ps) \<Rightarrow> try_greedy q gc pos ps))))"
| "try_static q [] pos params = (None, params)"
| "try_static q ((u, child) # rest) pos params =
     (if u = q_url q ! pos then
        (if label_at q pos (label child) then search q child (pos + length (label child)) params
         else (None, params))
      else try_static q rest pos params)"
| "try_suffixes q [] pos params = (None, params)"
| "try_suffixes q (c # rest) pos params =
     (let segEnd = end_of_segment (q_url q) pos; sf = suffix_of c; valueEnd = segEnd - length sf
      in if pos + length sf < segEnd \<and> label_at q valueEnd sf then
           (case capture q pos valueEnd of
              None \<Rightarrow> try_suffixes q rest pos params
            | Some value \<Rightarrow>
                (case restore params (the (paramName c))
                        (search q c segEnd (params(the (paramName c) \<mapsto> value))) of
                   (Some h, ps) \<Rightarrow> (Some h, ps)
                 | (None, ps) \<Rightarrow> try_suffixes q rest pos ps))
         else try_suffixes q rest pos params)"
| "try_param q None pos params = (None, params)"
| "try_param q (Some c) pos params =
     (case paramName c of
        None \<Rightarrow> (None, params)
      | Some name \<Rightarrow>
          let e = end_of_segment (q_url q) pos
          in if e > pos then
               (case capture q pos e of
                  None \<Rightarrow> (None, params)
                | Some value \<Rightarrow> restore params name (search q c e (params(name \<mapsto> value))))
             else (None, params))"
| "try_greedy q None pos params = (None, params)"
| "try_greedy q (Some g) pos params =
     (case paramName g of
        None \<Rightarrow> (None, params)
      | Some name \<Rightarrow>
          if kind g = GreedySuffixKind then
            (if pos < length (q_orig q) then
               (case capture q pos (length (q_orig q)) of
                  None \<Rightarrow> (None, params)
                | Some value \<Rightarrow>
                    restore params name (resolveHandler q (handlers g), params(name \<mapsto> value)))
             else (None, params))
          else if kind g = GreedyPrefixKind then
            (if dash \<in> set (drop pos (q_url q)) then
               greedy_gaps q g name (length (q_url q)) (length (q_url q)) None pos params
             else (None, params))
          else (None, params))"
| "greedy_gaps q g name 0 nextSlash lastEnd pos params = (None, params)"
| "greedy_gaps q g name (Suc i) nextSlash lastEnd pos params =
     (if i < pos then (None, params)
      else if q_url q ! i = slash then greedy_gaps q g name i i lastEnd pos params
      else if q_url q ! i \<noteq> dash then greedy_gaps q g name i nextSlash lastEnd pos params
      else if lastEnd = Some nextSlash then greedy_gaps q g name i nextSlash lastEnd pos params
      else if nextSlash \<le> i + 1 then greedy_gaps q g name i nextSlash lastEnd pos params
      else
        (case capture q (i + 1) nextSlash of
           None \<Rightarrow> greedy_gaps q g name i nextSlash (Some nextSlash) pos params
         | Some value \<Rightarrow>
             (case restore params name (search q g nextSlash (params(name \<mapsto> value))) of
                (Some h, ps) \<Rightarrow> (Some h, ps)
              | (None, ps) \<Rightarrow> greedy_gaps q g name i nextSlash (Some nextSlash) pos ps)))"
  by pat_completeness auto
termination
  by (relation "measures [
      \<lambda>x. case x of
          Inl (Inl (q, n, _)) \<Rightarrow> size n
        | Inl (Inr (Inl (q, sc, _))) \<Rightarrow> size_list (size_prod (\<lambda>_. 0) size) sc
        | Inl (Inr (Inr (q, scs, _))) \<Rightarrow> size_list size scs
        | Inr (Inl (q, pc, _)) \<Rightarrow> size_option size pc
        | Inr (Inr (Inl (q, gc, _))) \<Rightarrow> size_option size gc
        | Inr (Inr (Inr (q, g, _))) \<Rightarrow> size g,
      \<lambda>x. case x of
          Inr (Inr (Inr (q, g, name, j, _))) \<Rightarrow> Suc j
        | _ \<Rightarrow> 0]")
    simp_all

record 'm route_match =
  rm_middlewares :: "'m list"
  rm_params :: route_params

definition query_for :: "'m rad_router \<Rightarrow> jstring \<times> jstring \<Rightarrow> http_method \<Rightarrow> jstring option \<Rightarrow> query" where
  "query_for r normalized m v = \<lparr>q_url = fst normalized, q_orig = snd normalized, q_method = m,
     q_version = v, q_default = defaultVersion r\<rparr>"

definition find_route ::
  "(jstring \<Rightarrow> jstring) \<Rightarrow> http_method \<Rightarrow> jstring \<Rightarrow> jstring option \<Rightarrow> 'm rad_router \<Rightarrow>
   'm route_match option" where
  "find_route lower m path v r =
     (case normalizeForLookup lower r path of
        None \<Rightarrow> None
      | Some normalized \<Rightarrow>
          (case search (query_for r normalized m v) (root r) 0 Map.empty of
             (None, ps) \<Rightarrow> None
           | (Some h, ps) \<Rightarrow>
               Some \<lparr>rm_middlewares = globalMiddlewares r @ middlewares h, rm_params = ps\<rparr>))"

definition allowedMethods ::
  "(jstring \<Rightarrow> jstring) \<Rightarrow> jstring \<Rightarrow> jstring option \<Rightarrow> 'm rad_router \<Rightarrow> http_method list" where
  "allowedMethods lower path v r =
     (case normalizeForLookup lower r path of
        None \<Rightarrow> []
      | Some normalized \<Rightarrow>
          filter (\<lambda>m. fst (search (query_for r normalized m v) (root r) 0 Map.empty) \<noteq> None)
            ALL_HTTP_METHODS)"

subsection \<open>Maintenance\<close>

record router_stats =
  totalRoutes :: nat
  totalNodes :: nat

definition add_stats :: "router_stats \<Rightarrow> router_stats \<Rightarrow> router_stats" where
  "add_stats a b = \<lparr>totalRoutes = totalRoutes a + totalRoutes b, totalNodes = totalNodes a + totalNodes b\<rparr>"

definition no_stats :: router_stats where
  "no_stats = \<lparr>totalRoutes = 0, totalNodes = 0\<rparr>"

fun traverse :: "'m route_node \<Rightarrow> router_stats" where
  "traverse (RouteNode k l pn sf sc pc scs gc hs) =
     add_stats \<lparr>totalRoutes = length hs, totalNodes = 1\<rparr>
       (add_stats (foldr add_stats (map (\<lambda>p. traverse (snd p)) sc) no_stats)
         (add_stats (case pc of None \<Rightarrow> no_stats | Some c \<Rightarrow> traverse c)
           (add_stats (foldr add_stats (map traverse scs) no_stats)
             (case gc of None \<Rightarrow> no_stats | Some c \<Rightarrow> traverse c))))"

definition getStats :: "'m rad_router \<Rightarrow> router_stats" where
  "getStats r = traverse (root r)"

definition clear_routes :: "bool \<Rightarrow> 'm rad_router \<Rightarrow> 'm rad_router" where
  "clear_routes keepGlobalMiddlewares r =
     r\<lparr>root := new_node StaticKind [] None None,
       globalMiddlewares := (if keepGlobalMiddlewares then globalMiddlewares r else [])\<rparr>"

end
