(* ===== verification/RouterTrie.thy ===== *)
theory RouterTrie
  imports Router
begin

text \<open>
  What a registration does to the router.  The abstract router is a table from paths, read as
  sequences of symbols, to handlers: \<open>slots\<close> reads the table off the radix trie.  A registration
  that returns changes the table at one place, one that throws does not change it at all, and the
  trie stays well formed; so the compression, the splits and the partial walks are invisible.
\<close>

subsection \<open>Paths as symbols\<close>

datatype sym = Lit code_unit | Bind jstring | BindSuffix jstring jstring | BindRest jstring
  | BindAfterDash jstring

abbreviation lits :: "jstring \<Rightarrow> sym list" where "lits l \<equiv> map Lit l"

fun sym_path :: "chunk list \<Rightarrow> sym list" where
  "sym_path [] = []"
| "sym_path (Static l # cs) = lits l @ sym_path cs"
| "sym_path (Param x # cs) = Bind x # sym_path cs"
| "sym_path (ParamWithSuffix x s # cs) = BindSuffix x s # sym_path cs"
| "sym_path (GreedySuffix x # cs) = BindRest x # sym_path cs"
| "sym_path (GreedyPrefix x # cs) = BindAfterDash x # sym_path cs"

subsection \<open>Well-formed tries\<close>

definition suffixes_ok :: "'m route_node list \<Rightarrow> bool" where
  "suffixes_ok scs \<longleftrightarrow> (\<forall>c\<in>set scs. suffix c \<noteq> None \<and> paramName c \<noteq> None) \<and>
     distinct (map suffix scs) \<and>
     sorted_wrt (\<lambda>a b. length (suffix_of b) \<le> length (suffix_of a)) scs"

definition greedy_ok :: "'m route_node \<Rightarrow> bool" where
  "greedy_ok c \<longleftrightarrow> (kind c = GreedySuffixKind \<or> kind c = GreedyPrefixKind) \<and> paramName c \<noteq> None"

definition statics_ok :: "(code_unit \<times> 'm route_node) list \<Rightarrow> bool" where
  "statics_ok sc \<longleftrightarrow> distinct (map fst sc) \<and> (\<forall>(u, c)\<in>set sc. label c \<noteq> [] \<and> hd (label c) = u)"

fun wf_node :: "'m route_node \<Rightarrow> bool" where
  "wf_node (RouteNode k l pn sf sc pc scs gc hs) \<longleftrightarrow>
     statics_ok sc \<and> suffixes_ok scs \<and>
     (\<forall>p\<in>set sc. wf_node (snd p)) \<and> (\<forall>c\<in>set scs. wf_node c) \<and>
     (case pc of None \<Rightarrow> True | Some c \<Rightarrow> paramName c \<noteq> None \<and> wf_node c) \<and>
     (case gc of None \<Rightarrow> True | Some c \<Rightarrow> greedy_ok c \<and> wf_node c)"

lemma wf_node_iff:
  "wf_node n \<longleftrightarrow> statics_ok (staticChildren n) \<and> suffixes_ok (paramSuffixChildren n) \<and>
     (\<forall>p\<in>set (staticChildren n). wf_node (snd p)) \<and> (\<forall>c\<in>set (paramSuffixChildren n). wf_node c) \<and>
     (case paramChild n of None \<Rightarrow> True | Some c \<Rightarrow> paramName c \<noteq> None \<and> wf_node c) \<and>
     (case greedyChild n of None \<Rightarrow> True | Some c \<Rightarrow> greedy_ok c \<and> wf_node c)"
  by (cases n) simp

lemma wf_new [simp]: "wf_node (new_node k l pn sf)"
  by (simp add: new_node_def statics_ok_def suffixes_ok_def)

subsection \<open>The table of a trie\<close>

lemma find_in_set: "find P xs = Some x \<Longrightarrow> x \<in> set xs \<and> P x"
  by (induction xs) (auto split: if_splits)

lemma size_map_of: "map_of sc u = Some c \<Longrightarrow> size c < Suc (size_list (size_prod (\<lambda>_. 0) size) sc)"
  by (induction sc) (auto split: if_splits)

lemma size_find: "find P scs = Some c \<Longrightarrow> size c < Suc (size_list size scs)"
  by (induction scs) (auto split: if_splits)

function slots :: "'m route_node \<Rightarrow> sym list \<Rightarrow> 'm handlers" where
  "slots n [] = handlers n"
| "slots n (Lit u # p) =
     (case map_of (staticChildren n) u of
        None \<Rightarrow> []
      | Some c \<Rightarrow> if starts_with (lits (label c)) (Lit u # p)
                  then slots c (List.drop (length (label c)) (Lit u # p)) else [])"
| "slots n (Bind x # p) =
     (case paramChild n of None \<Rightarrow> [] | Some c \<Rightarrow> if paramName c = Some x then slots c p else [])"
| "slots n (BindSuffix x s # p) =
     (case find (\<lambda>c. suffix c = Some s) (paramSuffixChildren n) of
        None \<Rightarrow> [] | Some c \<Rightarrow> if paramName c = Some x then slots c p else [])"
| "slots n (BindRest x # p) =
     (case greedyChild n of
        None \<Rightarrow> [] | Some c \<Rightarrow> if kind c = GreedySuffixKind \<and> paramName c = Some x then slots c p else [])"
| "slots n (BindAfterDash x # p) =
     (case greedyChild n of
        None \<Rightarrow> [] | Some c \<Rightarrow> if kind c = GreedyPrefixKind \<and> paramName c = Some x then slots c p else [])"
  by pat_completeness auto
termination
proof (relation "measure (\<lambda>(n, p). size n)", goal_cases)
  case (2 n u p c)
  then show ?case by (cases n) (auto dest!: size_map_of)
next
  case (3 n x p c)
  then show ?case by (cases n) auto
next
  case (4 n x s p c)
  then show ?case by (cases n) (auto dest!: size_find)
next
  case (5 n x p c)
  then show ?case by (cases n) auto
next
  case (6 n x p c)
  then show ?case by (cases n) auto
qed simp

text \<open>What hangs under a static child.\<close>

definition slot_under :: "'m route_node \<Rightarrow> sym list \<Rightarrow> 'm handlers" where
  "slot_under c q = (if starts_with (lits (label c)) q then slots c (List.drop (length (label c)) q) else [])"

definition under :: "'m route_node option \<Rightarrow> sym list \<Rightarrow> 'm handlers" where
  "under oc q = (case oc of None \<Rightarrow> [] | Some c \<Rightarrow> slot_under c q)"

lemma slots_Lit: "slots n (Lit u # p) = under (map_of (staticChildren n) u) (Lit u # p)"
  by (simp add: slot_under_def under_def split: option.split)

lemma slots_new [simp]: "slots (new_node k l pn sf) p = []"
  by (cases p; cases "hd p") (simp_all add: new_node_def)

declare slots.simps(2) [simp del]

lemma slot_under_new [simp]: "slot_under (new_node k l pn sf) q = []"
  by (simp add: slot_under_def)

lemma starts_with_append: "starts_with p s \<longleftrightarrow> (\<exists>r. s = p @ r)"
  by (metis append_eq_conv_conj append_take_drop_id starts_with_def)

lemma slot_under_append [simp]: "slot_under c (lits (label c) @ r) = slots c r"
  by (simp add: slot_under_def starts_with_def)

subsection \<open>What a walk does\<close>

definition same_shape :: "'m route_node \<Rightarrow> 'm route_node \<Rightarrow> bool" where
  "same_shape a b \<longleftrightarrow> kind b = kind a \<and> label b = label a \<and> paramName b = paramName a \<and> suffix b = suffix a"

definition updates ::
  "handler_key \<Rightarrow> ('m handlers \<Rightarrow> 'm handlers) \<Rightarrow> sym list \<Rightarrow> 'm route_node \<Rightarrow>
   'm route_node \<times> router_error option \<Rightarrow> bool" where
  "updates key f p n res \<longleftrightarrow> wf_node (fst res) \<and> same_shape n (fst res) \<and>
     (case snd res of
        None \<Rightarrow> map_of (slots n p) key = None \<and> slots (fst res) = (slots n)(p := f (slots n p))
      | Some e \<Rightarrow> slots (fst res) = slots n)"

lemma with_static_simps [simp]:
  "snd (with_static u res n) = snd res" "staticChildren (fst (with_static u res n)) = AList.update u (fst res) (staticChildren n)"
  "paramChild (fst (with_static u res n)) = paramChild n" "greedyChild (fst (with_static u res n)) = greedyChild n"
  "paramSuffixChildren (fst (with_static u res n)) = paramSuffixChildren n"
  "handlers (fst (with_static u res n)) = handlers n" "same_shape n (fst (with_static u res n))"
  by (simp_all add: with_static_def same_shape_def)

lemma slots_with_static:
  "slots (fst (with_static u res n)) q =
     (case q of Lit w # p \<Rightarrow> if w = u then slot_under (fst res) q else slots n q | _ \<Rightarrow> slots n q)"
  by (cases "(n, q)" rule: slots.cases) (simp_all add: slots_Lit under_def map_of_update)

lemma set_update_subset: "set (AList.update u v al) \<subseteq> insert (u, v) (set al)"
  by (induction al) auto

lemma wf_with_static:
  assumes "wf_node n" and "wf_node (fst res)" and "label (fst res) \<noteq> []" and "hd (label (fst res)) = u"
  shows "wf_node (fst (with_static u res n))"
proof -
  have "statics_ok (AList.update u (fst res) (staticChildren n))"
    using assms set_update_subset[of u "fst res" "staticChildren n"]
    by (auto simp: statics_ok_def wf_node_iff[of n] intro: distinct_update)
  moreover have "\<forall>p\<in>set (AList.update u (fst res) (staticChildren n)). wf_node (snd p)"
    using assms(1,2) set_update_subset[of u "fst res" "staticChildren n"] by (force simp: wf_node_iff[of n])
  ultimately show ?thesis using assms(1) by (simp add: wf_node_iff[of n] wf_node_iff[of "fst (with_static u res n)"])
qed

text \<open>The static child \<open>c0\<close> is what was under \<open>u\<close>, possibly split or fresh.\<close>

lemma updates_static:
  assumes "wf_node n" and "label c0 = u # us" and "updates key f p c0 res"
    and same: "\<And>q. under (map_of (staticChildren n) u) (Lit u # q) = slot_under c0 (Lit u # q)"
  shows "updates key f (lits (label c0) @ p) n (with_static u res n)"
proof -
  let ?c = "fst res"
  have c: "wf_node ?c" "label ?c = u # us" using assms(2,3) by (auto simp: updates_def same_shape_def)
  have wf: "wf_node (fst (with_static u res n))" using wf_with_static[OF assms(1) c(1)] c(2) by simp
  have old: "slots n (Lit u # q) = slot_under c0 (Lit u # q)" for q
    by (simp only: slots_Lit same)
  have at: "slots n (lits (label c0) @ p) = slots c0 p"
    using old[of "lits us @ p"] slot_under_append[of c0 p] assms(2) by simp
  show ?thesis
  proof (cases "snd res")
    case None
    then have new: "slots ?c = (slots c0)(p := f (slots c0 p))" and free: "map_of (slots c0 p) key = None"
      using assms(3) by (auto simp: updates_def)
    have "slots (fst (with_static u res n)) q = ((slots n)(lits (label c0) @ p := f (slots n (lits (label c0) @ p)))) q" for q
    proof (cases "\<exists>q'. q = Lit u # q'")
      case True
      then obtain q' where q: "q = Lit u # q'" by blast
      have "slot_under ?c q = (if q = lits (label c0) @ p then f (slots c0 p) else slot_under c0 q)"
        using assms(2) c(2) new by (auto simp: slot_under_def starts_with_append)
      then show ?thesis using q at old[of q'] by (simp add: slots_with_static)
    next
      case False
      then have "q \<noteq> lits (label c0) @ p" using assms(2) by auto
      then show ?thesis using False by (auto simp: slots_with_static split: list.splits sym.splits)
    qed
    then show ?thesis using None wf at free by (auto simp: updates_def)
  next
    case (Some e)
    then have new: "slots ?c = slots c0" using assms(3) by (simp add: updates_def)
    have "slots (fst (with_static u res n)) q = slots n q" for q
      using old new c(2) assms(2)
      by (auto simp: slots_with_static slot_under_def split: list.splits sym.splits)
    then show ?thesis using Some wf by (auto simp: updates_def)
  qed
qed

lemma common_prefix_take:
  "take (common_prefix xs ys) xs = take (common_prefix xs ys) ys"
  by (induction xs ys rule: common_prefix.induct) auto

lemma common_prefix_diff:
  "common_prefix xs ys < length xs \<Longrightarrow> common_prefix xs ys < length ys \<Longrightarrow>
     hd (List.drop (common_prefix xs ys) xs) \<noteq> hd (List.drop (common_prefix xs ys) ys)"
  by (induction xs ys rule: common_prefix.induct) auto

text \<open>Splitting a node changes neither the table under it nor its well-formedness.\<close>

lemma split_head_simps [simp]:
  "label (split_head i c) = take i (label c)" "paramName (split_head i c) = paramName c"
  "staticChildren (split_head i c) = [(hd (List.drop i (label c)), split_tail i c)]"
  "paramChild (split_head i c) = None" "paramSuffixChildren (split_head i c) = []"
  "greedyChild (split_head i c) = None" "handlers (split_head i c) = []"
  by (simp_all add: split_head_def)

lemma slots_split_tail: "slots (split_tail i c) q = slots c q"
  by (cases "(c, q)" rule: slots.cases) (simp_all add: split_tail_def slots_Lit)

lemma slot_under_split:
  assumes "i < length (label c)"
  shows "slot_under (split_head i c) q = slot_under c q"
proof -
  let ?a = "take i (label c)" and ?b = "List.drop i (label c)"
  have b: "?b = hd ?b # tl ?b" using assms by simp
  have lab: "lits (label c) = lits ?a @ lits ?b" by (simp flip: map_append)
  have tail: "slots (split_head i c) r = slot_under (split_tail i c) r" for r
  proof (cases "\<exists>r'. r = Lit (hd ?b) # r'")
    case True
    then show ?thesis by (auto simp: slots_Lit under_def)
  next
    case False
    then have "slots (split_head i c) r = []"
      by (cases "(split_head i c, r)" rule: slots.cases) (auto simp: slots_Lit under_def)
    moreover have "\<not> starts_with (lits ?b) r"
      using False b by (metis append_Cons list.simps(9) starts_with_append)
    ultimately show ?thesis by (simp add: slot_under_def split_tail_def)
  qed
  show ?thesis
  proof (cases "\<exists>r. q = lits ?a @ r")
    case True
    then obtain r where q: "q = lits ?a @ r" by blast
    then have "slot_under (split_head i c) q = slot_under (split_tail i c) r"
      using slot_under_append[of "split_head i c" r] tail by simp
    also have "\<dots> = slot_under c q"
    proof (cases "\<exists>r'. r = lits ?b @ r'")
      case True
      then obtain r' where r: "r = lits ?b @ r'" by blast
      have "q = lits (label c) @ r'" using q r lab by simp
      then show ?thesis
        using r slot_under_append[of "split_tail i c" r'] slots_split_tail[of i c] by (simp add: split_tail_def)
    next
      case False
      then have "\<not> starts_with (lits (label c)) q"
        by (simp only: starts_with_append lab q append.assoc same_append_eq not_False_eq_True)
      then have "slot_under c q = []" by (simp add: slot_under_def)
      moreover have "\<not> starts_with (lits (label (split_tail i c))) r"
        using False by (simp add: split_tail_def starts_with_append)
      ultimately show ?thesis by (simp add: slot_under_def)
    qed
    finally show ?thesis .
  next
    case False
    then have "\<not> starts_with (lits (label c)) q"
      unfolding starts_with_append lab by auto
    moreover have "\<not> starts_with (lits (label (split_head i c))) q"
      using False by (simp add: starts_with_append)
    ultimately show ?thesis by (simp add: slot_under_def)
  qed
qed

lemma wf_split_head:
  assumes "wf_node c" and "i < length (label c)"
  shows "wf_node (split_head i c)"
proof -
  have "wf_node (split_tail i c)" using assms(1) by (simp add: split_tail_def wf_node_iff[of c])
  then show ?thesis
    using assms(2) by (simp add: split_head_def statics_ok_def suffixes_ok_def) (simp add: split_tail_def)
qed

subsection \<open>The static walk\<close>

lemma new_node_sel [simp]:
  "label (new_node k l pn sf) = l" "kind (new_node k l pn sf) = k"
  "paramName (new_node k l pn sf) = pn" "suffix (new_node k l pn sf) = sf"
  by (simp_all add: new_node_def)

lemma updates_staticI:
  assumes "wf_node n" and "updates key f p c0 res" and "label c0 = u # us"
    and "\<forall>q. under (map_of (staticChildren n) u) (Lit u # q) = slot_under c0 (Lit u # q)"
    and "path = lits (label c0) @ p"
  shows "updates key f path n (with_static u res n)"
  using updates_static[OF assms(1,3,2)] assms(4,5) by blast

lemma updates_fresh:
  assumes "wf_node n" and "l = u # us" and "map_of (staticChildren n) u = None"
    and "updates key f p (new_node StaticKind l None None) res"
  shows "updates key f (lits l @ p) n (with_static u res n)"
  by (rule updates_staticI[OF assms(1,4)]) (use assms in \<open>simp_all add: under_def\<close>)

lemma insertStatic_updates:
  assumes "\<And>n. wf_node n \<Longrightarrow> updates key f p n (k n)" and "wf_node n"
  shows "updates key f (lits l @ p) n (insertStatic n l k)"
  using assms
proof (induction n l k rule: insertStatic.induct)
  case (2 n u us k)
  show ?case
  proof (cases "map_of (staticChildren n) u")
    case None
    then show ?thesis using 2(2)[of "new_node StaticKind (u # us) None None"] updates_fresh[OF 2(3)] by simp
  next
    case (Some child)
    let ?i = "common_prefix (label child) (u # us)"
    have ch: "wf_node child" "label child \<noteq> []" "hd (label child) = u"
      using 2(3) map_of_SomeD[OF Some] by (force simp: wf_node_iff[of n] statics_ok_def)+
    then have lc: "label child = u # tl (label child)" by (metis list.collapse)
    then have pos: "0 < ?i" by (metis common_prefix.simps(1) zero_less_Suc)
    have tk: "take ?i (label child) = take ?i (u # us)" by (rule common_prefix_take)
    have le: "?i \<le> length (label child)" "?i \<le> length (u # us)" by (rule common_prefix_le)+
    have same: "\<forall>q. under (map_of (staticChildren n) u) (Lit u # q) = slot_under child (Lit u # q)"
      by (simp add: Some under_def)
    have same_split: "?i < length (label child) \<Longrightarrow> \<forall>q. under (map_of (staticChildren n) u) (Lit u # q) =
        slot_under (split_head ?i child) (Lit u # q)"
      by (simp add: same slot_under_split)
    have lits_join: "lits (take ?i (u # us)) @ lits (List.drop ?i (u # us)) @ p = lits (u # us) @ p"
      by (metis append.assoc append_take_drop_id map_append)
    consider (whole) "?i = length (label child)" "?i = length (u # us)"
      | (descend) "?i = length (label child)" "?i < length (u # us)"
      | (cut) "?i < length (label child)" "?i = length (u # us)"
      | (fork) "?i < length (label child)" "?i < length (u # us)"
      using le by linarith
    then show ?thesis
    proof cases
      case whole
      then have "label child = u # us" using tk by simp
      then have "updates key f (lits (u # us) @ p) n (with_static u (k child) n)"
        by (intro updates_staticI[OF 2(3) 2(2)[OF ch(1)] lc same]) simp
      then show ?thesis using Some whole by simp
    next
      case descend
      let ?res = "insertStatic child (List.drop ?i (u # us)) k"
      have "label child = take ?i (u # us)" using tk descend by simp
      then have lj: "lits (u # us) @ p = lits (label child) @ lits (List.drop ?i (u # us)) @ p"
        using lits_join by metis
      have "updates key f (lits (List.drop ?i (u # us)) @ p) child ?res"
        using 2(1)[OF Some refl] descend pos 2(2) ch(1) by simp
      then have "updates key f (lits (u # us) @ p) n (with_static u ?res n)"
        by (rule updates_staticI[OF 2(3) _ lc same lj])
      then show ?thesis using Some descend pos by (simp add: Let_def)
    next
      case cut
      let ?h = "split_head ?i child"
      have lab: "label ?h = u # us" using tk cut by simp
      have "updates key f p ?h (k ?h)" using 2(2) wf_split_head[OF ch(1) cut(1)] by blast
      then have "updates key f (lits (u # us) @ p) n (with_static u (k ?h) n)"
        by (rule updates_staticI[OF 2(3) _ lab same_split[OF cut(1)]]) (simp only: lab)
      then show ?thesis using Some cut by (simp add: Let_def)
    next
      case fork
      let ?h = "split_head ?i child" and ?r = "List.drop ?i (u # us)"
      let ?res = "with_static (hd ?r) (k (new_node StaticKind ?r None None)) ?h"
      have r: "?r = hd ?r # tl ?r" using fork(2) by simp
      have hd: "hd (List.drop ?i (label child)) \<noteq> hd ?r"
        using fork by (rule common_prefix_diff)
      have "updates key f (lits ?r @ p) ?h ?res"
        using hd by (intro updates_fresh[OF wf_split_head[OF ch(1) fork(1)] r]) (simp_all add: 2(2))
      moreover have lab: "label ?h = u # tl (take ?i (u # us))" using tk pos by (cases ?i) auto
      moreover have lj: "lits (u # us) @ p = lits (label ?h) @ lits ?r @ p"
        by (simp only: split_head_simps tk lits_join)
      ultimately have "updates key f (lits (u # us) @ p) n (with_static u ?res n)"
        by (intro updates_staticI[OF 2(3) _ lab same_split[OF fork(1)] lj])
      then show ?thesis using Some fork by (simp add: Let_def)
    qed
  qed
qed simp

subsection \<open>The other steps of the walk\<close>

lemma updates_hop:
  assumes "updates key f p c0 res" and "wf_node n'" and "same_shape n n'"
    and "\<forall>q. slots n (s # q) = slots c0 q" and "\<forall>q. slots n' (s # q) = slots (fst res) q"
    and "\<forall>q. (\<nexists>r. q = s # r) \<longrightarrow> slots n' q = slots n q"
  shows "updates key f (s # p) n (n', snd res)"
proof (cases "snd res")
  case None
  then have new: "slots (fst res) = (slots c0)(p := f (slots c0 p))" and free: "map_of (slots c0 p) key = None"
    using assms(1) by (auto simp: updates_def)
  have "slots n' q = ((slots n)(s # p := f (slots n (s # p)))) q" for q
    using new assms(4,5,6) by (cases "\<exists>r. q = s # r") auto
  then show ?thesis using None free assms(2,3,4) by (auto simp: updates_def)
next
  case (Some e)
  then have "slots (fst res) = slots c0" using assms(1) by (simp add: updates_def)
  then have "slots n' q = slots n q" for q using assms(4,5,6) by (cases "\<exists>r. q = s # r") auto
  then show ?thesis using Some assms(2,3) by (auto simp: updates_def)
qed

lemma updates_error: "wf_node n \<Longrightarrow> updates key f p n (n, Some e)"
  by (simp add: updates_def same_shape_def)

lemma with_param_simps [simp]:
  "snd (with_param res n) = snd res" "staticChildren (fst (with_param res n)) = staticChildren n"
  "paramChild (fst (with_param res n)) = Some (fst res)" "greedyChild (fst (with_param res n)) = greedyChild n"
  "paramSuffixChildren (fst (with_param res n)) = paramSuffixChildren n"
  "handlers (fst (with_param res n)) = handlers n" "same_shape n (fst (with_param res n))"
  by (simp_all add: with_param_def same_shape_def)

lemma with_greedy_simps [simp]:
  "snd (with_greedy res n) = snd res" "staticChildren (fst (with_greedy res n)) = staticChildren n"
  "paramChild (fst (with_greedy res n)) = paramChild n" "greedyChild (fst (with_greedy res n)) = Some (fst res)"
  "paramSuffixChildren (fst (with_greedy res n)) = paramSuffixChildren n"
  "handlers (fst (with_greedy res n)) = handlers n" "same_shape n (fst (with_greedy res n))"
  by (simp_all add: with_greedy_def same_shape_def)

lemma with_suffixes_simps [simp]:
  "staticChildren (with_suffixes scs n) = staticChildren n" "paramChild (with_suffixes scs n) = paramChild n"
  "greedyChild (with_suffixes scs n) = greedyChild n" "paramSuffixChildren (with_suffixes scs n) = scs"
  "handlers (with_suffixes scs n) = handlers n" "same_shape n (with_suffixes scs n)"
  by (simp_all add: with_suffixes_def same_shape_def)

lemma with_handlers_simps [simp]:
  "staticChildren (with_handlers hs n) = staticChildren n" "paramChild (with_handlers hs n) = paramChild n"
  "greedyChild (with_handlers hs n) = greedyChild n"
  "paramSuffixChildren (with_handlers hs n) = paramSuffixChildren n"
  "handlers (with_handlers hs n) = hs" "same_shape n (with_handlers hs n)"
  by (simp_all add: with_handlers_def same_shape_def)

lemma updates_param:
  assumes n: "wf_node n" and c0: "updates key f p c0 res" and x: "paramName c0 = Some x"
    and sub: "paramChild n = Some c0 \<or> (paramChild n = None \<and> (\<forall>q. slots c0 q = []))"
  shows "updates key f (Bind x # p) n (with_param res n)"
proof -
  have c: "wf_node (fst res)" "paramName (fst res) = Some x"
    using c0 x by (auto simp: updates_def same_shape_def)
  let ?n = "fst (with_param res n)"
  have wf: "wf_node ?n" using n c by (simp add: wf_node_iff[of n] wf_node_iff[of ?n])
  have old: "\<forall>q. slots n (Bind x # q) = slots c0 q" using sub x by auto
  have other: "\<forall>q. (\<nexists>r. q = Bind x # r) \<longrightarrow> slots ?n q = slots n q"
  proof (intro allI impI)
    fix q assume "\<nexists>r. q = Bind x # r"
    then show "slots ?n q = slots n q"
      using sub c x by (cases "(n, q)" rule: slots.cases) (auto simp: slots_Lit)
  qed
  have "updates key f (Bind x # p) n (?n, snd res)"
    by (rule updates_hop[OF c0 wf _ old _ other]) (simp_all add: c)
  then show ?thesis by (metis prod.collapse with_param_simps(1))
qed

text \<open>The symbol of a greedy child.\<close>

definition greedy_sym :: "node_kind \<Rightarrow> jstring \<Rightarrow> sym" where
  "greedy_sym kd x = (if kd = GreedySuffixKind then BindRest x else BindAfterDash x)"

lemma updates_greedy:
  assumes n: "wf_node n" and c0: "updates key f p c0 res" and x: "paramName c0 = Some x"
    and kd: "kind c0 = GreedySuffixKind \<or> kind c0 = GreedyPrefixKind"
    and sub: "greedyChild n = Some c0 \<or> (greedyChild n = None \<and> (\<forall>q. slots c0 q = []))"
  shows "updates key f (greedy_sym (kind c0) x # p) n (with_greedy res n)"
proof -
  have c: "wf_node (fst res)" "paramName (fst res) = Some x" "kind (fst res) = kind c0"
    using c0 x by (auto simp: updates_def same_shape_def)
  let ?n = "fst (with_greedy res n)" and ?s = "greedy_sym (kind c0) x"
  have wf: "wf_node ?n" using n c kd by (simp add: wf_node_iff[of n] wf_node_iff[of ?n] greedy_ok_def)
  have old: "\<forall>q. slots n (?s # q) = slots c0 q" using sub x kd by (auto simp: greedy_sym_def)
  have new: "\<forall>q. slots ?n (?s # q) = slots (fst res) q" using c kd by (auto simp: greedy_sym_def)
  have other: "\<forall>q. (\<nexists>r. q = ?s # r) \<longrightarrow> slots ?n q = slots n q"
  proof (intro allI impI)
    fix q assume "\<nexists>r. q = ?s # r"
    then show "slots ?n q = slots n q"
      using sub c x kd by (cases "(n, q)" rule: slots.cases) (auto simp: slots_Lit greedy_sym_def)
  qed
  have "updates key f (?s # p) n (?n, snd res)"
    by (rule updates_hop[OF c0 wf _ old new other]) simp
  then show ?thesis by (metis prod.collapse with_greedy_simps(1))
qed

lemma updates_insertGreedy:
  assumes n: "wf_node n" and k: "\<And>n. wf_node n \<Longrightarrow> updates key f p n (k n)"
    and kd: "kd = GreedySuffixKind \<or> kd = GreedyPrefixKind"
  shows "updates key f (greedy_sym kd x # p) n (insertGreedy kd x path k n)"
proof (cases "greedyChild n")
  case None
  then show ?thesis
    using updates_greedy[OF n k[OF wf_new[of kd "[]" "Some x" None]], of x] kd
    by (simp add: insertGreedy_def)
next
  case (Some c)
  then have wf: "wf_node c" using n by (simp add: wf_node_iff[of n])
  show ?thesis
  proof (cases "kind c = kd \<and> paramName c = Some x")
    case True
    then have "updates key f (greedy_sym (kind c) x # p) n (with_greedy (k c) n)"
      by (intro updates_greedy[OF n k[OF wf]]) (use Some kd in simp_all)
    then show ?thesis using Some True by (simp add: insertGreedy_def)
  next
    case False
    then show ?thesis using Some updates_error[OF n] by (auto simp: insertGreedy_def)
  qed
qed

lemma find_distinct:
  "distinct (map g xs) \<Longrightarrow> find (\<lambda>x. g x = v) xs = Some x \<longleftrightarrow> x \<in> set xs \<and> g x = v"
  by (induction xs) (auto simp: rev_image_eqI)

lemma find_none: "find P xs = None \<longleftrightarrow> (\<forall>x\<in>set xs. \<not> P x)"
  by (induction xs) auto

lemma map_update_first:
  "find P xs = Some x \<Longrightarrow> g y = g x \<Longrightarrow> map g (update_first P y xs) = map g xs"
  by (induction xs) (auto split: if_splits)

lemma set_update_first:
  "find P xs = Some x \<Longrightarrow> set (update_first P y xs) \<subseteq> insert y (set xs)"
  by (induction xs) (auto split: if_splits)

lemma find_update_first:
  assumes "\<And>z. Q z \<Longrightarrow> P z \<Longrightarrow> False" and "\<not> Q y"
  shows "find Q (update_first P y xs) = find Q xs"
  using assms by (induction xs) auto

lemma find_update_first_same: "find P xs = Some x \<Longrightarrow> P y \<Longrightarrow> find P (update_first P y xs) = Some y"
  by (induction xs) (auto split: if_splits)

lemma suffixes_ok_update:
  assumes "suffixes_ok scs" and "find P scs = Some c" and "suffix c' = suffix c" and "paramName c' \<noteq> None"
  shows "suffixes_ok (update_first P c' scs)"
proof -
  have m: "map suffix (update_first P c' scs) = map suffix scs"
    using map_update_first[OF assms(2), of suffix c'] assms(3) by simp
  have len: "suffix_of n = suffix_of n'" if "suffix n = suffix n'" for n n' :: "'a route_node"
    using that by (simp add: suffix_of_def)
  have "sorted_wrt (\<lambda>a b. length (suffix_of b) \<le> length (suffix_of a)) xs \<longleftrightarrow>
      sorted_wrt (\<lambda>a b. length (case b of None \<Rightarrow> [] | Some s \<Rightarrow> s) \<le> length (case a of None \<Rightarrow> [] | Some s \<Rightarrow> s))
        (map suffix xs)" for xs :: "'a route_node list"
    by (simp add: sorted_wrt_map suffix_of_def)
  moreover have "suffix c \<noteq> None" using assms(1) find_in_set[OF assms(2)] by (auto simp: suffixes_ok_def)
  ultimately show ?thesis
    using assms(1,3,4) m set_update_first[OF assms(2), of c'] by (fastforce simp: suffixes_ok_def)
qed

lemma suffixes_ok_insert:
  assumes "suffixes_ok scs" and "\<forall>d\<in>set scs. suffix d \<noteq> suffix c" and "suffix c \<noteq> None" and "paramName c \<noteq> None"
  shows "suffixes_ok (sort_suffixes (scs @ [c]))"
proof -
  have d: "distinct (map suffix (sort_suffixes (scs @ [c])))"
  proof -
    have "inj_on suffix (set (scs @ [c]))" "distinct (scs @ [c])"
      using assms(1,2) by (auto simp: suffixes_ok_def distinct_map inj_on_def)
    then show ?thesis by (simp add: sort_suffixes_def distinct_map)
  qed
  have "sorted (map (\<lambda>n. - int (length (suffix_of n))) (sort_suffixes (scs @ [c])))"
    by (simp add: sort_suffixes_def)
  then have "sorted_wrt (\<lambda>a b. length (suffix_of b) \<le> length (suffix_of a)) (sort_suffixes (scs @ [c]))"
    by (simp add: sorted_map)
  then show ?thesis
    using d assms by (simp add: suffixes_ok_def sort_suffixes_def)
qed

lemma updates_suffix:
  assumes n: "wf_node n" and c0: "updates key f p c0 res" and x: "paramName c0 = Some x" "suffix c0 = Some s"
    and scs: "suffixes_ok scs" "\<forall>c\<in>set scs. wf_node c"
    and here: "find (\<lambda>c. suffix c = Some s) scs = Some (fst res)"
    and there: "\<And>t. t \<noteq> s \<Longrightarrow>
      find (\<lambda>c. suffix c = Some t) scs = find (\<lambda>c. suffix c = Some t) (paramSuffixChildren n)"
    and sub: "find (\<lambda>c. suffix c = Some s) (paramSuffixChildren n) = Some c0 \<or>
      (find (\<lambda>c. suffix c = Some s) (paramSuffixChildren n) = None \<and> (\<forall>q. slots c0 q = []))"
  shows "updates key f (BindSuffix x s # p) n (with_suffixes scs n, snd res)"
proof -
  have c: "wf_node (fst res)" "paramName (fst res) = Some x"
    using c0 x by (auto simp: updates_def same_shape_def)
  let ?n = "with_suffixes scs n"
  have wf: "wf_node ?n" using n scs by (simp add: wf_node_iff[of n] wf_node_iff[of ?n])
  have old: "\<forall>q. slots n (BindSuffix x s # q) = slots c0 q" using sub x by auto
  have other: "\<forall>q. (\<nexists>r. q = BindSuffix x s # r) \<longrightarrow> slots ?n q = slots n q"
  proof (intro allI impI)
    fix q assume q: "\<nexists>r. q = BindSuffix x s # r"
    show "slots ?n q = slots n q"
    proof (cases "(n, q)" rule: slots.cases)
      case (4 n' y t r)
      then have "t = s \<Longrightarrow> y \<noteq> x" using q by auto
      then show ?thesis using 4 here c sub x there[of t] by (cases "t = s") auto
    qed (auto simp: slots_Lit)
  qed
  show ?thesis
    by (rule updates_hop[OF c0 wf _ old _ other]) (simp_all add: here c)
qed

subsection \<open>The whole registration\<close>

lemma find_sort_suffixes:
  assumes "suffixes_ok (sort_suffixes (scs @ [c]))" and "suffixes_ok scs" and "suffix c \<noteq> Some t"
  shows "find (\<lambda>d. suffix d = Some t) (sort_suffixes (scs @ [c])) = find (\<lambda>d. suffix d = Some t) scs"
proof -
  have d: "distinct (map suffix (sort_suffixes (scs @ [c])))" "distinct (map suffix scs)"
    using assms(1,2) by (auto simp: suffixes_ok_def)
  have "find (\<lambda>d. suffix d = Some t) (sort_suffixes (scs @ [c])) = Some x \<longleftrightarrow>
      find (\<lambda>d. suffix d = Some t) scs = Some x" for x
    unfolding find_distinct[OF d(1)] find_distinct[OF d(2)] using assms(3)
    by (auto simp: sort_suffixes_def)
  then show ?thesis by (metis not_Some_eq)
qed

lemma insertSuffix_updates:
  assumes n: "wf_node n" and k: "\<And>n. wf_node n \<Longrightarrow> updates key f (sym_path cs) n (insertChunks m path mws v cs n)"
  shows "updates key f (BindSuffix x s # sym_path cs) n (insertChunks m path mws v (ParamWithSuffix x s # cs) n)"
proof -
  let ?scs = "paramSuffixChildren n" and ?P = "\<lambda>c. suffix c = Some s"
  have ok: "suffixes_ok ?scs" "\<forall>c\<in>set ?scs. wf_node c" using n by (simp_all add: wf_node_iff[of n])
  show ?thesis
  proof (cases "find ?P ?scs")
    case None
    let ?c = "new_node ParamWithSuffixKind [] (Some x) (Some s) :: 'a route_node"
    let ?res = "insertChunks m path mws v cs ?c"
    have u: "updates key f (sym_path cs) ?c ?res" using k wf_new by blast
    then have c: "wf_node (fst ?res)" "paramName (fst ?res) = Some x" "suffix (fst ?res) = Some s"
      by (auto simp: updates_def same_shape_def)
    have so: "suffixes_ok (sort_suffixes (?scs @ [fst ?res]))"
      using ok c None by (intro suffixes_ok_insert) (auto simp: find_none)
    have "updates key f (BindSuffix x s # sym_path cs) n
        (with_suffixes (sort_suffixes (?scs @ [fst ?res])) n, snd ?res)"
    proof (rule updates_suffix[OF n u _ _ so])
      show "\<forall>c\<in>set (sort_suffixes (?scs @ [fst ?res])). wf_node c"
        using ok c by (auto simp: sort_suffixes_def)
      have "distinct (map suffix (sort_suffixes (?scs @ [fst ?res])))" using so by (simp add: suffixes_ok_def)
      then show "find ?P (sort_suffixes (?scs @ [fst ?res])) = Some (fst ?res)"
        using c by (auto simp: find_distinct sort_suffixes_def)
      show "find (\<lambda>c. suffix c = Some t) (sort_suffixes (?scs @ [fst ?res])) =
          find (\<lambda>c. suffix c = Some t) ?scs" if "t \<noteq> s" for t
        using find_sort_suffixes[OF so ok(1)] c that by simp
    qed (use None in simp_all)
    then show ?thesis using None by (simp add: Let_def)
  next
    case (Some c)
    have cs: "c \<in> set ?scs" "suffix c = Some s" using find_in_set[OF Some] by auto
    show ?thesis
    proof (cases "paramName c = Some x")
      case True
      let ?res = "insertChunks m path mws v cs c"
      have u: "updates key f (sym_path cs) c ?res" using k ok cs by blast
      then have c: "wf_node (fst ?res)" "paramName (fst ?res) = Some x" "suffix (fst ?res) = Some s"
        using True cs by (auto simp: updates_def same_shape_def)
      have "updates key f (BindSuffix x s # sym_path cs) n
          (with_suffixes (update_first ?P (fst ?res) ?scs) n, snd ?res)"
      proof (rule updates_suffix[OF n u True cs(2)])
        show "suffixes_ok (update_first ?P (fst ?res) ?scs)"
          using suffixes_ok_update[OF ok(1) Some] c cs by simp
        show "\<forall>d\<in>set (update_first ?P (fst ?res) ?scs). wf_node d"
          using set_update_first[OF Some, of "fst ?res"] ok c by auto
        show "find ?P (update_first ?P (fst ?res) ?scs) = Some (fst ?res)"
          using find_update_first_same[OF Some] c by simp
        show "find (\<lambda>c. suffix c = Some t) (update_first ?P (fst ?res) ?scs) =
            find (\<lambda>c. suffix c = Some t) ?scs" if "t \<noteq> s" for t
          using c that by (intro find_update_first) auto
      qed (use Some in simp)
      then show ?thesis using Some True by (simp add: Let_def)
    next
      case False
      then show ?thesis using Some updates_error[OF n] by simp
    qed
  qed
qed

lemma insertParam_updates:
  assumes n: "wf_node n" and k: "\<And>n. wf_node n \<Longrightarrow> updates key f (sym_path cs) n (insertChunks m path mws v cs n)"
  shows "updates key f (Bind x # sym_path cs) n (insertChunks m path mws v (Param x # cs) n)"
proof (cases "paramChild n")
  case None
  then show ?thesis using updates_param[OF n k[OF wf_new[of ParamKind "[]" "Some x" None]], of x] by simp
next
  case (Some c)
  then have "wf_node c" using n by (simp add: wf_node_iff[of n])
  then show ?thesis
    using updates_param[OF n k, of c x] updates_error[OF n] Some by simp
qed

lemma insertEnd_updates:
  assumes "wf_node n"
  shows "updates (handler_key m v) (addHandler m mws v) [] n (insertChunks m path mws v [] n)"
proof -
  have "slots (with_handlers hs n) q = (if q = [] then hs else slots n q)" for hs q
    by (cases "(n, q)" rule: slots.cases) (simp_all add: slots_Lit)
  then have "slots (with_handlers hs n) = (slots n)([] := hs)" for hs by auto
  moreover have "wf_node (with_handlers hs n)" for hs
    using assms by (simp add: wf_node_iff[of n] wf_node_iff[of "with_handlers hs n"])
  ultimately show ?thesis using assms by (simp add: updates_def) (simp add: same_shape_def)
qed

lemma insertChunks_updates:
  "wf_node n \<Longrightarrow>
     updates (handler_key m v) (addHandler m mws v) (sym_path cs) n (insertChunks m path mws v cs n)"
proof (induction cs arbitrary: n)
  case Nil
  show ?case using insertEnd_updates[OF Nil] by simp
next
  case (Cons c cs)
  then show ?case
  proof (cases c)
    case (Static l)
    then show ?thesis
      using insertStatic_updates[of "handler_key m v" "addHandler m mws v" "sym_path cs"
          "insertChunks m path mws v cs" n l] Cons by simp
  next
    case (GreedySuffix x)
    then show ?thesis
      using updates_insertGreedy[OF Cons.prems Cons.IH, of GreedySuffixKind x path] by (simp add: greedy_sym_def)
  next
    case (GreedyPrefix x)
    then show ?thesis
      using updates_insertGreedy[OF Cons.prems Cons.IH, of GreedyPrefixKind x path] by (simp add: greedy_sym_def)
  qed (use insertParam_updates[OF Cons.prems Cons.IH] insertSuffix_updates[OF Cons.prems Cons.IH] in simp_all)
qed

end
