(* ===== verification/RouterSearch.thy ===== *)
theory RouterSearch
  imports RouterTrie
begin

text \<open>
  Lookup in the router against its meaning.  \<open>matches\<close> says, symbol by symbol and without any
  search order, when a registered path matches a request and what it captures; a wildcard
  \<open>*-:name:\<close> may split at any dash.  The search of the radix trie, with its compression, its
  backtracking and its single right-to-left pass over the dashes, finds a handler exactly when some
  registered path matches, returns the captures of such a path, and puts every parameter back
  when it fails.
\<close>

text \<open>\<open>url\<close> and \<open>orig\<close> are aligned, and a dash of the folded view is one of the original.\<close>

definition aligned :: "query \<Rightarrow> bool" where
  "aligned q \<longleftrightarrow> length (q_orig q) = length (q_url q) \<and>
     (\<forall>i<length (q_url q). q_url q ! i = dash \<longrightarrow> q_orig q ! i = dash)"

inductive matches :: "query \<Rightarrow> sym list \<Rightarrow> nat \<Rightarrow> route_params \<Rightarrow> route_params \<Rightarrow> bool" for q where
  ended: "length (q_url q) \<le> pos \<Longrightarrow> matches q [] pos ps ps"
| literal: "pos < length (q_url q) \<Longrightarrow> q_url q ! pos = u \<Longrightarrow> matches q p (Suc pos) ps ps' \<Longrightarrow>
    matches q (Lit u # p) pos ps ps'"
| bound: "e = end_of_segment (q_url q) pos \<Longrightarrow> pos < e \<Longrightarrow> capture q pos e = Some v \<Longrightarrow>
    matches q p e (ps(x \<mapsto> v)) ps' \<Longrightarrow> matches q (Bind x # p) pos ps ps'"
| suffixed: "e = end_of_segment (q_url q) pos \<Longrightarrow> pos + length s < e \<Longrightarrow> label_at q (e - length s) s \<Longrightarrow>
    capture q pos (e - length s) = Some v \<Longrightarrow> matches q p e (ps(x \<mapsto> v)) ps' \<Longrightarrow>
    matches q (BindSuffix x s # p) pos ps ps'"
| rest: "pos < length (q_orig q) \<Longrightarrow> capture q pos (length (q_orig q)) = Some v \<Longrightarrow>
    matches q [BindRest x] pos ps (ps(x \<mapsto> v))"
| dashed: "pos \<le> i \<Longrightarrow> i < length (q_url q) \<Longrightarrow> q_url q ! i = dash \<Longrightarrow>
    e = end_of_segment (q_url q) (Suc i) \<Longrightarrow> Suc i < e \<Longrightarrow> capture q (Suc i) e = Some v \<Longrightarrow>
    matches q p e (ps(x \<mapsto> v)) ps' \<Longrightarrow> matches q (BindAfterDash x # p) pos ps ps'"

inductive_cases matches_NilE: "matches q [] pos ps ps'"
inductive_cases matches_LitE: "matches q (Lit u # p) pos ps ps'"
inductive_cases matches_BindE: "matches q (Bind x # p) pos ps ps'"
inductive_cases matches_SuffixE: "matches q (BindSuffix x s # p) pos ps ps'"
inductive_cases matches_RestE: "matches q (BindRest x # p) pos ps ps'"
inductive_cases matches_DashE: "matches q (BindAfterDash x # p) pos ps ps'"

text \<open>Whether a path matches does not depend on the parameters bound so far.\<close>

lemma matches_any: "matches q p pos ps ps' \<Longrightarrow> \<exists>ps''. matches q p pos qs ps''"
proof (induction arbitrary: qs rule: matches.induct)
  case (bound e pos v p ps x ps')
  then obtain z where "matches q p e (qs(x \<mapsto> v)) z" by blast
  then show ?case using bound matches.bound by blast
next
  case (suffixed e pos s v p ps x ps')
  then obtain z where "matches q p e (qs(x \<mapsto> v)) z" by blast
  then show ?case using suffixed matches.suffixed by blast
next
  case (dashed pos i e v p ps x ps')
  then obtain z where "matches q p e (qs(x \<mapsto> v)) z" by blast
  then show ?case using dashed matches.dashed by blast
qed (blast intro: matches.intros)+

text \<open>A literal block matches like its characters one by one.\<close>

lemma matches_lits:
  "matches q (lits l @ p) pos ps ps' \<longleftrightarrow>
     label_at q pos l \<and> matches q p (pos + length l) ps ps'" if "pos + length l \<le> length (q_url q) \<or> l \<noteq> []"
  using that
proof (induction l arbitrary: pos)
  case Nil
  then show ?case by (simp add: label_at_def starts_with_def)
next
  case (Cons u l)
  have lab: "label_at q pos (u # l) \<longleftrightarrow> pos < length (q_url q) \<and> q_url q ! pos = u \<and> label_at q (Suc pos) l"
  proof (cases "pos < length (q_url q)")
    case True
    then show ?thesis by (auto simp: label_at_def starts_with_def Cons_nth_drop_Suc[symmetric])
  qed (simp add: label_at_def starts_with_def)
  have "matches q (lits (u # l) @ p) pos ps ps' \<longleftrightarrow>
      pos < length (q_url q) \<and> q_url q ! pos = u \<and> matches q (lits l @ p) (Suc pos) ps ps'"
    by (auto elim: matches_LitE intro: matches.literal)
  also have "\<dots> \<longleftrightarrow> pos < length (q_url q) \<and> q_url q ! pos = u \<and> label_at q (Suc pos) l \<and>
      matches q p (Suc pos + length l) ps ps'"
  proof (cases "pos < length (q_url q)")
    case True
    then show ?thesis using Cons.IH[of "Suc pos"] by (cases l) (auto simp: label_at_def starts_with_def)
  qed simp
  finally show ?case using lab by simp
qed

subsection \<open>The specification of a partial search\<close>

definition finds ::
  "query \<Rightarrow> (sym list \<Rightarrow> 'm handlers) \<Rightarrow> nat \<Rightarrow> route_params \<Rightarrow> 'm route_handler option \<times> route_params \<Rightarrow> bool"
  where
  "finds q T pos ps res \<longleftrightarrow>
     (case fst res of
        Some h \<Rightarrow> \<exists>p. matches q p pos ps (snd res) \<and> resolveHandler q (T p) = Some h
      | None \<Rightarrow> snd res = ps \<and> (\<forall>p ps'. matches q p pos ps ps' \<longrightarrow> resolveHandler q (T p) = None))"

lemma finds_Some: "finds q T pos ps (Some h, ps') \<longleftrightarrow> (\<exists>p. matches q p pos ps ps' \<and> resolveHandler q (T p) = Some h)"
  by (simp add: finds_def)

lemma finds_None: "finds q T pos ps (None, ps') \<longleftrightarrow>
    ps' = ps \<and> (\<forall>p ps'. matches q p pos ps ps' \<longrightarrow> resolveHandler q (T p) = None)"
  by (simp add: finds_def)

lemma resolve_nothing [simp]: "resolveHandler q [] = None"
  by (simp add: resolveHandler_def getHandler_def split: option.split)

definition T_static :: "(code_unit \<times> 'm route_node) list \<Rightarrow> sym list \<Rightarrow> 'm handlers" where
  "T_static sc p = (case p of Lit u # r \<Rightarrow> under (map_of sc u) p | _ \<Rightarrow> [])"

definition T_suffix :: "'m route_node list \<Rightarrow> sym list \<Rightarrow> 'm handlers" where
  "T_suffix scs p = (case p of BindSuffix x s # r \<Rightarrow>
     (case find (\<lambda>c. suffix c = Some s) scs of
        None \<Rightarrow> [] | Some c \<Rightarrow> if paramName c = Some x then slots c r else []) | _ \<Rightarrow> [])"

definition T_param :: "'m route_node option \<Rightarrow> sym list \<Rightarrow> 'm handlers" where
  "T_param pc p = (case p of Bind x # r \<Rightarrow>
     (case pc of None \<Rightarrow> [] | Some c \<Rightarrow> if paramName c = Some x then slots c r else []) | _ \<Rightarrow> [])"

definition T_greedy :: "'m route_node option \<Rightarrow> sym list \<Rightarrow> 'm handlers" where
  "T_greedy gc p = (case p of
       BindRest x # r \<Rightarrow> (case gc of None \<Rightarrow> [] | Some c \<Rightarrow>
         if kind c = GreedySuffixKind \<and> paramName c = Some x then slots c r else [])
     | BindAfterDash x # r \<Rightarrow> (case gc of None \<Rightarrow> [] | Some c \<Rightarrow>
         if kind c = GreedyPrefixKind \<and> paramName c = Some x then slots c r else [])
     | _ \<Rightarrow> [])"

lemmas T_defs = T_static_def T_suffix_def T_param_def T_greedy_def

text \<open>The four kinds of children partition the table below a node.\<close>

lemma slots_parts:
  assumes "p \<noteq> []"
  shows "resolveHandler q (slots (RouteNode k l pn sf sc pc scs gc hs) p) = None \<longleftrightarrow>
      resolveHandler q (T_static sc p) = None \<and> resolveHandler q (T_suffix scs p) = None \<and>
      resolveHandler q (T_param pc p) = None \<and> resolveHandler q (T_greedy gc p) = None"
    and "resolveHandler q (T p) = Some h \<Longrightarrow> T \<in> {T_static sc, T_suffix scs, T_param pc, T_greedy gc} \<Longrightarrow>
      resolveHandler q (slots (RouteNode k l pn sf sc pc scs gc hs) p) = Some h"
  using assms by (cases "(RouteNode k l pn sf sc pc scs gc hs, p)" rule: slots.cases;
      auto simp: T_defs slots_Lit)+

text \<open>A search below a binding: success is passed on, failure is undone.\<close>

lemma finds_restore:
  assumes "finds q T e (ps(x \<mapsto> v)) res"
  shows "case restore ps x res of
      (Some h, ps') \<Rightarrow> \<exists>p. matches q p e (ps(x \<mapsto> v)) ps' \<and> resolveHandler q (T p) = Some h
    | (None, ps') \<Rightarrow> ps' = ps \<and> (\<forall>p qs ps'. matches q p e qs ps' \<longrightarrow> resolveHandler q (T p) = None)"
proof (cases "(ps, x, res)" rule: restore.cases)
  case (1 ps x h ps')
  then show ?thesis using assms by (simp add: finds_Some)
next
  case (2 qs y ps')
  then have "ps' = ps(x \<mapsto> v)" "\<forall>p ps'. matches q p e (ps(x \<mapsto> v)) ps' \<longrightarrow> resolveHandler q (T p) = None"
    using assms by (simp_all add: finds_None)
  then show ?thesis using 2 matches_any[of q _ e _ _ "ps(x \<mapsto> v)"] by fastforce
qed

subsection \<open>Segments\<close>

lemma eos_ge: "pos \<le> end_of_segment url pos"
  by (simp add: end_of_segment_def)

lemma eos_end: "length url \<le> pos \<Longrightarrow> end_of_segment url pos = pos"
  by (simp add: end_of_segment_def)

lemma eos_slash: "i < length url \<Longrightarrow> url ! i = slash \<Longrightarrow> end_of_segment url i = i"
  by (simp add: end_of_segment_def Cons_nth_drop_Suc[symmetric])

lemma eos_step: "i < length url \<Longrightarrow> url ! i \<noteq> slash \<Longrightarrow> end_of_segment url i = end_of_segment url (Suc i)"
  by (simp add: end_of_segment_def Cons_nth_drop_Suc[symmetric])

lemma matches_end:
  "aligned q \<Longrightarrow> length (q_url q) \<le> pos \<Longrightarrow> matches q p pos ps ps' \<longleftrightarrow> p = [] \<and> ps' = ps"
  by (auto elim: matches.cases simp: eos_end aligned_def intro: matches.ended)

lemma matches_not_nil: "pos < length (q_url q) \<Longrightarrow> matches q p pos ps ps' \<Longrightarrow> p \<noteq> []"
  by (auto elim: matches_NilE)

subsection \<open>The children\<close>

lemma finds_try_static:
  assumes "pos < length (q_url q)" and "statics_ok ((u, c) # rest)"
    and same: "u = q_url q ! pos \<Longrightarrow> label_at q pos (label c) \<Longrightarrow>
      finds q (slots c) (pos + length (label c)) ps (search q c (pos + length (label c)) ps)"
    and other: "u \<noteq> q_url q ! pos \<Longrightarrow> finds q (T_static rest) pos ps (try_static q rest pos ps)"
  shows "finds q (T_static ((u, c) # rest)) pos ps (try_static q ((u, c) # rest) pos ps)"
proof (cases "u = q_url q ! pos")
  case True
  have lab: "label c = u # tl (label c)" using assms(2) by (cases "label c") (auto simp: statics_ok_def)
  let ?T = "T_static ((u, c) # rest)"
  have T: "?T (lits (label c) @ r) = slots c r" for r
  proof -
    have l: "Lit u # lits (tl (label c)) @ r = lits (label c) @ r"
      using lab by (metis append_Cons list.simps(9))
    have "?T (Lit u # lits (tl (label c)) @ r) = slot_under c (Lit u # lits (tl (label c)) @ r)"
      by (simp add: T_static_def under_def)
    then show ?thesis unfolding l by simp
  qed
  have M: "matches q (lits (label c) @ r) pos ps ps' \<longleftrightarrow>
      label_at q pos (label c) \<and> matches q r (pos + length (label c)) ps ps'" for r ps'
    by (rule matches_lits) (use lab in auto)
  have out: "?T p = []" if "matches q p pos ps ps'" "\<nexists>r. p = lits (label c) @ r" for p ps'
    using that True by (cases p; cases "hd p")
      (auto simp: T_static_def under_def slot_under_def starts_with_append elim: matches_LitE)
  show ?thesis
  proof (cases "label_at q pos (label c)")
    case lat: True
    obtain oh ps1 where res: "search q c (pos + length (label c)) ps = (oh, ps1)" by fastforce
    show ?thesis
    proof (cases oh)
      case None
      then have f: "ps1 = ps" "\<And>p ps'. matches q p (pos + length (label c)) ps ps' \<Longrightarrow> resolveHandler q (slots c p) = None"
        using same[OF True lat] res by (auto simp: finds_None)
      have "resolveHandler q (?T p) = None" if "matches q p pos ps ps'" for p ps'
        using that f(2) M T out[OF that] by (cases "\<exists>r. p = lits (label c) @ r") auto
      then show ?thesis using True lat res None f(1) by (simp add: finds_None)
    next
      case (Some h)
      then show ?thesis using same[OF True lat] res True lat M T by (auto simp: finds_Some) metis
    qed
  next
    case False
    have "resolveHandler q (?T p) = None" if "matches q p pos ps ps'" for p ps'
      using that False M out[OF that] by (cases "\<exists>r. p = lits (label c) @ r") auto
    then show ?thesis using True False by (simp add: finds_None)
  qed
next
  case False
  have "T_static ((u, c) # rest) p = T_static rest p" if "matches q p pos ps ps'" for p ps'
    using that False by (cases p; cases "hd p") (auto simp: T_static_def elim: matches_LitE)
  then show ?thesis
    using other[OF False] False by (auto simp: finds_def split: option.splits)
qed

lemma finds_try_suffixes:
  assumes "suffixes_ok (c # scs)"
    and here: "\<And>v. pos + length (suffix_of c) < end_of_segment (q_url q) pos \<Longrightarrow>
      capture q pos (end_of_segment (q_url q) pos - length (suffix_of c)) = Some v \<Longrightarrow>
      finds q (slots c) (end_of_segment (q_url q) pos) (ps(the (paramName c) \<mapsto> v))
        (search q c (end_of_segment (q_url q) pos) (ps(the (paramName c) \<mapsto> v)))"
    and others: "finds q (T_suffix scs) pos ps (try_suffixes q scs pos ps)"
  shows "finds q (T_suffix (c # scs)) pos ps (try_suffixes q (c # scs) pos ps)"
proof -
  let ?e = "end_of_segment (q_url q) pos" and ?s = "suffix_of c" and ?x = "the (paramName c)"
  have c: "suffix c = Some ?s" "paramName c = Some ?x" and c_new: "\<forall>d\<in>set scs. suffix d \<noteq> Some ?s"
    using assms(1) by (force simp: suffixes_ok_def suffix_of_def)+
  have T_here: "T_suffix (c # scs) (BindSuffix x ?s # r) = (if x = ?x then slots c r else [])" for x r
    using c by (simp add: T_suffix_def)
  have T_rest: "T_suffix (c # scs) p = T_suffix scs p" if "\<nexists>x r. p = BindSuffix x ?s # r" for p
    using that c by (cases p; cases "hd p") (auto simp: T_suffix_def)
  have T_drop: "T_suffix scs (BindSuffix x ?s # r) = []" for x r
    using c_new find_none[of "\<lambda>d. suffix d = Some ?s" scs] by (simp add: T_suffix_def)
  have skip: "finds q (T_suffix (c # scs)) pos ps (try_suffixes q scs pos ps)"
    if dead: "\<And>r ps'. matches q (BindSuffix ?x ?s # r) pos ps ps' \<Longrightarrow> resolveHandler q (slots c r) = None"
  proof -
    have "resolveHandler q (T_suffix (c # scs) p) = resolveHandler q (T_suffix scs p)" if "matches q p pos ps ps'" for p ps'
    proof (cases "\<exists>x r. p = BindSuffix x ?s # r")
      case True
      then show ?thesis using that dead by (auto simp: T_here T_drop)
    qed (simp add: T_rest)
    then show ?thesis using others by (auto simp: finds_def split: option.splits)
  qed
  show ?thesis
  proof (cases "pos + length ?s < ?e \<and> label_at q (?e - length ?s) ?s \<and> capture q pos (?e - length ?s) \<noteq> None")
    case False
    then have "\<And>r ps'. \<not> matches q (BindSuffix ?x ?s # r) pos ps ps'" by (auto elim: matches_SuffixE)
    then show ?thesis using skip False by (auto simp: Let_def split: option.splits)
  next
    case True
    then obtain v where v: "capture q pos (?e - length ?s) = Some v" by blast
    let ?r = "restore ps ?x (search q c ?e (ps(?x \<mapsto> v)))"
    have f: "case ?r of
        (Some h, ps') \<Rightarrow> \<exists>p. matches q p ?e (ps(?x \<mapsto> v)) ps' \<and> resolveHandler q (slots c p) = Some h
      | (None, ps') \<Rightarrow> ps' = ps \<and> (\<forall>p qs ps'. matches q p ?e qs ps' \<longrightarrow> resolveHandler q (slots c p) = None)"
      using True v by (intro finds_restore here) auto
    obtain oh ps1 where r: "?r = (oh, ps1)" by fastforce
    show ?thesis
    proof (cases oh)
      case None
      then have "ps1 = ps" "\<And>r ps'. matches q (BindSuffix ?x ?s # r) pos ps ps' \<Longrightarrow> resolveHandler q (slots c r) = None"
        using f r by (auto elim!: matches_SuffixE)
      then show ?thesis using skip True v r None by (simp add: Let_def)
    next
      case (Some h)
      then obtain p where p: "matches q p ?e (ps(?x \<mapsto> v)) ps1" "resolveHandler q (slots c p) = Some h"
        using f r by auto
      have "matches q (BindSuffix ?x ?s # p) pos ps ps1"
        using True v p(1) by (intro matches.suffixed[OF refl]) auto
      then show ?thesis using True v r Some p(2) T_here[of ?x p] by (auto simp: Let_def finds_Some)
    qed
  qed
qed

lemma finds_try_param:
  assumes "paramName c = Some x"
    and here: "\<And>v. pos < end_of_segment (q_url q) pos \<Longrightarrow>
      capture q pos (end_of_segment (q_url q) pos) = Some v \<Longrightarrow>
      finds q (slots c) (end_of_segment (q_url q) pos) (ps(x \<mapsto> v))
        (search q c (end_of_segment (q_url q) pos) (ps(x \<mapsto> v)))"
  shows "finds q (T_param (Some c)) pos ps (try_param q (Some c) pos ps)"
proof -
  let ?e = "end_of_segment (q_url q) pos"
  have T_here: "T_param (Some c) (Bind y # r) = (if y = x then slots c r else [])" for y r
    using assms(1) by (auto simp: T_param_def)
  have T_not: "T_param (Some c) p = []" if "\<nexists>y r. p = Bind y # r" for p
    using that by (cases p; cases "hd p") (auto simp: T_param_def)
  have fail: "finds q (T_param (Some c)) pos ps (None, ps)"
    if "\<And>r ps'. matches q (Bind x # r) pos ps ps' \<Longrightarrow> resolveHandler q (slots c r) = None"
  proof -
    have "resolveHandler q (T_param (Some c) p) = None" if "matches q p pos ps ps'" for p ps'
      using that \<open>\<And>r ps'. matches q (Bind x # r) pos ps ps' \<Longrightarrow> _\<close> T_not[of p]
      by (cases "\<exists>y r. p = Bind y # r") (auto simp: T_here)
    then show ?thesis by (simp add: finds_None)
  qed
  show ?thesis
  proof (cases "pos < ?e \<and> capture q pos ?e \<noteq> None")
    case False
    then have "\<And>r ps'. \<not> matches q (Bind x # r) pos ps ps'" by (auto elim: matches_BindE)
    then show ?thesis using fail False assms(1) by (auto simp: Let_def split: option.splits)
  next
    case True
    then obtain v where v: "capture q pos ?e = Some v" by blast
    let ?r = "restore ps x (search q c ?e (ps(x \<mapsto> v)))"
    have f: "case ?r of
        (Some h, ps') \<Rightarrow> \<exists>p. matches q p ?e (ps(x \<mapsto> v)) ps' \<and> resolveHandler q (slots c p) = Some h
      | (None, ps') \<Rightarrow> ps' = ps \<and> (\<forall>p qs ps'. matches q p ?e qs ps' \<longrightarrow> resolveHandler q (slots c p) = None)"
      using True v by (intro finds_restore here) auto
    obtain oh ps1 where r: "?r = (oh, ps1)" by fastforce
    show ?thesis
    proof (cases oh)
      case None
      then have "ps1 = ps" "\<And>r ps'. matches q (Bind x # r) pos ps ps' \<Longrightarrow> resolveHandler q (slots c r) = None"
        using f r by (auto elim!: matches_BindE)
      then show ?thesis using fail True v r None assms(1) by (simp add: Let_def)
    next
      case (Some h)
      then obtain p where p: "matches q p ?e (ps(x \<mapsto> v)) ps1" "resolveHandler q (slots c p) = Some h"
        using f r by auto
      have "matches q (Bind x # p) pos ps ps1" using True v p(1) by (intro matches.bound[OF refl]) auto
      then show ?thesis using True v r Some p(2) T_here[of x p] assms(1) by (auto simp: Let_def finds_Some)
    qed
  qed
qed

subsection \<open>The greedy pass\<close>

text \<open>A split of the greedy region at the dash \<open>i\<close>, with a value that decodes.\<close>

definition splits_at :: "query \<Rightarrow> nat \<Rightarrow> nat \<Rightarrow> jstring \<Rightarrow> bool" where
  "splits_at q i e v \<longleftrightarrow> i < length (q_url q) \<and> q_url q ! i = dash \<and>
     e = end_of_segment (q_url q) (Suc i) \<and> Suc i < e \<and> capture q (Suc i) e = Some v"

definition dead_end :: "query \<Rightarrow> 'm route_node \<Rightarrow> nat \<Rightarrow> bool" where
  "dead_end q g e \<longleftrightarrow> (\<forall>p qs ps'. matches q p e qs ps' \<longrightarrow> resolveHandler q (slots g p) = None)"

text \<open>The gap that ends at \<open>e\<close> needs no further probe left of \<open>j\<close>.\<close>

definition settled_gap :: "query \<Rightarrow> 'm route_node \<Rightarrow> nat \<Rightarrow> nat \<Rightarrow> bool" where
  "settled_gap q g j e \<longleftrightarrow> (\<forall>i v. i < j \<and> splits_at q i e v \<longrightarrow> dead_end q g e)"

definition gaps_ok ::
  "query \<Rightarrow> 'm route_node \<Rightarrow> jstring \<Rightarrow> nat \<Rightarrow> nat \<Rightarrow> route_params \<Rightarrow>
   'm route_handler option \<times> route_params \<Rightarrow> bool" where
  "gaps_ok q g x pos j ps res \<longleftrightarrow>
     (case fst res of
        Some h \<Rightarrow> \<exists>i e v p. pos \<le> i \<and> i < j \<and> splits_at q i e v \<and> matches q p e (ps(x \<mapsto> v)) (snd res) \<and>
          resolveHandler q (slots g p) = Some h
      | None \<Rightarrow> snd res = ps \<and> (\<forall>i e v. pos \<le> i \<and> i < j \<and> splits_at q i e v \<longrightarrow> dead_end q g e))"

lemma slice_split:
  assumes "a \<le> k" and "k < b" and "k < length xs"
  shows "slice a b xs = slice a k xs @ xs ! k # slice (Suc k) b xs"
proof -
  have "b - a = (k - a) + (b - k)" "b - k = Suc (b - Suc k)" using assms by auto
  then have "slice a b xs = take (k - a) (List.drop a xs) @ take (Suc (b - Suc k)) (List.drop k xs)"
    using assms(1) unfolding slice_def by (metis take_add drop_drop le_add_diff_inverse2)
  then show ?thesis using assms(3) by (simp add: slice_def Cons_nth_drop_Suc[symmetric])
qed

text \<open>If the rightmost capture of a gap does not decode, no capture of that gap does.\<close>

lemma capture_suffix:
  assumes "aligned q" and "i < k" and "Suc k < e" and "q_url q ! k = dash" and "k < length (q_url q)"
    and "capture q (Suc i) e = Some v"
  shows "capture q (Suc k) e \<noteq> None"
proof -
  have "q_orig q ! k = dash" "k < length (q_orig q)" using assms(1,4,5) by (auto simp: aligned_def)
  then have "slice (Suc i) e (q_orig q) =
      slice (Suc i) k (q_orig q) @ dash # slice (Suc k) e (q_orig q)"
    using assms(2,3) slice_split[of "Suc i" k e "q_orig q"] by simp
  then show ?thesis
    using decode_suffix[OF separator_dash, of "slice (Suc i) k (q_orig q)" "slice (Suc k) e (q_orig q)"] assms(6)
    by (auto simp: capture_def)
qed

lemma gaps_step:
  assumes al: "aligned q" and i: "i < length (q_url q)" and pos: "pos \<le> i"
    and gap: "ns = end_of_segment (q_url q) (Suc i)"
    and settled: "le = Some ns \<Longrightarrow> settled_gap q g (Suc i) ns" and far: "\<And>e. le = Some e \<Longrightarrow> ns \<le> e"
    and here: "\<And>v. finds q (slots g) ns (ps(x \<mapsto> v)) (search q g ns (ps(x \<mapsto> v)))"
    and left: "\<And>ns' le'. ns' = end_of_segment (q_url q) i \<Longrightarrow>
      (le' = Some ns' \<Longrightarrow> settled_gap q g i ns') \<Longrightarrow> (\<And>e. le' = Some e \<Longrightarrow> ns' \<le> e) \<Longrightarrow>
      gaps_ok q g x pos i ps (greedy_gaps q g x i ns' le' pos ps)"
  shows "gaps_ok q g x pos (Suc i) ps (greedy_gaps q g x (Suc i) ns le pos ps)"
proof -
  have more: "gaps_ok q g x pos (Suc i) ps r"
    if "gaps_ok q g x pos i ps r" "\<And>e v. splits_at q i e v \<Longrightarrow> dead_end q g e" for r
    using that unfolding gaps_ok_def by (fastforce simp: less_Suc_eq split: option.splits)
  have mono: "settled_gap q g (Suc i) e \<Longrightarrow> settled_gap q g i e" for e
    by (auto simp: settled_gap_def)
  have only: "splits_at q i e v \<Longrightarrow> q_url q ! i = dash \<and> e = ns \<and> Suc i < ns \<and> capture q (Suc i) ns = Some v" for e v
    using gap by (auto simp: splits_at_def)
  show ?thesis
  proof (cases "q_url q ! i = slash")
    case True
    have "ns > i" using gap eos_ge[of "Suc i" "q_url q"] by simp
    then have "gaps_ok q g x pos i ps (greedy_gaps q g x i i le pos ps)"
      using eos_slash[OF i True] far by (intro left) (auto dest: far)
    then have "gaps_ok q g x pos (Suc i) ps (greedy_gaps q g x i i le pos ps)"
      by (rule more) (use only True in auto)
    then show ?thesis using True pos by simp
  next
    case not_slash: False
    have ns: "ns = end_of_segment (q_url q) i" using gap eos_step[OF i not_slash] by simp
    have skip: "gaps_ok q g x pos i ps (greedy_gaps q g x i ns le pos ps)"
      using ns settled far mono by (intro left) auto
    have mark: "gaps_ok q g x pos i ps (greedy_gaps q g x i ns (Some ns) pos ps)" if "settled_gap q g i ns"
      using ns that by (intro left) auto
    consider (other) "q_url q ! i \<noteq> dash" | (probed) "q_url q ! i = dash" "le = Some ns"
      | (empty) "q_url q ! i = dash" "le \<noteq> Some ns" "ns \<le> Suc i"
      | (bad) "q_url q ! i = dash" "le \<noteq> Some ns" "Suc i < ns" "capture q (Suc i) ns = None"
      | (good) v where "q_url q ! i = dash" "le \<noteq> Some ns" "Suc i < ns" "capture q (Suc i) ns = Some v"
      by fastforce
    then show ?thesis
    proof cases
      case other
      have "gaps_ok q g x pos (Suc i) ps (greedy_gaps q g x i ns le pos ps)"
        by (rule more[OF skip]) (use other only in auto)
      then show ?thesis using other pos not_slash by simp
    next
      case probed
      have "dead_end q g e" if "splits_at q i e v" for e v
        using settled[OF probed(2)] that only[OF that] by (auto simp: settled_gap_def)
      then have "gaps_ok q g x pos (Suc i) ps (greedy_gaps q g x i ns le pos ps)"
        by (rule more[OF skip])
      then show ?thesis using pos probed not_slash by simp
    next
      case empty
      have "gaps_ok q g x pos (Suc i) ps (greedy_gaps q g x i ns le pos ps)"
        by (rule more[OF skip]) (use empty only in fastforce)
      then show ?thesis using empty pos not_slash by simp
    next
      case bad
      have "settled_gap q g i ns"
        using bad capture_suffix[OF al _ bad(3,1) i] by (auto simp: settled_gap_def splits_at_def)
      then have "gaps_ok q g x pos (Suc i) ps (greedy_gaps q g x i ns (Some ns) pos ps)"
        by (rule more[OF mark]) (use bad only in fastforce)
      then show ?thesis using pos not_slash bad by simp
    next
      case good
      let ?r = "restore ps x (search q g ns (ps(x \<mapsto> v)))"
      have f: "case ?r of
          (Some h, ps') \<Rightarrow> \<exists>p. matches q p ns (ps(x \<mapsto> v)) ps' \<and> resolveHandler q (slots g p) = Some h
        | (None, ps') \<Rightarrow> ps' = ps \<and> (\<forall>p qs ps'. matches q p ns qs ps' \<longrightarrow> resolveHandler q (slots g p) = None)"
        by (rule finds_restore[OF here])
      obtain oh ps1 where r: "?r = (oh, ps1)" by fastforce
      show ?thesis
      proof (cases oh)
        case None
        then have d: "ps1 = ps" "dead_end q g ns" using f r by (auto simp: dead_end_def)
        then have "settled_gap q g i ns" by (simp add: settled_gap_def)
        then have "gaps_ok q g x pos (Suc i) ps (greedy_gaps q g x i ns (Some ns) pos ps)"
          by (rule more[OF mark]) (use only d in auto)
        then show ?thesis using pos not_slash good r None d by simp
      next
        case (Some h)
        moreover have "splits_at q i ns v" using good i gap by (simp add: splits_at_def)
        ultimately show ?thesis
          using f r pos not_slash good unfolding gaps_ok_def by auto
      qed
    qed
  qed
qed

lemma finds_try_greedy:
  assumes al: "aligned q" and pos: "pos < length (q_url q)" and g: "greedy_ok g"
    and gaps: "\<And>x. kind g = GreedyPrefixKind \<Longrightarrow> paramName g = Some x \<Longrightarrow>
      gaps_ok q g x pos (length (q_url q)) ps
        (greedy_gaps q g x (length (q_url q)) (length (q_url q)) None pos ps)"
  shows "finds q (T_greedy (Some g)) pos ps (try_greedy q (Some g) pos ps)"
proof -
  obtain x where x: "paramName g = Some x" using g by (auto simp: greedy_ok_def)
  have none: "finds q (T_greedy (Some g)) pos ps (None, ps)"
    if "\<And>p ps'. matches q p pos ps ps' \<Longrightarrow> resolveHandler q (T_greedy (Some g) p) = None"
    using that by (simp add: finds_None)
  show ?thesis
  proof (cases "kind g = GreedySuffixKind")
    case gs: True
    have T_here: "T_greedy (Some g) [BindRest x] = handlers g" using gs x by (simp add: T_greedy_def)
    have T: "T_greedy (Some g) p = []" if "matches q p pos ps ps'" "p \<noteq> [BindRest x]" for p ps'
      using that gs x by (cases p; cases "hd p") (auto simp: T_greedy_def elim!: matches_RestE)
    show ?thesis
    proof (cases "capture q pos (length (q_orig q))")
      case None
      then have "\<And>ps'. \<not> matches q [BindRest x] pos ps ps'" by (auto elim!: matches_RestE)
      then have "finds q (T_greedy (Some g)) pos ps (None, ps)" by (intro none) (metis T resolve_nothing)
      then show ?thesis using None gs x by simp
    next
      case (Some v)
      have len: "pos < length (q_orig q)" using al pos by (simp add: aligned_def)
      have m: "matches q [BindRest x] pos ps (ps(x \<mapsto> v))" using len Some by (rule matches.rest)
      show ?thesis
      proof (cases "resolveHandler q (handlers g)")
        case None
        then have "finds q (T_greedy (Some g)) pos ps (None, ps)"
          by (intro none) (metis T T_here resolve_nothing)
        then show ?thesis using None Some len gs x by simp
      next
        case (Some h)
        then show ?thesis using m T_here \<open>capture _ _ _ = Some v\<close> len gs x by (auto simp: finds_Some)
      qed
    qed
  next
    case False
    then have gp: "kind g = GreedyPrefixKind" using g by (auto simp: greedy_ok_def)
    have T: "T_greedy (Some g) (BindAfterDash y # r) = (if y = x then slots g r else [])" for y r
      using gp x by (auto simp: T_greedy_def)
    have T_not: "T_greedy (Some g) p = []" if "\<nexists>r. p = BindAfterDash x # r" for p
      using that gp x by (cases p; cases "hd p") (auto simp: T_greedy_def)
    show ?thesis
    proof (cases "dash \<in> set (List.drop pos (q_url q))")
      case False
      have "\<not> (pos \<le> i \<and> i < length (q_url q) \<and> q_url q ! i = dash)" for i
        using False by (metis drop_drop in_set_dropD le_add_diff_inverse nth_via_drop Cons_nth_drop_Suc list.set_intros(1) set_drop_subset_set_drop subsetD)
      then have "\<And>r ps'. \<not> matches q (BindAfterDash x # r) pos ps ps'" by (auto elim!: matches_DashE)
      then have "finds q (T_greedy (Some g)) pos ps (None, ps)" by (intro none) (metis T_not resolve_nothing)
      then show ?thesis using False gp x by simp
    next
      case True
      obtain oh ps1 where r: "greedy_gaps q g x (length (q_url q)) (length (q_url q)) None pos ps = (oh, ps1)"
        by fastforce
      have gk: "gaps_ok q g x pos (length (q_url q)) ps (oh, ps1)" using gaps[OF gp x] r by simp
      have "finds q (T_greedy (Some g)) pos ps (oh, ps1)"
      proof (cases oh)
        case None
        then have dead: "ps1 = ps" "\<And>i e v. pos \<le> i \<Longrightarrow> splits_at q i e v \<Longrightarrow> dead_end q g e"
          using gk by (auto simp: gaps_ok_def splits_at_def)
        have "resolveHandler q (T_greedy (Some g) p) = None" if "matches q p pos ps ps'" for p ps'
        proof (cases "\<exists>r. p = BindAfterDash x # r")
          case True
          then obtain r where p: "p = BindAfterDash x # r" by blast
          then obtain i e v where "pos \<le> i" "splits_at q i e v" "matches q r e (ps(x \<mapsto> v)) ps'"
            using \<open>matches q p pos ps ps'\<close> by (auto elim!: matches_DashE simp: splits_at_def)
          then have "resolveHandler q (slots g r) = None" using dead(2) unfolding dead_end_def by blast
          then show ?thesis using p T by simp
        qed (simp add: T_not)
        then show ?thesis using None dead(1) by (simp add: finds_None)
      next
        case (Some h)
        then obtain i e v p where s: "pos \<le> i" "splits_at q i e v" "matches q p e (ps(x \<mapsto> v)) ps1"
          "resolveHandler q (slots g p) = Some h"
          using gk by (auto simp: gaps_ok_def)
        then have "matches q (BindAfterDash x # p) pos ps ps1"
          by (intro matches.dashed[of pos i]) (auto simp: splits_at_def)
        then show ?thesis using Some s(4) T by (auto simp: finds_Some)
      qed
      then show ?thesis using True gp x r by simp
    qed
  qed
qed

subsection \<open>The whole search\<close>

lemma finds_search_node:
  assumes "aligned q"
    and st: "pos < length (q_url q) \<Longrightarrow> finds q (T_static sc) pos ps (try_static q sc pos ps)"
    and su: "pos < length (q_url q) \<Longrightarrow> finds q (T_suffix scs) pos ps (try_suffixes q scs pos ps)"
    and pa: "pos < length (q_url q) \<Longrightarrow> finds q (T_param pc) pos ps (try_param q pc pos ps)"
    and gr: "pos < length (q_url q) \<Longrightarrow> finds q (T_greedy gc) pos ps (try_greedy q gc pos ps)"
  shows "finds q (slots (RouteNode k l pn sf sc pc scs gc hs)) pos ps
    (search q (RouteNode k l pn sf sc pc scs gc hs) pos ps)"
proof (cases "length (q_url q) \<le> pos")
  case True
  then show ?thesis
    using matches_end[OF assms(1)] by (cases "resolveHandler q hs") (auto simp: finds_def)
next
  case False
  let ?n = "RouteNode k l pn sf sc pc scs gc hs"
  have pos: "pos < length (q_url q)" using False by simp
  have up: "finds q (slots ?n) pos ps (Some h, ps')" if found: "finds q T pos ps (Some h, ps')"
    and part: "T \<in> {T_static sc, T_suffix scs, T_param pc, T_greedy gc}" for T h ps'
  proof -
    obtain p where p: "matches q p pos ps ps'" "resolveHandler q (T p) = Some h"
      using found by (auto simp: finds_Some)
    then have "resolveHandler q (slots ?n p) = Some h"
      using slots_parts(2)[OF matches_not_nil[OF pos p(1)] _ part] by blast
    then show ?thesis using p(1) by (auto simp: finds_Some)
  qed
  obtain o1 p1 where r1: "try_static q sc pos ps = (o1, p1)" by fastforce
  obtain o2 p2 where r2: "try_suffixes q scs pos ps = (o2, p2)" by fastforce
  obtain o3 p3 where r3: "try_param q pc pos ps = (o3, p3)" by fastforce
  obtain o4 p4 where r4: "try_greedy q gc pos ps = (o4, p4)" by fastforce
  have none: "fo = None \<Longrightarrow> finds q T pos ps (fo, p') \<Longrightarrow> p' = ps" for fo T p'
    by (simp add: finds_None)
  note f = st[OF pos] su[OF pos] pa[OF pos] gr[OF pos]
  show ?thesis
  proof (cases "o1 = None \<and> o2 = None \<and> o3 = None \<and> o4 = None")
    case True
    then have "p1 = ps" "p2 = ps" "p3 = ps" "p4 = ps"
      using f r1 r2 r3 r4 by (auto simp: finds_None)
    moreover have "resolveHandler q (slots ?n p) = None" if "matches q p pos ps ps'" for p ps'
      unfolding slots_parts(1)[OF matches_not_nil[OF pos that]]
      using f r1 r2 r3 r4 True that by (auto simp: finds_None)
    ultimately show ?thesis using False True r1 r2 r3 r4 by (simp add: finds_None)
  next
    case some: False
    show ?thesis
    proof (cases o1)
      case s: (Some h)
      then show ?thesis using False r1 up[of "T_static sc"] f(1) by simp
    next
      case n1: None
      then have e1: "p1 = ps" using f(1) r1 none by auto
      show ?thesis
      proof (cases o2)
        case s: (Some h)
        then show ?thesis using False r1 r2 n1 e1 up[of "T_suffix scs"] f(2) by simp
      next
        case n2: None
        then have e2: "p2 = ps" using f(2) r2 none by auto
        show ?thesis
        proof (cases o3)
          case s: (Some h)
          then show ?thesis using False r1 r2 r3 n1 e1 n2 e2 up[of "T_param pc"] f(3) by simp
        next
          case n3: None
          then have e3: "p3 = ps" using f(3) r3 none by auto
          obtain h where "o4 = Some h" using some n1 n2 n3 by auto
          then show ?thesis using False r1 r2 r3 r4 n1 e1 n2 e2 n3 e3 up[of "T_greedy gc"] f(4) by simp
        qed
      qed
    qed
  qed
qed

text \<open>The children's searches meet their specification at every position.\<close>

abbreviation sound_at :: "query \<Rightarrow> 'm route_node \<Rightarrow> bool" where
  "sound_at q c \<equiv> \<forall>pos ps. finds q (slots c) pos ps (search q c pos ps)"

lemma finds_statics:
  "\<forall>p\<in>set sc. sound_at q (snd p) \<Longrightarrow> statics_ok sc \<Longrightarrow> pos < length (q_url q) \<Longrightarrow>
     finds q (T_static sc) pos ps (try_static q sc pos ps)"
proof (induction sc)
  case Nil
  then show ?case by (auto simp: finds_None T_static_def under_def split: list.splits sym.splits)
next
  case (Cons a sc)
  obtain u c where a: "a = (u, c)" by fastforce
  have "statics_ok sc" using Cons.prems(2) by (auto simp: statics_ok_def)
  then have "finds q (T_static sc) pos ps (try_static q sc pos ps)" using Cons by simp
  then show ?case using Cons.prems a by (intro finds_try_static[of pos q u c sc ps, folded a]) auto
qed

lemma finds_suffixes:
  "\<forall>c\<in>set scs. sound_at q c \<Longrightarrow> suffixes_ok scs \<Longrightarrow> finds q (T_suffix scs) pos ps (try_suffixes q scs pos ps)"
proof (induction scs)
  case Nil
  then show ?case by (auto simp: finds_None T_suffix_def split: list.splits sym.splits)
next
  case (Cons c scs)
  have "suffixes_ok scs" using Cons.prems(2) by (auto simp: suffixes_ok_def)
  then have "finds q (T_suffix scs) pos ps (try_suffixes q scs pos ps)" using Cons by simp
  then show ?case using Cons.prems by (intro finds_try_suffixes) auto
qed

lemma gaps_all:
  assumes "aligned q" and "sound_at q g"
  shows "j \<le> length (q_url q) \<Longrightarrow> ns = end_of_segment (q_url q) j \<Longrightarrow>
    (le = Some ns \<Longrightarrow> settled_gap q g j ns) \<Longrightarrow> (\<And>e. le = Some e \<Longrightarrow> ns \<le> e) \<Longrightarrow>
    gaps_ok q g x pos j ps (greedy_gaps q g x j ns le pos ps)"
proof (induction j arbitrary: ns le)
  case 0
  then show ?case by (simp add: gaps_ok_def)
next
  case (Suc i)
  show ?case
  proof (cases "i < pos")
    case True
    then show ?thesis by (auto simp: gaps_ok_def)
  next
    case False
    show ?thesis
    proof (rule gaps_step[OF assms(1) _ _ Suc.prems(2)])
      show "i < length (q_url q)" "pos \<le> i" using Suc.prems(1) False by auto
      show "finds q (slots g) ns (ps(x \<mapsto> v)) (search q g ns (ps(x \<mapsto> v)))" for v using assms(2) by blast
      show "gaps_ok q g x pos i ps (greedy_gaps q g x i ns' le' pos ps)"
        if "ns' = end_of_segment (q_url q) i" "le' = Some ns' \<Longrightarrow> settled_gap q g i ns'"
          "\<And>e. le' = Some e \<Longrightarrow> ns' \<le> e" for ns' le'
        using Suc.IH Suc.prems(1) that by simp
    qed (use Suc.prems in auto)
  qed
qed

lemma search_finds:
  assumes "aligned q"
  shows "wf_node n \<Longrightarrow> sound_at q n"
proof (induction n)
  case (RouteNode k l pn sf sc pc scs gc hs)
  have sc: "\<forall>p\<in>set sc. sound_at q (snd p)"
  proof
    fix p assume p: "p \<in> set sc"
    then have "wf_node (snd p)" using RouteNode.prems by simp
    then show "sound_at q (snd p)" using RouteNode.IH(1)[OF p] by (cases p) simp
  qed
  have scs: "\<forall>c\<in>set scs. sound_at q c" using RouteNode by simp
  have pc: "sound_at q c \<and> paramName c \<noteq> None" if "pc = Some c" for c using RouteNode that by simp
  have gc: "sound_at q c \<and> greedy_ok c" if "gc = Some c" for c using RouteNode that by simp
  show ?case
  proof (intro allI finds_search_node[OF assms])
    fix pos ps assume pos: "pos < length (q_url q)"
    show "finds q (T_static sc) pos ps (try_static q sc pos ps)"
      using finds_statics[OF sc _ pos] RouteNode.prems by simp
    show "finds q (T_suffix scs) pos ps (try_suffixes q scs pos ps)"
      using finds_suffixes[OF scs] RouteNode.prems by simp
    show "finds q (T_param pc) pos ps (try_param q pc pos ps)"
    proof (cases pc)
      case None
      then show ?thesis by (auto simp: finds_None T_param_def split: list.splits sym.splits)
    next
      case (Some c)
      then obtain x where "paramName c = Some x" using pc by auto
      then show ?thesis using finds_try_param[of c x] pc[OF Some] Some by simp
    qed
    show "finds q (T_greedy gc) pos ps (try_greedy q gc pos ps)"
    proof (cases gc)
      case None
      then show ?thesis by (auto simp: finds_None T_greedy_def split: list.splits sym.splits)
    next
      case (Some g)
      have "gaps_ok q g x pos (length (q_url q)) ps
          (greedy_gaps q g x (length (q_url q)) (length (q_url q)) None pos ps)" for x
        using gc[OF Some] by (intro gaps_all[OF assms]) (auto simp: eos_end)
      then show ?thesis using finds_try_greedy[OF assms pos] gc[OF Some] Some by blast
    qed
  qed
qed

subsection \<open>The router\<close>

text \<open>No lower-case form contains a dash that was not there.\<close>

definition keeps_dash :: "(jstring \<Rightarrow> jstring) \<Rightarrow> bool" where
  "keeps_dash lower \<longleftrightarrow> (\<forall>s. length (lower s) = length s \<and> dash \<in> set (lower s) \<longrightarrow> lower s = s)"

lemma foldCase_aligned:
  "length (foldCase lower s) = length s"
  "keeps_dash lower \<Longrightarrow> list_all2 (\<lambda>a b. a = dash \<longrightarrow> b = dash) (foldCase lower s) s"
proof -
  have len: "length (fold_point lower cp) = length cp" for cp by (simp add: fold_point_def Let_def)
  have "length (concat (map (fold_point lower) cps)) = length (concat cps)" for cps
    by (induction cps) (auto simp: len)
  from this[of "code_points s"] show "length (foldCase lower s) = length s" by (simp add: foldCase_def)
  assume k: "keeps_dash lower"
  have pt: "list_all2 (\<lambda>a b. a = dash \<longrightarrow> b = dash) (fold_point lower cp) cp" for cp
  proof (cases "fold_point lower cp = cp")
    case False
    then have "length (lower cp) = length cp" "lower cp \<noteq> cp" "fold_point lower cp = lower cp"
      by (auto simp: fold_point_def Let_def split: if_splits)
    then have "dash \<notin> set (fold_point lower cp)" using k by (auto simp: keeps_dash_def)
    then show ?thesis by (simp add: list_all2_conv_all_nth len) (metis len nth_mem)
  qed (simp add: list.rel_refl)
  have "list_all2 (\<lambda>a b. a = dash \<longrightarrow> b = dash) (concat (map (fold_point lower) cps)) (concat cps)" for cps
    by (induction cps) (auto intro: list_all2_appendI pt)
  from this[of "code_points s"]
  show "list_all2 (\<lambda>a b. a = dash \<longrightarrow> b = dash) (foldCase lower s) s" by (simp add: foldCase_def)
qed

lemma lookup_aligned:
  assumes "normalizeForLookup lower r path = Some nm" and "caseSensitive r \<or> keeps_dash lower"
  shows "aligned (query_for r nm m v)"
  using assms foldCase_aligned[of lower "snd nm"]
  by (auto simp: normalizeForLookup_def Let_def aligned_def query_for_def list_all2_conv_all_nth
      split: if_splits)

inductive built :: "(jstring \<Rightarrow> jstring) \<Rightarrow> 'm rad_router \<Rightarrow> bool" for lower where
  created: "built lower (new_router opt)"
| registered: "built lower r \<Longrightarrow> built lower (fst (addRoute lower m path mws v r))"
| used: "built lower r \<Longrightarrow> built lower (use mw r)"
| cleared: "built lower r \<Longrightarrow> built lower (clear_routes keep r)"

lemma addRoute_updates:
  assumes "parsePath (normalizePath lower r path True) = Inr cs" and "wf_node (root r)"
  shows "updates (handler_key m v) (addHandler m mws v) (sym_path cs) (root r)
    (root (fst (addRoute lower m path mws v r)), snd (addRoute lower m path mws v r))"
  using insertChunks_updates[OF assms(2), of m v mws cs path] assms(1) by (simp add: addRoute_def Let_def)

lemma built_wf: "built lower r \<Longrightarrow> wf_node (root r)"
proof (induction rule: built.induct)
  case (registered r m path mws v)
  show ?case
  proof (cases "parsePath (normalizePath lower r path True)")
    case (Inl e)
    then show ?thesis using registered by (simp add: addRoute_def)
  next
    case (Inr cs)
    then show ?thesis using addRoute_updates[OF Inr registered.IH] by (simp add: updates_def)
  qed
qed (simp_all add: new_router_def use_def clear_routes_def)

text \<open>C8: registration is a table update.  In a router built by any sequence of operations, a
  registration that returns has found its slot free and adds exactly that handler at exactly that
  path, every other path keeping its handlers; one that throws (a malformed path, a conflict, a
  duplicate) changes no path's handlers, although it may have split nodes on the way.\<close>

theorem registration_updates_table:
  assumes "built lower r"
  shows "case snd (addRoute lower m path mws v r) of
      None \<Rightarrow> \<exists>cs. parsePath (normalizePath lower r path True) = Inr cs \<and>
        map_of (slots (root r) (sym_path cs)) (handler_key m v) = None \<and>
        slots (root (fst (addRoute lower m path mws v r))) =
          (slots (root r))(sym_path cs := addHandler m mws v (slots (root r) (sym_path cs)))
    | Some e \<Rightarrow> slots (root (fst (addRoute lower m path mws v r))) = slots (root r)"
proof (cases "parsePath (normalizePath lower r path True)")
  case (Inl e)
  then show ?thesis by (simp add: addRoute_def)
next
  case (Inr cs)
  then show ?thesis
    using addRoute_updates[OF Inr built_wf[OF assms], of m v mws] by (auto simp: updates_def split: option.splits)
qed

definition sample_router :: "nat rad_router" where
  "sample_router = fst (addRoute id GET (js ''/u/:id:'') [1] None
     (new_router \<lparr>ro_defaultVersion = None, ro_caseSensitive = None, ro_ignoreTrailingSlash = None\<rparr>))"

lemma sample_router_built: "built id sample_router"
  unfolding sample_router_def by (intro built.intros)

theorem registration_updates_table_witness:
  "case snd (addRoute id GET (js ''/u/me'') [2] None sample_router) of
     None \<Rightarrow> slots (root (fst (addRoute id GET (js ''/u/me'') [2] None sample_router))) \<noteq> slots (root sample_router)
   | Some e \<Rightarrow> False"
proof -
  have ok: "snd (addRoute id GET (js ''/u/me'') [2] None sample_router) = None" by code_simp
  then obtain cs where cs: "map_of (slots (root sample_router) (sym_path cs)) (handler_key GET None) = None"
    "slots (root (fst (addRoute id GET (js ''/u/me'') [2] None sample_router))) =
      (slots (root sample_router))(sym_path cs := addHandler GET [2] None (slots (root sample_router) (sym_path cs)))"
    using registration_updates_table[OF sample_router_built,
        where m = GET and path = "js ''/u/me''" and mws = "[2]" and v = None] by auto
  have "map_of (addHandler GET [2] None (slots (root sample_router) (sym_path cs))) (handler_key GET None) \<noteq> None"
    by (simp add: addHandler_def map_of_update)
  then have "slots (root (fst (addRoute id GET (js ''/u/me'') [2] None sample_router))) (sym_path cs) \<noteq>
      slots (root sample_router) (sym_path cs)"
    using cs by auto
  then show ?thesis using ok by auto
qed

text \<open>C2: lookup is exact.  On any built router, \<open>find\<close> answers with a route exactly when some
  registered path matches the request and has a handler for the method and version (exact version,
  then the default one, then the unversioned slot); the captured parameters are those of such a
  match, with nothing left over from abandoned branches, and the chain is the global middlewares
  followed by the route's.\<close>

theorem find_route_exact:
  assumes "built lower r" and "caseSensitive r \<or> keeps_dash lower"
    and "normalizeForLookup lower r path = Some nm"
  shows "case find_route lower m path v r of
      Some res \<Rightarrow> \<exists>p h. matches (query_for r nm m v) p 0 Map.empty (rm_params res) \<and>
        resolveHandler (query_for r nm m v) (slots (root r) p) = Some h \<and>
        rm_middlewares res = globalMiddlewares r @ middlewares h
    | None \<Rightarrow> \<forall>p ps. matches (query_for r nm m v) p 0 Map.empty ps \<longrightarrow>
        resolveHandler (query_for r nm m v) (slots (root r) p) = None"
proof -
  have "finds (query_for r nm m v) (slots (root r)) 0 Map.empty (search (query_for r nm m v) (root r) 0 Map.empty)"
    using search_finds[OF lookup_aligned[OF assms(3,2)] built_wf[OF assms(1)]] by blast
  then show ?thesis
    using assms(3) by (auto simp: find_route_def finds_def split: option.splits prod.splits)
qed

theorem find_route_exact_witness:
  "\<exists>res. find_route id GET (js ''/u/a%2Fb/'') None sample_router = Some res \<and>
     (\<exists>p h. matches (query_for sample_router (js ''/u/a%2Fb'', js ''/u/a%2Fb'') GET None) p 0 Map.empty (rm_params res) \<and>
       resolveHandler (query_for sample_router (js ''/u/a%2Fb'', js ''/u/a%2Fb'') GET None)
         (slots (root sample_router) p) = Some h)"
proof -
  have n: "normalizeForLookup id sample_router (js ''/u/a%2Fb/'') = Some (js ''/u/a%2Fb'', js ''/u/a%2Fb'')"
    by code_simp
  have c: "caseSensitive sample_router" by code_simp
  have f: "find_route id GET (js ''/u/a%2Fb/'') None sample_router \<noteq> None" by code_simp
  then show ?thesis
    using find_route_exact[OF sample_router_built _ n, of GET None] c by (auto split: option.splits)
qed

text \<open>C30: \<open>allowedMethods\<close> lists exactly the methods for which \<open>find\<close> matches the path at the
  version, each once and in declaration order.\<close>

theorem allowedMethods_exact:
  "set (allowedMethods lower path v r) = {m. find_route lower m path v r \<noteq> None} \<and>
   sorted_wrt (<) (allowedMethods lower path v r)"
proof
  have all: "set ALL_HTTP_METHODS = UNIV"
  proof -
    have "m \<in> set ALL_HTTP_METHODS" for m by (cases m) (simp_all add: ALL_HTTP_METHODS_def)
    then show ?thesis by auto
  qed
  show "set (allowedMethods lower path v r) = {m. find_route lower m path v r \<noteq> None}"
  proof (cases "normalizeForLookup lower r path")
    case (Some nm)
    have "fst (search (query_for r nm m v) (root r) 0 Map.empty) \<noteq> None \<longleftrightarrow> find_route lower m path v r \<noteq> None" for m
      using Some by (simp add: find_route_def split: prod.split option.split)
    then show ?thesis using Some by (simp add: allowedMethods_def all)
  qed (simp add: allowedMethods_def find_route_def)
  have "sorted_wrt (<) ALL_HTTP_METHODS" by (simp add: ALL_HTTP_METHODS_def less_http_method_def)
  then show "sorted_wrt (<) (allowedMethods lower path v r)"
    by (auto simp: allowedMethods_def sorted_wrt_filter split: option.splits)
qed

end
