(* ===== verification/TextCodec.thy ===== *)
theory TextCodec
  imports UriText
begin

text \<open>
  \<open>TextEncoder\<close> and \<open>TextDecoder\<close> (UTF-8, default options) of the WHATWG Encoding standard, as
  the wire protocols use them: the encoder replaces lone surrogates, the decoder replaces
  malformed sequences and drops a leading byte order mark.
\<close>

type_synonym byte = "8 word"

definition replacement :: nat where "replacement = 65533"

definition point_value :: "jstring \<Rightarrow> nat" where
  "point_value cp =
     (case cp of
        [h, l] \<Rightarrow> 65536 + (unat h - 55296) * 1024 + (unat l - 56320)
      | [u] \<Rightarrow> if high_surrogate u \<or> low_surrogate u then replacement else unat u
      | _ \<Rightarrow> replacement)"

definition utf8 :: "nat \<Rightarrow> nat list" where
  "utf8 v =
     (if v < 128 then [v]
      else if v < 2048 then [192 + v div 64, 128 + v mod 64]
      else if v < 65536 then [224 + v div 4096, 128 + v div 64 mod 64, 128 + v mod 64]
      else [240 + v div 262144, 128 + v div 4096 mod 64, 128 + v div 64 mod 64, 128 + v mod 64])"

definition encodeText :: "jstring \<Rightarrow> byte list" where
  "encodeText s = map of_nat (concat (map (utf8 \<circ> point_value) (code_points s)))"

text \<open>The decoder: bytes still needed, the range of the next one, and the bits read.\<close>

function utf8_go :: "nat \<Rightarrow> nat \<Rightarrow> nat \<Rightarrow> nat \<Rightarrow> nat list \<Rightarrow> jstring" where
  "utf8_go 0 lo up cp [] = []"
| "utf8_go (Suc n) lo up cp [] = [of_nat replacement]"
| "utf8_go 0 lo up cp (b # bs) =
     (if b < 128 then of_nat b # utf8_go 0 128 191 0 bs
      else if 194 \<le> b \<and> b \<le> 223 then utf8_go 1 128 191 (b - 192) bs
      else if 224 \<le> b \<and> b \<le> 239 then
        utf8_go 2 (if b = 224 then 160 else 128) (if b = 237 then 159 else 191) (b - 224) bs
      else if 240 \<le> b \<and> b \<le> 244 then
        utf8_go 3 (if b = 240 then 144 else 128) (if b = 244 then 143 else 191) (b - 240) bs
      else of_nat replacement # utf8_go 0 128 191 0 bs)"
| "utf8_go (Suc n) lo up cp (b # bs) =
     (if lo \<le> b \<and> b \<le> up then
        (if n = 0 then utf16 (cp * 64 + (b - 128)) @ utf8_go 0 128 191 0 bs
         else utf8_go n 128 191 (cp * 64 + (b - 128)) bs)
      else of_nat replacement # utf8_go 0 128 191 0 (b # bs))"
  by pat_completeness auto
termination
  by (relation "measures [\<lambda>(n, lo, up, cp, bs). length bs, \<lambda>(n, lo, up, cp, bs). n]") auto

definition byte_order_mark :: code_unit where "byte_order_mark = 65279"

definition strip_mark :: "jstring \<Rightarrow> jstring" where
  "strip_mark s = (case s of [] \<Rightarrow> [] | u # us \<Rightarrow> if u = byte_order_mark then us else s)"

definition decodeText :: "byte list \<Rightarrow> jstring" where
  "decodeText bs = strip_mark (utf8_go 0 128 191 0 (map unat bs))"

subsection \<open>Decoding undoes encoding\<close>

text \<open>Strings without lone surrogates.\<close>

definition well_formed :: "jstring \<Rightarrow> bool" where
  "well_formed s \<longleftrightarrow> (\<forall>cp\<in>set (code_points s). length cp = 2 \<or> \<not> (high_surrogate (hd cp) \<or> low_surrogate (hd cp)))"

definition scalar :: "nat \<Rightarrow> bool" where
  "scalar v \<longleftrightarrow> v < 55296 \<or> (57343 < v \<and> v < 1114112)"

lemma go_three:
  assumes "a < 16" "b < 64" "c < 64" "a = 0 \<longrightarrow> 32 \<le> b" "a = 13 \<longrightarrow> b < 32"
  shows "utf8_go 0 lo up cp ((224 + a) # (128 + b) # (128 + c) # bs) =
    utf16 ((a * 64 + b) * 64 + c) @ utf8_go 0 128 191 0 bs"
  using assms by (auto simp: numeral_2_eq_2)

lemma go_four:
  assumes "z < 5" "a < 64" "b < 64" "c < 64" "z = 0 \<longrightarrow> 16 \<le> a" "z = 4 \<longrightarrow> a < 16"
  shows "utf8_go 0 lo up cp ((240 + z) # (128 + a) # (128 + b) # (128 + c) # bs) =
    utf16 (((z * 64 + a) * 64 + b) * 64 + c) @ utf8_go 0 128 191 0 bs"
  using assms by (auto simp: numeral_3_eq_3)

lemma utf8_go_utf8:
  assumes "scalar v"
  shows "utf8_go 0 lo up cp (utf8 v @ bs) = utf16 v @ utf8_go 0 128 191 0 bs"
proof -
  consider (one) "v < 128" | (two) "128 \<le> v" "v < 2048" | (three) "2048 \<le> v" "v < 65536"
    | (four) "65536 \<le> v" "v < 1114112"
  proof -
    assume *: "v < 128 \<Longrightarrow> thesis" "128 \<le> v \<Longrightarrow> v < 2048 \<Longrightarrow> thesis"
      "2048 \<le> v \<Longrightarrow> v < 65536 \<Longrightarrow> thesis" "65536 \<le> v \<Longrightarrow> v < 1114112 \<Longrightarrow> thesis"
    have "v < 1114112" using assms by (auto simp: scalar_def)
    then show thesis using * by (meson not_less)
  qed
  then show ?thesis
  proof cases
    case one
    then show ?thesis by (simp add: utf8_def utf16_def)
  next
    case two
    then have "2 \<le> v div 64" "v div 64 < 32" by auto
    moreover have "v mod 64 \<le> 63" using mod_less_divisor[of 64 v] by linarith
    ultimately have "utf8_go 0 lo up cp (utf8 v @ bs) = utf16 v @ utf8_go 0 128 191 0 bs"
      using two by (simp add: utf8_def mult.commute[of "v div 64"])
    then show ?thesis .
  next
    case three
    let ?a = "v div 4096" and ?b = "v div 64 mod 64" and ?c = "v mod 64"
    have d: "?a < 16" "?b < 64" "?c < 64" using three by auto
    have v: "(?a * 64 + ?b) * 64 + ?c = v"
    proof -
      have "?a = v div 64 div 64" by (simp add: div_mult2_eq[symmetric])
      then show ?thesis by simp
    qed
    have lo: "?a = 0 \<longrightarrow> 32 \<le> ?b" using three v d by auto
    have up: "?a = 13 \<longrightarrow> ?b < 32" using assms three v d by (auto simp: scalar_def)
    show ?thesis using go_three[OF d lo up, unfolded v] three by (simp add: utf8_def)
  next
    case four
    let ?z = "v div 262144" and ?a = "v div 4096 mod 64" and ?b = "v div 64 mod 64" and ?c = "v mod 64"
    have d: "?z < 5" "?a < 64" "?b < 64" "?c < 64" using four by auto
    have v: "((?z * 64 + ?a) * 64 + ?b) * 64 + ?c = v"
    proof -
      have "v div 4096 = v div 64 div 64" "?z = v div 64 div 64 div 64"
        by (simp_all add: div_mult2_eq[symmetric])
      then show ?thesis by simp
    qed
    have lo: "?z = 0 \<longrightarrow> 16 \<le> ?a" using four v d by auto
    have up: "?z = 4 \<longrightarrow> ?a < 16" using four v d by auto
    show ?thesis using go_four[OF d lo up, unfolded v] four by (simp add: utf8_def)
  qed
qed

lemma code_points_shape:
  "cp \<in> set (code_points s) \<Longrightarrow> (\<exists>u. cp = [u]) \<or> (\<exists>h l. cp = [h, l] \<and> high_surrogate h \<and> low_surrogate l)"
  by (induction s rule: code_points.induct) (auto split: if_splits)

lemma surrogate_range:
  "high_surrogate u \<longleftrightarrow> 55296 \<le> unat u \<and> unat u \<le> 56319"
  "low_surrogate u \<longleftrightarrow> 56320 \<le> unat u \<and> unat u \<le> 57343"
  by (simp_all add: high_surrogate_def low_surrogate_def word_le_nat_alt)

lemma unat_code_unit: "unat (u :: code_unit) < 65536"
  using unsigned_less[of u] by simp

lemma point_value_scalar:
  assumes "cp \<in> set (code_points s)" and "length cp = 2 \<or> \<not> (high_surrogate (hd cp) \<or> low_surrogate (hd cp))"
  shows "scalar (point_value cp) \<and> utf16 (point_value cp) = cp"
  using code_points_shape[OF assms(1)]
proof
  assume "\<exists>u. cp = [u]"
  then obtain u where u: "cp = [u]" by blast
  then have "\<not> high_surrogate u" "\<not> low_surrogate u" using assms(2) by auto
  then show ?thesis
    using u unat_code_unit[of u]
    by (auto simp: point_value_def scalar_def utf16_def surrogate_range)
next
  assume "\<exists>h l. cp = [h, l] \<and> high_surrogate h \<and> low_surrogate l"
  then obtain h l where hl: "cp = [h, l]" "high_surrogate h" "low_surrogate l" by blast
  define a b where "a = unat h - 55296" and "b = unat l - 56320"
  have ab: "unat h = 55296 + a" "unat l = 56320 + b" "a < 1024" "b < 1024"
    using hl(2,3) by (auto simp: a_def b_def surrogate_range)
  have pv: "point_value cp = 65536 + a * 1024 + b" by (simp add: point_value_def hl(1) a_def b_def)
  have "of_nat (55296 + a) = h" "of_nat (56320 + b) = l"
    unfolding ab(1,2)[symmetric] by simp_all
  then have "utf16 (point_value cp) = [h, l]" unfolding pv utf16_def using ab(3,4) by simp
  then have "utf16 (point_value cp) = cp" using hl(1) by simp
  then show ?thesis using ab(3,4) by (simp add: pv scalar_def)
qed

lemma utf8_byte: "scalar v \<Longrightarrow> b \<in> set (utf8 v) \<Longrightarrow> b < 256"
  by (auto simp: utf8_def scalar_def split: if_splits)

lemma map_unat_of_nat: "\<forall>b\<in>set bs. b < 256 \<Longrightarrow> map unat (map (of_nat :: nat \<Rightarrow> byte) bs) = bs"
  by (induction bs) (auto simp: unat_of_nat take_bit_nat_eq_self)

lemma decode_points:
  "\<forall>cp\<in>set cps. scalar (point_value cp) \<and> utf16 (point_value cp) = cp \<Longrightarrow>
     utf8_go 0 128 191 0 (concat (map (utf8 \<circ> point_value) cps) @ bs) = concat cps @ utf8_go 0 128 191 0 bs"
  by (induction cps) (simp_all add: utf8_go_utf8)

lemma utf8_go_encode:
  assumes "well_formed s"
  shows "utf8_go 0 128 191 0 (map unat (encodeText s)) = s"
proof -
  have pts: "\<forall>cp\<in>set (code_points s). scalar (point_value cp) \<and> utf16 (point_value cp) = cp"
    using assms point_value_scalar by (auto simp: well_formed_def)
  then have "\<forall>b\<in>set (concat (map (utf8 \<circ> point_value) (code_points s))). b < 256"
    using utf8_byte by auto
  then have "map unat (encodeText s) = concat (map (utf8 \<circ> point_value) (code_points s))"
    unfolding encodeText_def by (rule map_unat_of_nat)
  then show ?thesis using decode_points[OF pts, of "[]"] by simp
qed

text \<open>Decoding gives the string back, but for a leading byte order mark.\<close>

lemma decodeText_encodeText:
  assumes "well_formed s" shows "decodeText (encodeText s) = strip_mark s"
  using utf8_go_encode[OF assms] by (simp add: decodeText_def)

subsection \<open>ASCII\<close>

definition ascii :: "string \<Rightarrow> byte list" where
  "ascii s = map (\<lambda>c. of_nat (of_char c)) s"

lemma utf8_go_ascii:
  "\<forall>b\<in>set bs. b < 128 \<Longrightarrow> utf8_go 0 lo up cp bs = map of_nat bs"
proof (induction bs arbitrary: lo up cp)
  case (Cons b bs)
  then show ?case by simp
qed simp

lemma decodeText_ascii:
  assumes "\<forall>c\<in>set s. (of_char c :: nat) < 128"
  shows "decodeText (ascii s) = js s"
proof -
  have b: "map unat (ascii s) = map of_char s"
    unfolding ascii_def using map_unat_of_nat[of "map of_char s"] assms by (fastforce simp: comp_def)
  then have "utf8_go 0 128 191 0 (map unat (ascii s)) = js s"
    using assms utf8_go_ascii[of "map of_char s" 128 191 0] by (simp add: js_def comp_def)
  moreover have "strip_mark (js s) = js s"
  proof (cases s)
    case (Cons c cs)
    have "unat (of_nat (of_char c) :: code_unit) < 128"
      using assms Cons by (simp add: unat_of_nat take_bit_nat_eq_self)
    then show ?thesis using Cons by (auto simp: strip_mark_def js_def byte_order_mark_def)
  qed (simp add: strip_mark_def js_def)
  ultimately show ?thesis by (simp add: decodeText_def)
qed

end
