(* ===== verification/Resp.thy ===== *)
theory Resp
  imports TextCodec
begin

text \<open>
  The Redis wire protocol (\<open>src/packages/drivers/engines/redis/resp.ts\<close>): the command encoder, the
  frame parser over a byte buffer, and the conversion of replies to plain values.

  A parse ends with a frame and the bytes it consumed, with the request for more bytes, or with an
  error.  The parser calls itself for nested frames; \<open>fuel\<close> bounds the nesting, and the outcome
  \<open>None\<close> stands for a recursion that goes deeper than that.  Offsets are integers: they can turn
  negative.
\<close>

definition CR :: byte where "CR = 13"
definition LF :: byte where "LF = 10"

datatype js_number = Number int | BigInteger int

text \<open>What \<open>parseFloat\<close> reads is kept as its text.\<close>

datatype resp_double = PosInf | NegInf | NotANumber | ParseFloat jstring

datatype resp_value =
    RString jstring
  | RError jstring jstring
  | RInteger js_number
  | RBigint int
  | RDouble resp_double
  | RBoolean bool
  | RNull
  | RBulk "jstring option"
  | RVerbatim jstring jstring
  | RArray "resp_value list option"
  | RSet "resp_value list"
  | RMap "(resp_value \<times> resp_value) list"
  | RPush "resp_value list"

text \<open>A \<open>RespError\<close> of the parser, and the \<open>SyntaxError\<close> that \<open>BigInt\<close> throws.\<close>

datatype resp_fault = ProtocolError | BigIntSyntaxError

datatype 'a reply = Incomplete | Parsed 'a int | Faulty resp_fault

subsection \<open>Encoder\<close>

datatype command_part = TextPart jstring | NumberPart int

fun part_text :: "command_part \<Rightarrow> jstring" where
  "part_text (TextPart s) = s"
| "part_text (NumberPart n) = js (radix_int 10 n)"

definition decimal :: "nat \<Rightarrow> jstring" where
  "decimal n = js (radix_string 10 n)"

definition crlf :: jstring where "crlf = [13, 10]"

definition encode_part :: "command_part \<Rightarrow> byte list" where
  "encode_part p =
     (let bytes = encodeText (part_text p)
      in encodeText (js ''$'' @ decimal (length bytes) @ crlf) @ bytes @ encodeText crlf)"

definition encodeCommand :: "command_part list \<Rightarrow> byte list" where
  "encodeCommand parts =
     encodeText (js ''*'' @ decimal (length parts) @ crlf) @ concat (map encode_part parts)"

subsection \<open>Numbers in frames\<close>

fun signed_part :: "jstring \<Rightarrow> int \<times> jstring" where
  "signed_part [] = (1, [])"
| "signed_part (u # us) = (if u = 45 then (-1, us) else if u = 43 then (1, us) else (1, u # us))"

text \<open>\<open>Number.parseInt(s, 10)\<close>; \<open>None\<close> is \<open>NaN\<close>.\<close>

definition parseInt10 :: "jstring \<Rightarrow> int option" where
  "parseInt10 s =
     (let (sg, r) = signed_part (dropWhile js_space s); ds = takeWhile unit_digit r
      in if ds = [] then None else Some (sg * int (decimal_val ds)))"

text \<open>\<open>RESP_INTEGER_PATTERN\<close>.\<close>

definition integer_pattern :: "jstring \<Rightarrow> bool" where
  "integer_pattern s \<longleftrightarrow> snd (signed_part s) \<noteq> [] \<and> list_all unit_digit (snd (signed_part s))"

definition digit_below :: "nat \<Rightarrow> code_unit \<Rightarrow> bool" where
  "digit_below b u \<longleftrightarrow> (case hex_value u of None \<Rightarrow> False | Some d \<Rightarrow> d < b)"

definition prefixed_val :: "nat \<Rightarrow> jstring \<Rightarrow> int option" where
  "prefixed_val b s =
     (if s \<noteq> [] \<and> list_all (digit_below b) s then Some (int (units_val b (map (the \<circ> hex_value) s))) else None)"

text \<open>\<open>BigInt(s)\<close>: decimal with a sign, or a prefixed literal without one; \<open>None\<close> where it throws.\<close>

definition bigInt :: "jstring \<Rightarrow> int option" where
  "bigInt s =
     (let t = trim s
      in if t = [] then Some 0
         else if integer_pattern t then Some (fst (signed_part t) * int (decimal_val (snd (signed_part t))))
         else if take 2 t \<in> {js ''0x'', js ''0X''} then prefixed_val 16 (drop 2 t)
         else if take 2 t \<in> {js ''0o'', js ''0O''} then prefixed_val 8 (drop 2 t)
         else if take 2 t \<in> {js ''0b'', js ''0B''} then prefixed_val 2 (drop 2 t)
         else None)"

definition MAX_SAFE_INT :: int where "MAX_SAFE_INT = 9007199254740991"
definition MIN_SAFE_INT :: int where "MIN_SAFE_INT = -9007199254740991"

subsection \<open>Frames\<close>

fun crlf_at :: "byte list \<Rightarrow> nat option" where
  "crlf_at [] = None"
| "crlf_at (b # bs) =
     (if b = CR \<and> bs \<noteq> [] \<and> hd bs = LF then Some 0 else map_option Suc (crlf_at bs))"

definition findCrlf :: "byte list \<Rightarrow> nat \<Rightarrow> nat option" where
  "findCrlf buffer start = map_option ((+) start) (crlf_at (drop start buffer))"

text \<open>\<open>buffer.subarray(a, b)\<close>: a negative index counts from the end.\<close>

definition relative_index :: "nat \<Rightarrow> int \<Rightarrow> nat" where
  "relative_index len i = (if i < 0 then nat (max 0 (int len + i)) else nat (min i (int len)))"

definition decode_range :: "byte list \<Rightarrow> int \<Rightarrow> int \<Rightarrow> jstring" where
  "decode_range buffer a b =
     (let n = length buffer in decodeText (slice (relative_index n a) (relative_index n b) buffer))"

text \<open>The frames of one line, by what becomes of the line's text.\<close>

definition line_frame :: "(jstring \<Rightarrow> resp_fault + resp_value) \<Rightarrow> byte list \<Rightarrow> nat \<Rightarrow> resp_value reply" where
  "line_frame f buffer offset =
     (case findCrlf buffer (offset + 1) of
        None \<Rightarrow> Incomplete
      | Some e \<Rightarrow>
          (case f (decode_range buffer (int offset + 1) (int e)) of
             Inl err \<Rightarrow> Faulty err
           | Inr v \<Rightarrow> Parsed v (int e + 2 - int offset)))"

definition error_prefix :: "jstring \<Rightarrow> jstring" where
  "error_prefix message = takeWhile (\<lambda>u. u \<noteq> 32) message"

definition string_line :: "jstring \<Rightarrow> resp_fault + resp_value" where
  "string_line raw = Inr (RString raw)"

definition error_line :: "jstring \<Rightarrow> resp_fault + resp_value" where
  "error_line raw = Inr (RError raw (error_prefix raw))"

definition integer_line :: "jstring \<Rightarrow> resp_fault + resp_value" where
  "integer_line raw =
     (if \<not> integer_pattern raw then Inl ProtocolError
      else
        let big = fst (signed_part raw) * int (decimal_val (snd (signed_part raw)))
        in Inr (RInteger (if MIN_SAFE_INT \<le> big \<and> big \<le> MAX_SAFE_INT then Number big else BigInteger big)))"

definition null_line :: "jstring \<Rightarrow> resp_fault + resp_value" where
  "null_line raw = Inr RNull"

definition boolean_line :: "jstring \<Rightarrow> resp_fault + resp_value" where
  "boolean_line raw = Inr (RBoolean (raw = js ''t''))"

definition double_line :: "jstring \<Rightarrow> resp_fault + resp_value" where
  "double_line raw =
     Inr (RDouble (if raw = js ''inf'' then PosInf
       else if raw = js ''-inf'' then NegInf
       else if raw = js ''nan'' then NotANumber
       else ParseFloat raw))"

definition bigint_line :: "jstring \<Rightarrow> resp_fault + resp_value" where
  "bigint_line raw = (case bigInt raw of None \<Rightarrow> Inl BigIntSyntaxError | Some i \<Rightarrow> Inr (RBigint i))"

text \<open>A verbatim string is cut at its first colon, when that is not its first character.\<close>

definition verbatim_of :: "jstring \<Rightarrow> resp_value" where
  "verbatim_of raw =
     (let i = index_from colon raw
      in if 0 < i \<and> i < length raw then RVerbatim (drop (Suc i) raw) (take i raw) else RVerbatim raw [])"

definition parseBulk :: "byte list \<Rightarrow> nat \<Rightarrow> bool \<Rightarrow> resp_value reply" where
  "parseBulk buffer offset verbatim =
     (case findCrlf buffer (offset + 1) of
        None \<Rightarrow> Incomplete
      | Some lenEnd \<Rightarrow>
          (case parseInt10 (decode_range buffer (int offset + 1) (int lenEnd)) of
             None \<Rightarrow> Faulty ProtocolError
           | Some len \<Rightarrow>
               if len < 0 then
                 Parsed (if verbatim then RVerbatim [] [] else RBulk None) (int lenEnd + 2 - int offset)
               else
                 let dataStart = int lenEnd + 2; dataEnd = dataStart + len
                 in if dataEnd + 2 > int (length buffer) then Incomplete
                    else
                      let raw = decode_range buffer dataStart dataEnd
                      in Parsed (if verbatim then verbatim_of raw else RBulk (Some raw)) (dataEnd + 2 - int offset)))"

definition parseBulkError :: "byte list \<Rightarrow> nat \<Rightarrow> resp_value reply" where
  "parseBulkError buffer offset =
     (case findCrlf buffer (offset + 1) of
        None \<Rightarrow> Incomplete
      | Some lenEnd \<Rightarrow>
          (case parseInt10 (decode_range buffer (int offset + 1) (int lenEnd)) of
             None \<Rightarrow> Faulty ProtocolError
           | Some len \<Rightarrow>
               let dataStart = int lenEnd + 2; dataEnd = dataStart + len
               in if dataEnd + 2 > int (length buffer) then Incomplete
                  else
                    let message = decode_range buffer dataStart dataEnd
                    in Parsed (RError message (error_prefix message)) (dataEnd + 2 - int offset)))"

text \<open>The loops over the elements; a parsed loop carries the cursor it reached.\<close>

type_synonym parser = "int \<Rightarrow> resp_value reply option"

fun parse_items :: "parser \<Rightarrow> nat \<Rightarrow> int \<Rightarrow> resp_value list reply option" where
  "parse_items p 0 cursor = Some (Parsed [] cursor)"
| "parse_items p (Suc k) cursor =
     (case p cursor of
        None \<Rightarrow> None
      | Some Incomplete \<Rightarrow> Some Incomplete
      | Some (Faulty e) \<Rightarrow> Some (Faulty e)
      | Some (Parsed v n) \<Rightarrow>
          (case parse_items p k (cursor + n) of
             Some (Parsed vs c) \<Rightarrow> Some (Parsed (v # vs) c)
           | r \<Rightarrow> r))"

fun parse_entries :: "parser \<Rightarrow> nat \<Rightarrow> int \<Rightarrow> (resp_value \<times> resp_value) list reply option" where
  "parse_entries p 0 cursor = Some (Parsed [] cursor)"
| "parse_entries p (Suc k) cursor =
     (case p cursor of
        None \<Rightarrow> None
      | Some Incomplete \<Rightarrow> Some Incomplete
      | Some (Faulty e) \<Rightarrow> Some (Faulty e)
      | Some (Parsed key n) \<Rightarrow>
          (case p (cursor + n) of
             None \<Rightarrow> None
           | Some Incomplete \<Rightarrow> Some Incomplete
           | Some (Faulty e) \<Rightarrow> Some (Faulty e)
           | Some (Parsed v m) \<Rightarrow>
               (case parse_entries p k (cursor + n + m) of
                  Some (Parsed es c) \<Rightarrow> Some (Parsed ((key, v) # es) c)
                | r \<Rightarrow> r)))"

datatype aggregate = ArrayKind | SetKind | PushKind | MapKind

fun aggregate_value :: "aggregate \<Rightarrow> resp_value list \<Rightarrow> resp_value" where
  "aggregate_value ArrayKind items = RArray (Some items)"
| "aggregate_value SetKind items = RSet items"
| "aggregate_value k items = RPush items"

definition parseAggregate :: "parser \<Rightarrow> byte list \<Rightarrow> nat \<Rightarrow> aggregate \<Rightarrow> resp_value reply option" where
  "parseAggregate p buffer offset knd =
     (case findCrlf buffer (offset + 1) of
        None \<Rightarrow> Some Incomplete
      | Some lenEnd \<Rightarrow>
          (case parseInt10 (decode_range buffer (int offset + 1) (int lenEnd)) of
             None \<Rightarrow> Some (Faulty ProtocolError)
           | Some count \<Rightarrow>
               if count < 0 \<and> knd = ArrayKind then Some (Parsed (RArray None) (int lenEnd + 2 - int offset))
               else if knd = MapKind then
                 (case parse_entries p (nat count) (int lenEnd + 2) of
                    None \<Rightarrow> None
                  | Some Incomplete \<Rightarrow> Some Incomplete
                  | Some (Faulty e) \<Rightarrow> Some (Faulty e)
                  | Some (Parsed es c) \<Rightarrow> Some (Parsed (RMap es) (c - int offset)))
               else
                 (case parse_items p (nat count) (int lenEnd + 2) of
                    None \<Rightarrow> None
                  | Some Incomplete \<Rightarrow> Some Incomplete
                  | Some (Faulty e) \<Rightarrow> Some (Faulty e)
                  | Some (Parsed vs c) \<Rightarrow> Some (Parsed (aggregate_value knd vs) (c - int offset)))))"

definition parseAttribute :: "parser \<Rightarrow> byte list \<Rightarrow> nat \<Rightarrow> resp_value reply option" where
  "parseAttribute p buffer offset =
     (case parseAggregate p buffer offset MapKind of
        Some (Parsed attr n) \<Rightarrow>
          (case p (int offset + n) of
             Some (Parsed v m) \<Rightarrow> Some (Parsed v (n + m))
           | r \<Rightarrow> r)
      | r \<Rightarrow> r)"

text \<open>The tag is \<open>undefined\<close> at a negative offset, which no case covers.\<close>

fun parseReply :: "nat \<Rightarrow> byte list \<Rightarrow> int \<Rightarrow> resp_value reply option" where
  "parseReply 0 buffer offset = None"
| "parseReply (Suc fuel) buffer offset =
     (if offset \<ge> int (length buffer) then Some Incomplete
      else if offset < 0 then Some (Faulty ProtocolError)
      else
        let o' = nat offset; tag = buffer ! o'; p = parseReply fuel buffer
        in if tag = 0x2B then Some (line_frame string_line buffer o')
           else if tag = 0x2D then Some (line_frame error_line buffer o')
           else if tag = 0x3A then Some (line_frame integer_line buffer o')
           else if tag = 0x24 then Some (parseBulk buffer o' False)
           else if tag = 0x3D then Some (parseBulk buffer o' True)
           else if tag = 0x2A then parseAggregate p buffer o' ArrayKind
           else if tag = 0x25 then parseAggregate p buffer o' MapKind
           else if tag = 0x7E then parseAggregate p buffer o' SetKind
           else if tag = 0x3E then parseAggregate p buffer o' PushKind
           else if tag = 0x5F then Some (line_frame null_line buffer o')
           else if tag = 0x23 then Some (line_frame boolean_line buffer o')
           else if tag = 0x2C then Some (line_frame double_line buffer o')
           else if tag = 0x28 then Some (line_frame bigint_line buffer o')
           else if tag = 0x21 then Some (parseBulkError buffer o')
           else if tag = 0x7C then parseAttribute p buffer o'
           else Some (Faulty ProtocolError))"

end
