(* ===== verification/RespWire.thy ===== *)
theory RespWire
  imports Resp
begin

text \<open>
  The parser against the protocol: \<open>wire\<close> is the serialisation of a reply that RESP prescribes,
  and the parser reads every serialised reply back, wherever it stands in the buffer and whatever
  follows it, and asks for more bytes on every proper prefix of it.
\<close>

subsection \<open>The protocol's serialisation\<close>

definition unit_bytes :: "jstring \<Rightarrow> byte list" where
  "unit_bytes s = map (\<lambda>u. of_nat (unat u)) s"

abbreviation eol :: "byte list" where "eol \<equiv> [13, 10]"

definition line :: "byte \<Rightarrow> byte list \<Rightarrow> byte list" where
  "line t body = t # body @ eol"

definition integer_text :: "int \<Rightarrow> byte list" where
  "integer_text i = ascii (radix_int 10 i)"

fun double_text :: "resp_double \<Rightarrow> byte list" where
  "double_text PosInf = ascii ''inf''"
| "double_text NegInf = ascii ''-inf''"
| "double_text NotANumber = ascii ''nan''"
| "double_text (ParseFloat s) = encodeText s"

definition sized :: "byte \<Rightarrow> byte list \<Rightarrow> byte list" where
  "sized t body = line t (ascii (radix_string 10 (length body))) @ body @ eol"

definition counted :: "byte \<Rightarrow> nat \<Rightarrow> byte list" where
  "counted t n = line t (ascii (radix_string 10 n))"

fun wire :: "resp_value \<Rightarrow> byte list" where
  "wire (RString s) = line 0x2B (encodeText s)"
| "wire (RError s p) = line 0x2D (encodeText s)"
| "wire (RInteger (Number i)) = line 0x3A (integer_text i)"
| "wire (RInteger (BigInteger i)) = line 0x3A (integer_text i)"
| "wire (RBigint i) = line 0x28 (integer_text i)"
| "wire (RDouble d) = line 0x2C (double_text d)"
| "wire (RBoolean b) = line 0x23 (ascii (if b then ''t'' else ''f''))"
| "wire RNull = line 0x5F []"
| "wire (RBulk None) = line 0x24 (ascii ''-1'')"
| "wire (RBulk (Some s)) = sized 0x24 (encodeText s)"
| "wire (RVerbatim s f) = sized 0x3D (encodeText (f @ colon # s))"
| "wire (RArray None) = line 0x2A (ascii ''-1'')"
| "wire (RArray (Some vs)) = counted 0x2A (length vs) @ concat (map wire vs)"
| "wire (RSet vs) = counted 0x7E (length vs) @ concat (map wire vs)"
| "wire (RPush vs) = counted 0x3E (length vs) @ concat (map wire vs)"
| "wire (RMap es) = counted 0x25 (length es) @ concat (map (\<lambda>(k, v). wire k @ wire v) es)"

text \<open>The texts the decoder gives back: well formed, without a leading byte order mark.\<close>

definition faithful_text :: "jstring \<Rightarrow> bool" where
  "faithful_text s \<longleftrightarrow> well_formed s \<and> strip_mark s = s"

definition line_text :: "jstring \<Rightarrow> bool" where
  "line_text s \<longleftrightarrow> faithful_text s \<and> 13 \<notin> set s"

fun wireable :: "resp_value \<Rightarrow> bool" where
  "wireable (RString s) = line_text s"
| "wireable (RError s p) = (line_text s \<and> p = error_prefix s)"
| "wireable (RInteger (Number i)) = (MIN_SAFE_INT \<le> i \<and> i \<le> MAX_SAFE_INT)"
| "wireable (RInteger (BigInteger i)) = (\<not> (MIN_SAFE_INT \<le> i \<and> i \<le> MAX_SAFE_INT))"
| "wireable (RDouble (ParseFloat s)) = (line_text s \<and> s \<notin> {js ''inf'', js ''-inf'', js ''nan''})"
| "wireable (RBulk (Some s)) = faithful_text s"
| "wireable (RVerbatim s f) = (f \<noteq> [] \<and> colon \<notin> set f \<and> faithful_text (f @ colon # s))"
| "wireable (RArray (Some vs)) = (\<forall>v\<in>set vs. wireable v)"
| "wireable (RSet vs) = (\<forall>v\<in>set vs. wireable v)"
| "wireable (RPush vs) = (\<forall>v\<in>set vs. wireable v)"
| "wireable (RMap es) = (\<forall>(k, v)\<in>set es. wireable k \<and> wireable v)"
| "wireable v = True"

text \<open>The nesting of a reply.\<close>

fun depth :: "resp_value \<Rightarrow> nat" where
  "depth (RArray (Some vs)) = Suc (Max (insert 0 (set (map depth vs))))"
| "depth (RSet vs) = Suc (Max (insert 0 (set (map depth vs))))"
| "depth (RPush vs) = Suc (Max (insert 0 (set (map depth vs))))"
| "depth (RMap es) = Suc (Max (insert 0 (set (map (\<lambda>(k, v). max (depth k) (depth v)) es))))"
| "depth v = 1"

subsection \<open>Texts\<close>

lemma eol_encode: "encodeText crlf = eol"
  by (simp add: encodeText_def crlf_def utf8_def point_value_def high_surrogate_def low_surrogate_def)

text \<open>No byte of an encoded text is a carriage return unless the text has one.\<close>

lemma utf8_no_cr: "scalar v \<Longrightarrow> v \<noteq> 13 \<Longrightarrow> 13 \<notin> set (utf8 v)"
  by (auto simp: utf8_def)

lemma encodeText_no_cr:
  assumes "well_formed s" and "13 \<notin> set s"
  shows "13 \<notin> set (encodeText s)"
proof
  assume "13 \<in> set (encodeText s)"
  then obtain cp b where cp: "cp \<in> set (code_points s)" "b \<in> set (utf8 (point_value cp))"
    and b: "(13 :: byte) = of_nat b"
    by (auto simp: encodeText_def)
  have sc: "scalar (point_value cp) \<and> utf16 (point_value cp) = cp"
    using assms(1) cp(1) point_value_scalar by (auto simp: well_formed_def)
  have "b < 256" using utf8_byte sc cp(2) by blast
  then have "b = 13" using arg_cong[OF b, of unat] by (simp add: unat_of_nat take_bit_nat_eq_self)
  then have "point_value cp = 13" using utf8_no_cr sc cp(2) by blast
  then have "cp = [13]" using sc by (simp add: utf16_def)
  then have "13 \<in> set (concat (code_points s))" using cp(1) unfolding set_concat by fastforce
  then show False using assms(2) by simp
qed

lemma decode_faithful: "faithful_text s \<Longrightarrow> decodeText (encodeText s) = s"
  by (simp add: faithful_text_def decodeText_encodeText)

definition ascii_only :: "string \<Rightarrow> bool" where
  "ascii_only s \<longleftrightarrow> (\<forall>c\<in>set s. (of_char c :: nat) < 128 \<and> (of_char c :: nat) \<noteq> 13)"

lemma ascii_no_cr: "ascii_only s \<Longrightarrow> 13 \<notin> set (ascii s)"
proof
  assume "ascii_only s" "13 \<in> set (ascii s)"
  then obtain c where c: "(13 :: byte) = of_nat (of_char c)" "(of_char c :: nat) < 128" "(of_char c :: nat) \<noteq> 13"
    by (auto simp: ascii_def ascii_only_def)
  have "unat (of_nat (of_char c) :: byte) = of_char c"
    using c(2) by (simp add: unat_of_nat take_bit_nat_eq_self)
  then have "unat (13 :: byte) = of_char c" using c(1) by metis
  then show False using c(3) by simp
qed

lemma decode_ascii: "ascii_only s \<Longrightarrow> decodeText (ascii s) = js s"
  by (rule decodeText_ascii) (simp add: ascii_only_def)

lemma all_digits_ascii: "all_digits s \<Longrightarrow> ascii_only s"
  by (auto simp: all_digits_def is_digit_def ascii_only_def list_all_iff)

lemma ascii_only_radix: "ascii_only (radix_string 10 n)" "ascii_only (radix_int 10 i)"
proof -
  show r: "ascii_only (radix_string 10 n)" for n by (rule all_digits_ascii) (simp add: js_simps)
  show "ascii_only (radix_int 10 i)"
    using r by (auto simp: radix_int_def ascii_only_def)
qed

subsection \<open>Decimal numbers\<close>

lemma signed_digits: "all_digits s \<Longrightarrow> signed_part (js s) = (1, js s)"
proof (cases s)
  case (Cons c cs)
  assume "all_digits s"
  then have "unit_digit (of_nat (of_char c))" using Cons unit_of_digit(1) by (auto simp: all_digits_def)
  then show ?thesis using Cons by (auto simp: js_def unit_digit_def)
qed (simp add: js_def)

lemma js_minus: "js (CHR ''-'' # s) = 45 # js s"
  by (simp add: js_def)

lemma signed_radix:
  "signed_part (js (radix_int 10 i)) = (if i < 0 then -1 else 1, js (radix_string 10 (nat \<bar>i\<bar>)))"
  using signed_digits[of "radix_string 10 (nat i)"] by (simp add: radix_int_def js_minus js_simps)

lemma integer_radix:
  "integer_pattern (js (radix_int 10 i))"
  "fst (signed_part (js (radix_int 10 i))) * int (decimal_val (snd (signed_part (js (radix_int 10 i))))) = i"
proof -
  have "all_digits (radix_string 10 (nat \<bar>i\<bar>))" by (simp add: js_simps)
  then show "integer_pattern (js (radix_int 10 i))"
    unfolding integer_pattern_def signed_radix by (simp add: units_of_digits all_digits_def) (simp add: js_def)
  show "fst (signed_part (js (radix_int 10 i))) * int (decimal_val (snd (signed_part (js (radix_int 10 i))))) = i"
    unfolding signed_radix by (simp add: radix_value)
qed

lemma digit_not_space: "unit_digit u \<Longrightarrow> \<not> js_space u"
  by (auto simp: js_space_def unit_digit_def)

lemma parseInt10_radix: "parseInt10 (js (radix_string 10 n)) = Some (int n)"
proof -
  have d: "all_digits (radix_string 10 n)" by (simp add: js_simps)
  then have u: "list_all unit_digit (js (radix_string 10 n))" by (simp add: all_digits_def units_of_digits)
  obtain v vs where v: "js (radix_string 10 n) = v # vs"
    using radix_string_nonempty[of 10 n] by (cases "js (radix_string 10 n)") (auto simp: js_def)
  then have "dropWhile js_space (js (radix_string 10 n)) = js (radix_string 10 n)"
    using u digit_not_space by auto
  moreover have "takeWhile unit_digit (js (radix_string 10 n)) = js (radix_string 10 n)"
    using u by (simp add: list_all_iff)
  moreover have "js (radix_string 10 n) \<noteq> []" using v by simp
  ultimately show ?thesis
    unfolding parseInt10_def by (simp only: signed_digits[OF d] split_conv Let_def radix_value) simp
qed

lemma parseInt10_minus_one: "parseInt10 (js ''-1'') = Some (-1)"
  by code_simp

subsection \<open>Frames in a buffer\<close>

lemma crlf_at_found: "13 \<notin> set bs \<Longrightarrow> crlf_at (bs @ 13 # 10 # rest) = Some (length bs)"
  by (induction bs) (auto simp: CR_def LF_def)

lemma crlf_at_prefix: "13 \<notin> set bs \<Longrightarrow> k < length bs + 2 \<Longrightarrow> crlf_at (take k (bs @ eol)) = None"
proof (induction bs arbitrary: k)
  case Nil
  then have "k = 0 \<or> k = 1" by auto
  then show ?case by (auto simp: CR_def)
next
  case (Cons b bs)
  then show ?case by (cases k) (auto simp: CR_def)
qed

lemma findCrlf_found:
  assumes "13 \<notin> set bs"
  shows "findCrlf (pre @ t # bs @ 13 # 10 # rest) (length pre + 1) = Some (length pre + 1 + length bs)"
  using crlf_at_found[OF assms, of rest] by (simp add: findCrlf_def)

lemma findCrlf_prefix:
  assumes "13 \<notin> set bs" and "k < length (line t bs)"
  shows "findCrlf (pre @ take k (line t bs)) (length pre + 1) = None"
  using assms crlf_at_prefix[of bs "k - 1"] by (cases k) (auto simp: findCrlf_def line_def)

lemma decode_range_mid:
  assumes "a = int (length pre)" and "b = a + int (length bs)"
  shows "decode_range (pre @ bs @ rest) a b = decodeText bs"
  using assms by (simp add: decode_range_def relative_index_def slice_def Let_def)

lemma decode_line:
  assumes "e = length pre + 1 + length bs"
  shows "decode_range (pre @ t # bs @ rest) (int (length pre) + 1) (int e) = decodeText bs"
  using decode_range_mid[of "int (length pre) + 1" "pre @ [t]" "int e" bs rest] assms by simp

lemma line_frame_line:
  assumes "13 \<notin> set bs"
  shows "line_frame f (pre @ line t bs @ rest) (length pre) =
    (case f (decodeText bs) of Inl e \<Rightarrow> Faulty e | Inr v \<Rightarrow> Parsed v (int (length (line t bs))))"
proof -
  have "findCrlf (pre @ line t bs @ rest) (length pre + 1) = Some (length pre + 1 + length bs)"
    using findCrlf_found[OF assms, of pre t rest] by (simp add: line_def)
  moreover have "decode_range (pre @ line t bs @ rest) (int (length pre) + 1) (int (length pre + 1 + length bs)) =
      decodeText bs"
    using decode_line[OF refl, of pre t bs "eol @ rest"] by (simp only: line_def append_Cons append_assoc)
  ultimately show ?thesis by (simp add: line_frame_def line_def split: sum.split)
qed

lemma line_frame_prefix:
  "13 \<notin> set bs \<Longrightarrow> k < length (line t bs) \<Longrightarrow> line_frame f (pre @ take k (line t bs)) (length pre) = Incomplete"
  using findCrlf_prefix[of bs k t pre] by (simp add: line_frame_def)

text \<open>The header line of a sized or counted frame.\<close>

lemma header_found:
  fixes n :: nat and t :: byte
  defines "h \<equiv> line t (ascii (radix_string 10 n))"
  shows "findCrlf (pre @ h @ rest) (length pre + 1) = Some (length pre + length h - 2)"
    and "parseInt10 (decode_range (pre @ h @ rest) (int (length pre) + 1) (int (length pre + length h - 2))) = Some (int n)"
proof -
  let ?d = "ascii (radix_string 10 n)"
  have cr: "13 \<notin> set ?d" using ascii_no_cr ascii_only_radix(1) by blast
  show "findCrlf (pre @ h @ rest) (length pre + 1) = Some (length pre + length h - 2)"
    using findCrlf_found[OF cr, of pre t rest] by (simp add: h_def line_def)
  have "decode_range (pre @ h @ rest) (int (length pre) + 1) (int (length pre + length h - 2)) = decodeText ?d"
    using decode_line[of "length pre + length h - 2" pre ?d t "eol @ rest"] by (simp add: h_def line_def)
  then show "parseInt10 (decode_range (pre @ h @ rest) (int (length pre) + 1) (int (length pre + length h - 2))) = Some (int n)"
    by (simp add: decode_ascii ascii_only_radix parseInt10_radix)
qed

lemma header_minus_one:
  fixes t :: byte
  defines "h \<equiv> line t (ascii ''-1'')"
  shows "findCrlf (pre @ h @ rest) (length pre + 1) = Some (length pre + 3)"
    and "parseInt10 (decode_range (pre @ h @ rest) (int (length pre) + 1) (int (length pre + 3))) = Some (-1)"
proof -
  have a: "ascii_only ''-1''" by (simp add: ascii_only_def)
  have l: "length (ascii ''-1'') = 2" by (simp add: ascii_def)
  show "findCrlf (pre @ h @ rest) (length pre + 1) = Some (length pre + 3)"
    using findCrlf_found[OF ascii_no_cr[OF a], of pre t rest] l by (simp add: h_def line_def)
  have "decode_range (pre @ h @ rest) (int (length pre) + 1) (int (length pre + 3)) = decodeText (ascii ''-1'')"
    using decode_line[of "length pre + 3" pre "ascii ''-1''" t "eol @ rest"] l by (simp add: h_def line_def)
  then show "parseInt10 (decode_range (pre @ h @ rest) (int (length pre) + 1) (int (length pre + 3))) = Some (-1)"
    by (simp add: decode_ascii[OF a] parseInt10_minus_one)
qed

lemma parseBulk_sized:
  "parseBulk (pre @ sized t body @ rest) (length pre) verbatim =
     Parsed (if verbatim then verbatim_of (decodeText body) else RBulk (Some (decodeText body)))
       (int (length (sized t body)))"
proof -
  let ?h = "line t (ascii (radix_string 10 (length body)))"
  let ?buf = "pre @ ?h @ body @ eol @ rest"
  have h: "length ?h \<ge> 3" by (simp add: line_def)
  have d: "decode_range ?buf (int (length pre + length ?h - 2) + 2) (int (length pre + length ?h - 2) + 2 + int (length body)) = decodeText body"
    using decode_range_mid[of "int (length pre + length ?h)" "pre @ ?h" _ body "eol @ rest"] h by simp
  have "parseBulk ?buf (length pre) verbatim =
      Parsed (if verbatim then verbatim_of (decodeText body) else RBulk (Some (decodeText body)))
        (int (length ?h) + int (length body) + 2)"
    using header_found[of pre t "length body" "body @ eol @ rest"] d h
    by (simp add: parseBulk_def Let_def)
  then show ?thesis by (simp add: sized_def)
qed

lemma parseBulk_prefix:
  assumes "k < length (sized t body)"
  shows "parseBulk (pre @ take k (sized t body)) (length pre) verbatim = Incomplete"
proof (cases "k < length (line t (ascii (radix_string 10 (length body))))")
  case True
  then show ?thesis
    using findCrlf_prefix[OF ascii_no_cr[OF ascii_only_radix(1)] True, of pre]
    by (simp add: parseBulk_def sized_def)
next
  case False
  let ?h = "line t (ascii (radix_string 10 (length body)))"
  let ?r = "take (k - length ?h) (body @ eol)"
  have buf: "pre @ take k (sized t body) = pre @ ?h @ ?r" using False by (simp add: sized_def)
  have r: "length ?r < length body + 2" using assms False by (auto simp: sized_def)
  have h: "length ?h \<ge> 3" by (simp add: line_def)
  show ?thesis
    unfolding buf using header_found[of pre t "length body" ?r] r h
    by (simp add: parseBulk_def Let_def)
qed

subsection \<open>Reading a serialised reply\<close>

definition frame_by_tag :: "nat \<Rightarrow> byte \<Rightarrow> byte list \<Rightarrow> nat \<Rightarrow> resp_value reply option" where
  "frame_by_tag n tag buffer o' =
     (let p = parseReply n buffer
      in if tag = 0x2B then Some (line_frame string_line buffer o')
         else if tag = 0x2D then Some (line_frame error_line buffer o')
         else if tag = 0x3A then Some (line_frame integer_line buffer o')
         else if tag = 0x24 then Some (parseBulk buffer o' False)
         else if tag = 0x3D then Some (parseBulk buffer o' True)
         else if tag = 0x2A then parseAggregate p buffer o' ArrayKind
         else if tag = 0x25 then parseAggregate p buffer o' MapKind
         else if tag = 0x7E then parseAggregate p buffer o' SetKind
         else if tag = 0x3E then parseAggregate p buffer o' PushKind
         else if tag = 0x5F then Some (line_frame null_line buffer o')
         else if tag = 0x23 then Some (line_frame boolean_line buffer o')
         else if tag = 0x2C then Some (line_frame double_line buffer o')
         else if tag = 0x28 then Some (line_frame bigint_line buffer o')
         else if tag = 0x21 then Some (parseBulkError buffer o')
         else if tag = 0x7C then parseAttribute p buffer o'
         else Some (Faulty ProtocolError))"

lemma parseReply_tag:
  "parseReply (Suc n) (pre @ t # r) (int (length pre)) = frame_by_tag n t (pre @ t # r) (length pre)"
  by (simp add: frame_by_tag_def Let_def del: One_nat_def)

lemma parseReply_end: "parseReply (Suc n) pre (int (length pre)) = Some Incomplete"
  by simp

declare parseReply.simps(2) [simp del]

definition reads :: "nat \<Rightarrow> resp_value \<Rightarrow> bool" where
  "reads n v \<longleftrightarrow> (\<forall>pre rest. parseReply n (pre @ wire v @ rest) (int (length pre)) =
     Some (Parsed v (int (length (wire v)))))"

definition waits :: "nat \<Rightarrow> resp_value \<Rightarrow> bool" where
  "waits n v \<longleftrightarrow> (\<forall>pre k. k < length (wire v) \<longrightarrow>
     parseReply n (pre @ take k (wire v)) (int (length pre)) = Some Incomplete)"

text \<open>A frame with the tag \<open>t\<close> that its parser reads and whose prefixes it waits on.\<close>

lemma reads_waitsI:
  assumes w: "wire v = t # r"
    and full: "\<And>pre rest. frame_by_tag n t (pre @ wire v @ rest) (length pre) = Some (Parsed v (int (length (wire v))))"
    and part: "\<And>pre k. 0 < k \<Longrightarrow> k < length (wire v) \<Longrightarrow>
      frame_by_tag n t (pre @ take k (wire v)) (length pre) = Some Incomplete"
  shows "reads (Suc n) v \<and> waits (Suc n) v"
proof
  show "reads (Suc n) v"
    unfolding reads_def using full parseReply_tag[of n _ t "r @ _"] by (simp add: w)
  show "waits (Suc n) v"
    unfolding waits_def
  proof (intro allI impI)
    fix pre k assume k: "k < length (wire v)"
    show "parseReply (Suc n) (pre @ take k (wire v)) (int (length pre)) = Some Incomplete"
    proof (cases k)
      case 0
      then show ?thesis using parseReply_end by simp
    next
      case (Suc j)
      then show ?thesis using part[of k pre] k parseReply_tag[of n pre t "take j r"] by (simp add: w)
    qed
  qed
qed

lemma reads_line:
  assumes "wire v = line t bs" and "13 \<notin> set bs" and "f (decodeText bs) = Inr v"
    and "\<And>buffer i. frame_by_tag n t buffer i = Some (line_frame f buffer i)"
  shows "reads (Suc n) v \<and> waits (Suc n) v"
  by (rule reads_waitsI[of _ t "bs @ eol"])
    (use assms line_frame_line[OF assms(2)] line_frame_prefix[OF assms(2)] in \<open>simp_all add: line_def\<close>)

lemma reads_bulk:
  assumes "wire v = sized t bs"
    and "(if verbatim then verbatim_of (decodeText bs) else RBulk (Some (decodeText bs))) = v"
    and "\<And>buffer i. frame_by_tag n t buffer i = Some (parseBulk buffer i verbatim)"
  shows "reads (Suc n) v \<and> waits (Suc n) v"
proof (rule reads_waitsI[of _ t "tl (sized t bs)"])
  show "wire v = t # tl (sized t bs)" by (simp add: assms(1) sized_def line_def)
  show "frame_by_tag n t (pre @ wire v @ rest) (length pre) = Some (Parsed v (int (length (wire v))))" for pre rest
    using parseBulk_sized[of pre t bs rest verbatim] assms by simp
  show "frame_by_tag n t (pre @ take k (wire v)) (length pre) = Some Incomplete" if "k < length (wire v)" for pre k
    using parseBulk_prefix[of k t bs pre verbatim] that assms by simp
qed

subsection \<open>Aggregates\<close>

lemma parse_items_read:
  "\<forall>v\<in>set vs. reads n v \<Longrightarrow>
     parse_items (parseReply n (pre @ concat (map wire vs) @ rest)) (length vs) (int (length pre)) =
       Some (Parsed vs (int (length pre + length (concat (map wire vs)))))"
proof (induction vs arbitrary: pre)
  case (Cons v vs)
  have "parseReply n (pre @ wire v @ concat (map wire vs) @ rest) (int (length pre)) =
      Some (Parsed v (int (length (wire v))))"
    using Cons.prems by (simp add: reads_def)
  moreover have "parse_items (parseReply n ((pre @ wire v) @ concat (map wire vs) @ rest)) (length vs)
      (int (length (pre @ wire v))) = Some (Parsed vs (int (length (pre @ wire v) + length (concat (map wire vs)))))"
    using Cons.prems by (intro Cons.IH) simp
  ultimately show ?case by (simp add: add.assoc)
qed simp

lemma parse_items_wait:
  "\<forall>v\<in>set vs. reads n v \<and> waits n v \<Longrightarrow> k < length (concat (map wire vs)) \<Longrightarrow>
     parse_items (parseReply n (pre @ take k (concat (map wire vs)))) (length vs) (int (length pre)) = Some Incomplete"
proof (induction vs arbitrary: pre k)
  case (Cons v vs)
  show ?case
  proof (cases "k < length (wire v)")
    case True
    then have "parseReply n (pre @ take k (wire v)) (int (length pre)) = Some Incomplete"
      using Cons.prems(1) by (simp add: waits_def)
    then show ?thesis using True by simp
  next
    case False
    let ?r = "take (k - length (wire v)) (concat (map wire vs))"
    have "parseReply n (pre @ wire v @ ?r) (int (length pre)) = Some (Parsed v (int (length (wire v))))"
      using Cons.prems(1) by (simp add: reads_def)
    moreover have "parse_items (parseReply n ((pre @ wire v) @ ?r)) (length vs) (int (length (pre @ wire v))) = Some Incomplete"
      using Cons.prems False by (intro Cons.IH) auto
    ultimately show ?thesis using False by (simp add: add.assoc)
  qed
qed simp

text \<open>The loop over entries is the loop over twice as many items, taken in pairs.\<close>

fun pairs_of :: "'a list \<Rightarrow> ('a \<times> 'a) list" where
  "pairs_of (a # b # r) = (a, b) # pairs_of r"
| "pairs_of r = []"

fun paired :: "'a list reply option \<Rightarrow> ('a \<times> 'a) list reply option" where
  "paired (Some (Parsed vs c)) = Some (Parsed (pairs_of vs) c)"
| "paired (Some (Faulty e)) = Some (Faulty e)"
| "paired (Some Incomplete) = Some Incomplete"
| "paired None = None"

abbreviation flat :: "('a \<times> 'a) list \<Rightarrow> 'a list" where
  "flat es \<equiv> concat (map (\<lambda>(k, v). [k, v]) es)"

lemma parse_entries_items: "parse_entries p k c = paired (parse_items p (2 * k) c)"
  by (induction k arbitrary: c) (simp_all split: option.split reply.split)

lemma flat_props [simp]:
  "pairs_of (flat es) = es"
  "length (flat es) = 2 * length es"
  "concat (map wire (flat es)) = concat (map (\<lambda>(k, v). wire k @ wire v) es)"
  by (induction es) auto

lemma parseAggregate_counted:
  "parseAggregate p (pre @ counted t n @ rest) (length pre) knd =
     (let c = int (length pre + length (counted t n)) in
      if knd = MapKind then
        (case paired (parse_items p (2 * n) c) of
           None \<Rightarrow> None
         | Some Incomplete \<Rightarrow> Some Incomplete
         | Some (Faulty e) \<Rightarrow> Some (Faulty e)
         | Some (Parsed es c) \<Rightarrow> Some (Parsed (RMap es) (c - int (length pre))))
      else
        (case parse_items p n c of
           None \<Rightarrow> None
         | Some Incomplete \<Rightarrow> Some Incomplete
         | Some (Faulty e) \<Rightarrow> Some (Faulty e)
         | Some (Parsed vs c) \<Rightarrow> Some (Parsed (aggregate_value knd vs) (c - int (length pre)))))"
proof -
  have h: "length (counted t n) \<ge> 3" by (simp add: counted_def line_def)
  show ?thesis
    using header_found[of pre t n rest, folded counted_def] h
    by (simp add: parseAggregate_def Let_def parse_entries_items)
qed

lemma parseAggregate_prefix:
  assumes "k < length (counted t n)"
  shows "parseAggregate p (pre @ take k (counted t n)) (length pre) knd = Some Incomplete"
  using findCrlf_prefix[OF ascii_no_cr[OF ascii_only_radix(1)], of k t n pre] assms
  by (simp add: parseAggregate_def counted_def)

text \<open>An aggregate is read, and waited for, when its items are.\<close>

lemma reads_aggregate:
  assumes w: "wire v = counted t m @ concat (map wire items)"
    and items: "\<forall>x\<in>set items. reads n x \<and> waits n x"
    and shape: "knd \<noteq> MapKind \<and> length items = m \<and> v = aggregate_value knd items \<or>
      knd = MapKind \<and> length items = 2 * m \<and> v = RMap (pairs_of items)"
    and tag: "\<And>buffer i. frame_by_tag n t buffer i = parseAggregate (parseReply n buffer) buffer i knd"
  shows "reads (Suc n) v \<and> waits (Suc n) v"
proof (rule reads_waitsI[of _ t "tl (counted t m) @ concat (map wire items)"])
  show "wire v = t # tl (counted t m) @ concat (map wire items)" by (simp add: w counted_def line_def)
next
  fix pre rest
  have "parse_items (parseReply n ((pre @ counted t m) @ concat (map wire items) @ rest)) (length items)
      (int (length (pre @ counted t m))) =
      Some (Parsed items (int (length (pre @ counted t m) + length (concat (map wire items)))))"
    by (rule parse_items_read) (use items in simp)
  then have loop: "parse_items (parseReply n (pre @ counted t m @ concat (map wire items) @ rest)) (length items)
      (int (length pre + length (counted t m))) =
      Some (Parsed items (int (length pre + length (counted t m) + length (concat (map wire items)))))"
    by simp
  have buf: "pre @ wire v @ rest = pre @ counted t m @ concat (map wire items) @ rest" by (simp add: w)
  have len: "length (wire v) = length (counted t m) + length (concat (map wire items))" by (simp add: w)
  show "frame_by_tag n t (pre @ wire v @ rest) (length pre) = Some (Parsed v (int (length (wire v))))"
    unfolding tag buf parseAggregate_counted len Let_def using shape loop by auto
next
  fix pre k assume k: "0 < k" "k < length (wire v)"
  show "frame_by_tag n t (pre @ take k (wire v)) (length pre) = Some Incomplete"
  proof (cases "k < length (counted t m)")
    case True
    then show ?thesis using parseAggregate_prefix[of k t m _ pre knd] by (simp add: tag w)
  next
    case False
    let ?r = "take (k - length (counted t m)) (concat (map wire items))"
    have "k - length (counted t m) < length (concat (map wire items))" using k False by (simp add: w)
    then have "parse_items (parseReply n ((pre @ counted t m) @ ?r)) (length items)
        (int (length (pre @ counted t m))) = Some Incomplete"
      using items by (intro parse_items_wait) auto
    then have loop: "parse_items (parseReply n (pre @ counted t m @ ?r)) (length items)
        (int (length pre + length (counted t m))) = Some Incomplete"
      by simp
    have buf: "pre @ take k (wire v) = pre @ counted t m @ ?r" using False by (simp add: w)
    show ?thesis unfolding tag buf parseAggregate_counted Let_def using shape loop by auto
  qed
qed

subsection \<open>Every serialised reply\<close>

lemma radix_unspaced: "\<exists>u r. js (radix_int 10 i) = u # r \<and> \<not> js_space u"
  "\<exists>u r. rev (js (radix_int 10 i)) = u # r \<and> \<not> js_space u"
proof -
  have d: "list_all unit_digit (js (radix_string 10 n)) \<and> js (radix_string 10 n) \<noteq> []" for n
    using units_of_digits[of "radix_string 10 n"] all_digits_radix[of 10 n]
    by (auto simp: all_digits_def js_def)
  have m: "js (radix_int 10 i) = (if i < 0 then [45] else []) @ js (radix_string 10 (nat \<bar>i\<bar>))"
    by (simp add: radix_int_def js_minus)
  obtain u r where ur: "js (radix_string 10 (nat \<bar>i\<bar>)) = u # r" "unit_digit u"
    using d[of "nat \<bar>i\<bar>"] by (cases "js (radix_string 10 (nat \<bar>i\<bar>))") auto
  have "\<not> js_space 45" by (simp add: js_space_def)
  then show "\<exists>u r. js (radix_int 10 i) = u # r \<and> \<not> js_space u"
    using ur digit_not_space[of u] unfolding m by (cases "i < 0") simp_all
  obtain w q where wq: "js (radix_string 10 (nat \<bar>i\<bar>)) = q @ [w]" "unit_digit w"
    using d[of "nat \<bar>i\<bar>"] by (cases "js (radix_string 10 (nat \<bar>i\<bar>))" rule: rev_cases) auto
  then show "\<exists>u r. rev (js (radix_int 10 i)) = u # r \<and> \<not> js_space u"
    using digit_not_space[of w] unfolding m by simp
qed

lemma bigInt_radix: "bigInt (js (radix_int 10 i)) = Some i"
proof -
  obtain u r where u: "js (radix_int 10 i) = u # r" "\<not> js_space u" using radix_unspaced(1) by blast
  obtain w q where w: "rev (js (radix_int 10 i)) = w # q" "\<not> js_space w" using radix_unspaced(2) by blast
  have "trim (js (radix_int 10 i)) = js (radix_int 10 i)"
  proof -
    have "dropWhile js_space (js (radix_int 10 i)) = js (radix_int 10 i)" using u by simp
    moreover have "dropWhile js_space (rev (js (radix_int 10 i))) = rev (js (radix_int 10 i))" using w by simp
    ultimately show ?thesis by (simp only: trim_def rev_rev_ident)
  qed
  moreover have "js (radix_int 10 i) \<noteq> []" using u by simp
  ultimately show ?thesis by (simp add: bigInt_def Let_def integer_radix)
qed

lemma decode_integer: "decodeText (integer_text i) = js (radix_int 10 i)"
  by (simp add: integer_text_def decode_ascii ascii_only_radix)

lemma integer_text_no_cr: "13 \<notin> set (integer_text i)"
  by (simp add: integer_text_def ascii_no_cr ascii_only_radix)

lemma integer_line_text:
  "integer_line (js (radix_int 10 i)) =
     Inr (RInteger (if MIN_SAFE_INT \<le> i \<and> i \<le> MAX_SAFE_INT then Number i else BigInteger i))"
  by (simp add: integer_line_def Let_def integer_radix)

lemma verbatim_split: "colon \<notin> set f \<Longrightarrow> f \<noteq> [] \<Longrightarrow> verbatim_of (f @ colon # s) = RVerbatim s f"
proof -
  assume f: "colon \<notin> set f" "f \<noteq> []"
  have "index_from colon (f @ colon # s) = length f"
    using f(1) by (induction f) auto
  then show ?thesis using f(2) by (simp add: verbatim_of_def)
qed

lemma double_reads:
  assumes "wireable (RDouble d)"
  shows "13 \<notin> set (double_text d)" and "double_line (decodeText (double_text d)) = Inr (RDouble d)"
proof -
  have a: "ascii_only ''inf''" "ascii_only ''-inf''" "ascii_only ''nan''" by (simp_all add: ascii_only_def)
  have "js ''inf'' \<noteq> js ''-inf''" "js ''inf'' \<noteq> js ''nan''" "js ''-inf'' \<noteq> js ''nan''" by code_simp+
  then show "double_line (decodeText (double_text d)) = Inr (RDouble d)"
    using assms by (cases d) (auto simp: double_line_def decode_ascii a decode_faithful line_text_def)
  show "13 \<notin> set (double_text d)"
    using assms by (cases d) (auto simp: ascii_no_cr a line_text_def faithful_text_def encodeText_no_cr)
qed

lemma boolean_reads:
  "13 \<notin> set (ascii (if b then ''t'' else ''f''))"
  "boolean_line (decodeText (ascii (if b then ''t'' else ''f''))) = Inr (RBoolean b)"
proof -
  have a: "ascii_only (if b then ''t'' else ''f'')" by (simp add: ascii_only_def)
  show "13 \<notin> set (ascii (if b then ''t'' else ''f''))" using a by (rule ascii_no_cr)
  have "js ''f'' \<noteq> js ''t''" by code_simp
  then show "boolean_line (decodeText (ascii (if b then ''t'' else ''f''))) = Inr (RBoolean b)"
    unfolding decode_ascii[OF a] boolean_line_def by simp
qed

lemma line_text_reads:
  "line_text s \<Longrightarrow> 13 \<notin> set (encodeText s)" "line_text s \<Longrightarrow> decodeText (encodeText s) = s"
  by (simp_all add: line_text_def faithful_text_def encodeText_no_cr decode_faithful)

lemma depth_items:
  "Suc (Max (insert 0 (set (map depth vs)))) \<le> Suc n \<Longrightarrow> v \<in> set vs \<Longrightarrow> depth v \<le> n"
  using Max_ge[of "insert 0 (set (map depth vs))" "depth v"] by auto

lemma depth_entries:
  assumes "Suc (Max (insert 0 (set (map (\<lambda>(k, v). max (depth k) (depth v)) es)))) \<le> Suc n" and "x \<in> set (flat es)"
  shows "depth x \<le> n"
proof -
  obtain k v where kv: "(k, v) \<in> set es" "x = k \<or> x = v" using assms(2) by auto
  have "\<forall>e\<in>set es. (case e of (k, v) \<Rightarrow> max (depth k) (depth v)) \<le> n"
    using assms(1) by simp
  then have "max (depth k) (depth v) \<le> n" using kv(1) by fastforce
  then show ?thesis using kv(2) by auto
qed

lemma wire_flat: "wire (RMap es) = counted 0x25 (length es) @ concat (map wire (flat es))"
  by simp

lemma reads_null_bulk: "reads (Suc n) (RBulk None) \<and> waits (Suc n) (RBulk None)"
proof (rule reads_waitsI[of _ "0x24" "ascii ''-1'' @ eol"])
  have l: "length (line t (ascii ''-1'')) = 5" for t by (simp add: line_def ascii_def)
  show "wire (RBulk None) = 0x24 # ascii ''-1'' @ eol" by (simp add: line_def)
  show "frame_by_tag n 0x24 (pre @ wire (RBulk None) @ rest) (length pre) =
      Some (Parsed (RBulk None) (int (length (wire (RBulk None)))))" for pre rest
    using header_minus_one[of pre "0x24" rest] by (simp add: frame_by_tag_def parseBulk_def l)
  show "frame_by_tag n 0x24 (pre @ take k (wire (RBulk None))) (length pre) = Some Incomplete"
    if "0 < k" "k < length (wire (RBulk None))" for pre k
    using findCrlf_prefix[of "ascii ''-1''" k "0x24" pre] that ascii_no_cr[of "''-1''"]
    by (simp add: frame_by_tag_def parseBulk_def ascii_only_def)
qed

lemma reads_null_array: "reads (Suc n) (RArray None) \<and> waits (Suc n) (RArray None)"
proof (rule reads_waitsI[of _ "0x2A" "ascii ''-1'' @ eol"])
  have l: "length (line t (ascii ''-1'')) = 5" for t by (simp add: line_def ascii_def)
  show "wire (RArray None) = 0x2A # ascii ''-1'' @ eol" by (simp add: line_def)
  show "frame_by_tag n 0x2A (pre @ wire (RArray None) @ rest) (length pre) =
      Some (Parsed (RArray None) (int (length (wire (RArray None)))))" for pre rest
    using header_minus_one[of pre "0x2A" rest] by (simp add: frame_by_tag_def parseAggregate_def l)
  show "frame_by_tag n 0x2A (pre @ take k (wire (RArray None))) (length pre) = Some Incomplete"
    if "0 < k" "k < length (wire (RArray None))" for pre k
    using findCrlf_prefix[of "ascii ''-1''" k "0x2A" pre] that ascii_no_cr[of "''-1''"]
    by (simp add: frame_by_tag_def parseAggregate_def ascii_only_def)
qed

lemma wire_reads: "wireable v \<Longrightarrow> depth v \<le> n \<Longrightarrow> reads n v \<and> waits n v"
proof (induction n arbitrary: v)
  case 0
  then show ?case by (cases v rule: depth.cases) simp_all
next
  case (Suc n)
  note tags = frame_by_tag_def Let_def
  show ?case
  proof (cases v)
    case (RString s)
    show ?thesis
      by (rule reads_line[where t = "0x2B" and f = string_line and bs = "encodeText s"])
        (use RString Suc.prems line_text_reads[of s] in \<open>simp_all add: tags string_line_def\<close>)
  next
    case (RError s p)
    show ?thesis
      by (rule reads_line[where t = "0x2D" and f = error_line and bs = "encodeText s"])
        (use RError Suc.prems line_text_reads[of s] in \<open>simp_all add: tags error_line_def\<close>)
  next
    case (RInteger m)
    obtain i where i: "wire v = line 0x3A (integer_text i)" "integer_line (js (radix_int 10 i)) = Inr v"
      using RInteger Suc.prems by (cases m) (auto simp: integer_line_text)
    show ?thesis
      by (rule reads_line[where t = "0x3A" and f = integer_line and bs = "integer_text i"])
        (use i integer_text_no_cr in \<open>simp_all add: tags decode_integer\<close>)
  next
    case (RBigint i)
    show ?thesis
      by (rule reads_line[where t = "0x28" and f = bigint_line and bs = "integer_text i"])
        (use RBigint integer_text_no_cr in \<open>simp_all add: tags decode_integer bigint_line_def bigInt_radix\<close>)
  next
    case (RDouble d)
    show ?thesis
      by (rule reads_line[where t = "0x2C" and f = double_line and bs = "double_text d"])
        (use RDouble Suc.prems double_reads[of d] in \<open>simp_all add: tags\<close>)
  next
    case (RBoolean b)
    show ?thesis
      by (rule reads_line[where t = "0x23" and f = boolean_line and bs = "ascii (if b then ''t'' else ''f'')"])
        (use RBoolean boolean_reads[of b] in \<open>simp_all only: wire.simps tags, simp_all\<close>)
  next
    case RNull
    show ?thesis
      by (rule reads_line[where t = "0x5F" and f = null_line and bs = "[]"])
        (use RNull in \<open>simp_all add: tags null_line_def\<close>)
  next
    case (RVerbatim s f)
    show ?thesis
      by (rule reads_bulk[where t = "0x3D" and verbatim = True and bs = "encodeText (f @ colon # s)"])
        (use RVerbatim Suc.prems in \<open>simp_all add: tags decode_faithful verbatim_split\<close>)
  next
    case (RSet vs)
    show ?thesis
      by (rule reads_aggregate[where t = "0x7E" and knd = SetKind and m = "length vs" and items = vs])
        (use RSet Suc depth_items[of vs n] in \<open>auto simp: tags\<close>)
  next
    case (RPush vs)
    show ?thesis
      by (rule reads_aggregate[where t = "0x3E" and knd = PushKind and m = "length vs" and items = vs])
        (use RPush Suc depth_items[of vs n] in \<open>auto simp: tags\<close>)
  next
    case (RMap es)
    have "\<forall>x\<in>set (flat es). wireable x" using Suc.prems(1) RMap by auto
    then have "\<forall>x\<in>set (flat es). reads n x \<and> waits n x"
      using Suc.IH depth_entries[of es n] Suc.prems(2) RMap by (metis depth.simps(4))
    then show ?thesis
      by (intro reads_aggregate[where t = "0x25" and knd = MapKind and m = "length es" and items = "flat es"])
        (use RMap wire_flat[of es] in \<open>simp_all add: tags del: wire.simps\<close>)
  next
    case (RBulk b)
    show ?thesis
    proof (cases b)
      case None
      then show ?thesis using RBulk reads_null_bulk by simp
    next
      case (Some s)
      show ?thesis
        by (rule reads_bulk[where t = "0x24" and verbatim = False and bs = "encodeText s"])
          (use RBulk Some Suc.prems in \<open>simp_all add: tags decode_faithful\<close>)
    qed
  next
    case (RArray a)
    show ?thesis
    proof (cases a)
      case None
      then show ?thesis using RArray reads_null_array by simp
    next
      case (Some vs)
      show ?thesis
        by (rule reads_aggregate[where t = "0x2A" and knd = ArrayKind and m = "length vs" and items = vs])
          (use RArray Some Suc depth_items[of vs n] in \<open>auto simp: tags\<close>)
    qed
  qed
qed

end
