(* ===== verification/RespParse.thy ===== *)
theory RespParse
  imports RespWire
begin

text \<open>
  What the reply parser promises: the round trip with the protocol's serialisation, what a command
  looks like to the server, where a parsed frame lies in the buffer, and for which buffers the
  parser returns.
\<close>

lemma points_low: "\<forall>u\<in>set us. \<not> high_surrogate u \<Longrightarrow> code_points us = map (\<lambda>u. [u]) us"
  by (induction us rule: code_points.induct) auto

lemma ascii_units:
  assumes "\<forall>c\<in>set s. (of_char c :: nat) < 128"
  shows "encodeText (js s) = ascii s" and "faithful_text (js s)"
proof -
  let ?u = "\<lambda>c. of_nat (of_char c) :: code_unit"
  have u: "unat (?u c) = of_char c" if "c \<in> set s" for c
    using that assms by (fastforce simp: unat_of_nat intro: take_bit_nat_eq_self)
  have "\<forall>v\<in>set (js s). \<not> high_surrogate v"
    using u assms by (fastforce simp: js_def surrogate_range)
  then have cp: "code_points (js s) = map (\<lambda>c. [?u c]) s" by (simp add: points_low js_def comp_def)
  have "(utf8 \<circ> point_value) [?u c] = [of_char c]" if "c \<in> set s" for c
  proof -
    have "\<not> high_surrogate (?u c) \<and> \<not> low_surrogate (?u c)"
      using u[OF that] assms that by (fastforce simp: surrogate_range)
    then show ?thesis using u[OF that] assms that by (simp add: point_value_def utf8_def)
  qed
  then have "concat (map (utf8 \<circ> point_value) (code_points (js s))) = map of_char s"
    unfolding cp by (induction s) auto
  then show "encodeText (js s) = ascii s" by (simp add: encodeText_def ascii_def)
  have "\<forall>v\<in>set (js s). \<not> high_surrogate v \<and> \<not> low_surrogate v \<and> v \<noteq> byte_order_mark"
  proof
    fix v assume "v \<in> set (js s)"
    then obtain c where c: "c \<in> set s" "v = ?u c" by (auto simp: js_def)
    then have "unat v < 128" using u assms by simp
    then show "\<not> high_surrogate v \<and> \<not> low_surrogate v \<and> v \<noteq> byte_order_mark"
      by (auto simp: surrogate_range byte_order_mark_def)
  qed
  then show "faithful_text (js s)"
    using cp by (cases s) (auto simp: faithful_text_def well_formed_def strip_mark_def js_def)
qed

text \<open>C9: a serialised reply anywhere in the buffer is read back whole, whatever follows, with as much fuel as it
  is nested, and every proper prefix of it asks for more bytes.\<close>

theorem reply_roundtrip:
  assumes "wireable v" and "depth v \<le> fuel"
  shows "parseReply fuel (pre @ wire v @ rest) (int (length pre)) = Some (Parsed v (int (length (wire v)))) \<and>
    (\<forall>k < length (wire v). parseReply fuel (pre @ take k (wire v)) (int (length pre)) = Some Incomplete)"
  using wire_reads[OF assms] unfolding reads_def waits_def by blast

abbreviation example_reply :: resp_value where
  "example_reply \<equiv>
     RMap [(RBulk (Some (js ''n'')), RArray (Some [RInteger (Number 7), RArray None, RBoolean True]))]"

theorem reply_roundtrip_witness:
  "parseReply 3 ([1, 2] @ wire example_reply @ [9]) 2 = Some (Parsed example_reply (int (length (wire example_reply))))"
proof -
  have "wireable example_reply"
    using ascii_units(2)[of "''n''"] by (simp add: MIN_SAFE_INT_def MAX_SAFE_INT_def)
  from reply_roundtrip[OF this, of 3 "[1, 2]" "[9]"] show ?thesis by simp
qed

subsection \<open>Commands\<close>








subsection \<open>Where a frame lies, and when the parser returns\<close>

text \<open>A reply at \<open>o\<close> that was parsed ends inside the buffer, after its first byte.\<close>

definition within :: "byte list \<Rightarrow> int \<Rightarrow> 'a reply option \<Rightarrow> bool" where
  "within buffer i r \<longleftrightarrow> (\<forall>v n. r = Some (Parsed v n) \<longrightarrow> 0 < n \<and> i + n \<le> int (length buffer))"

text \<open>No bulk error of the buffer announces a length so negative that its frame would not advance.\<close>

definition sane_errors :: "byte list \<Rightarrow> bool" where
  "sane_errors buffer \<longleftrightarrow> (\<forall>i < length buffer. buffer ! i = 0x21 \<longrightarrow>
     (case parseBulkError buffer i of Parsed v n \<Rightarrow> 0 < n | _ \<Rightarrow> True))"

lemma crlf_at_bound: "crlf_at bs = Some k \<Longrightarrow> k + 2 \<le> length bs"
proof (induction bs arbitrary: k)
  case (Cons b bs)
  then show ?case by (cases bs) (auto split: if_splits)
qed simp

lemma findCrlf_bound: "findCrlf buffer a = Some e \<Longrightarrow> a \<le> e \<and> e + 2 \<le> length buffer"
  by (auto simp: findCrlf_def dest!: crlf_at_bound)

lemma line_frame_within: "within buffer (int i) (Some (line_frame f buffer i))"
  by (auto simp: within_def line_frame_def split: option.splits sum.splits dest!: findCrlf_bound)

lemma parseBulk_within: "within buffer (int i) (Some (parseBulk buffer i verbatim))"
  by (auto simp: within_def parseBulk_def Let_def split: option.splits if_splits dest!: findCrlf_bound)

lemma parseBulkError_end: "parseBulkError buffer i = Parsed v n \<Longrightarrow> int i + n \<le> int (length buffer)"
  by (auto simp: parseBulkError_def Let_def split: option.splits if_splits)

text \<open>A parser that is safe from \<open>c\<close> on: it answers with a frame after the cursor and inside the buffer.\<close>

definition safe_from :: "byte list \<Rightarrow> parser \<Rightarrow> int \<Rightarrow> bool" where
  "safe_from buffer p c \<longleftrightarrow> (\<forall>d \<ge> c. within buffer d (p d))"

lemma safe_fromD:
  "safe_from buffer p c \<Longrightarrow> c \<le> d \<Longrightarrow> p d = Some (Parsed v n) \<Longrightarrow> 0 < n \<and> d + n \<le> int (length buffer)"
  by (auto simp: safe_from_def within_def)

lemma safe_later: "safe_from buffer p c \<Longrightarrow> c \<le> d \<Longrightarrow> safe_from buffer p d"
  by (simp add: safe_from_def)

lemma parse_items_within:
  "safe_from buffer p c \<Longrightarrow> c \<le> int (length buffer) \<Longrightarrow> parse_items p k c = Some (Parsed vs d) \<Longrightarrow>
     c \<le> d \<and> d \<le> int (length buffer)"
proof (induction k arbitrary: c vs)
  case (Suc k)
  obtain v n us where p: "p c = Some (Parsed v n)" "parse_items p k (c + n) = Some (Parsed us d)"
    using Suc.prems(3) by (auto split: option.splits reply.splits)
  have "0 < n \<and> c + n \<le> int (length buffer)" using safe_fromD[OF Suc.prems(1) order_refl p(1)] .
  then show ?case using Suc.IH[OF _ _ p(2)] safe_later[OF Suc.prems(1), of "c + n"] by simp
qed simp

lemma parseAggregate_within:
  assumes "safe_from buffer p (int i + 1)"
  shows "within buffer (int i) (parseAggregate p buffer i knd)"
  unfolding within_def
proof (intro allI impI)
  fix v n assume r: "parseAggregate p buffer i knd = Some (Parsed v n)"
  then obtain e where e: "findCrlf buffer (i + 1) = Some e"
    by (auto simp: parseAggregate_def split: option.splits)
  then have b: "i + 1 \<le> e" "e + 2 \<le> length buffer" using findCrlf_bound by auto
  have s: "safe_from buffer p (int e + 2)" using assms safe_later b by auto
  have "n = int e + 2 - int i \<or>
      (\<exists>k vs d. parse_items p k (int e + 2) = Some (Parsed vs d) \<and> n = d - int i)"
    using r e by (auto simp: parseAggregate_def parse_entries_items
        split: option.splits if_splits reply.splits elim!: paired.elims)
  then show "0 < n \<and> int i + n \<le> int (length buffer)"
    using parse_items_within[OF s] b by fastforce
qed

lemma parseAttribute_within:
  assumes "safe_from buffer p (int i + 1)"
  shows "within buffer (int i) (parseAttribute p buffer i)"
  unfolding within_def
proof (intro allI impI)
  fix v n assume r: "parseAttribute p buffer i = Some (Parsed v n)"
  then obtain a m k where a: "parseAggregate p buffer i MapKind = Some (Parsed a m)"
      "p (int i + m) = Some (Parsed v k)" "n = m + k"
    by (auto simp: parseAttribute_def split: option.splits reply.splits)
  have "0 < m" using parseAggregate_within[OF assms] a(1) by (simp add: within_def)
  then have "0 < k \<and> int i + m + k \<le> int (length buffer)"
    using safe_fromD[OF assms _ a(2)] by simp
  then show "0 < n \<and> int i + n \<le> int (length buffer)" using a(3) \<open>0 < m\<close> by simp
qed

lemma parseReply_byte:
  "i < length buffer \<Longrightarrow> parseReply (Suc n) buffer (int i) = frame_by_tag n (buffer ! i) buffer i"
  using parseReply_tag[of n "take i buffer" "buffer ! i" "drop (Suc i) buffer"]
  by (simp add: id_take_nth_drop[symmetric] min_def)

lemma parseReply_within: "sane_errors buffer \<Longrightarrow> safe_from buffer (parseReply n buffer) 0"
proof (induction n)
  case 0
  show ?case by (simp add: safe_from_def within_def)
next
  case (Suc n)
  have p: "safe_from buffer (parseReply n buffer) (int i + 1)" for i using Suc safe_later by force
  show ?case
    unfolding safe_from_def
  proof (intro allI impI)
    fix d :: int assume "0 \<le> d"
    then obtain i where i: "d = int i" using nonneg_int_cases by blast
    show "within buffer d (parseReply (Suc n) buffer d)"
    proof (cases "i < length buffer")
      case False
      then show ?thesis by (simp add: i parseReply.simps within_def)
    next
      case True
      have "buffer ! i = 0x21 \<Longrightarrow> within buffer (int i) (Some (parseBulkError buffer i))"
        using Suc.prems True parseBulkError_end[of buffer i] by (force simp: sane_errors_def within_def)
      moreover have "within buffer (int i) (Some (Faulty e :: resp_value reply))" for e by (simp add: within_def)
      ultimately show ?thesis
        unfolding i parseReply_byte[OF True] frame_by_tag_def Let_def
        by (simp add: line_frame_within parseBulk_within parseAggregate_within[OF p] parseAttribute_within[OF p])
    qed
  qed
qed

text \<open>More fuel does not change an answer.\<close>

definition extends :: "parser \<Rightarrow> parser \<Rightarrow> bool" where
  "extends p q \<longleftrightarrow> (\<forall>c r. p c = Some r \<longrightarrow> q c = Some r)"

lemma parse_items_extends: "extends p q \<Longrightarrow> parse_items p k c = Some r \<Longrightarrow> parse_items q k c = Some r"
proof (induction k arbitrary: c r)
  case (Suc k)
  then obtain s where p: "p c = Some s" by (auto split: option.splits)
  then have q: "q c = Some s" using Suc.prems(1) by (simp add: extends_def)
  show ?case
  proof (cases s)
    case (Parsed v n)
    then obtain t where t: "parse_items p k (c + n) = Some t" using p Suc.prems(2) by (auto split: option.splits)
    then show ?thesis using Suc.IH[OF Suc.prems(1) t] Suc.prems(2) p q Parsed by simp
  qed (use p q Suc.prems in auto)
qed simp

lemma paired_Some: "paired r = Some s \<Longrightarrow> \<exists>t. r = Some t"
  by (cases r) auto

lemma parseAggregate_extends:
  assumes "extends p q" and "parseAggregate p buffer i knd = Some r"
  shows "parseAggregate q buffer i knd = Some r"
proof -
  have "parse_items p k c = Some t \<Longrightarrow> parse_items q k c = Some t" for k c t
    using parse_items_extends[OF assms(1)] .
  then have items: "parse_items p k c = None \<or> parse_items q k c = parse_items p k c" for k c
    by (metis option.exhaust)
  then have entries: "parse_entries p k c = None \<or> parse_entries q k c = parse_entries p k c" for k c
    unfolding parse_entries_items by (metis paired.simps(4))
  show ?thesis
  proof (cases "findCrlf buffer (i + 1)")
    case (Some e)
    note crlf = Some
    show ?thesis
    proof (cases "parseInt10 (decode_range buffer (int i + 1) (int e))")
      case (Some count)
      show ?thesis
        using assms(2) items[of "nat count" "int e + 2"] entries[of "nat count" "int e + 2"] crlf Some
        by (auto simp: parseAggregate_def split: if_split_asm)
    qed (use assms(2) crlf in \<open>simp add: parseAggregate_def\<close>)
  qed (use assms(2) in \<open>simp add: parseAggregate_def\<close>)
qed

lemma parseAttribute_extends:
  assumes "extends p q" and "parseAttribute p buffer i = Some r"
  shows "parseAttribute q buffer i = Some r"
proof -
  obtain s where s: "parseAggregate p buffer i MapKind = Some s"
    using assms(2) by (auto simp: parseAttribute_def split: option.splits)
  note q = parseAggregate_extends[OF assms(1) s]
  show ?thesis
  proof (cases s)
    case (Parsed a n)
    then obtain t where t: "p (int i + n) = Some t"
      using assms(2) s by (auto simp: parseAttribute_def split: option.splits)
    then have "q (int i + n) = Some t" using assms(1) by (simp add: extends_def)
    then show ?thesis using assms(2) s q t Parsed by (simp add: parseAttribute_def)
  qed (use assms(2) s q in \<open>auto simp: parseAttribute_def\<close>)
qed

lemma parseReply_extends: "n \<le> m \<Longrightarrow> extends (parseReply n buffer) (parseReply m buffer)"
proof (induction n arbitrary: m)
  case (Suc n)
  then obtain k where k: "m = Suc k" "n \<le> k" by (cases m) auto
  note e = Suc.IH[OF k(2)]
  show ?case
    unfolding extends_def
  proof (intro allI impI)
    fix c r assume r: "parseReply (Suc n) buffer c = Some r"
    show "parseReply m buffer c = Some r"
    proof (cases "0 \<le> c \<and> c < int (length buffer)")
      case True
      then obtain i where i: "c = int i" "i < length buffer" using nonneg_int_cases by (metis of_nat_less_iff)
      show ?thesis
        using r unfolding i(1) k(1) parseReply_byte[OF i(2)] frame_by_tag_def Let_def
        by (simp add: parseAggregate_extends[OF e] parseAttribute_extends[OF e] split: if_split_asm)
    qed (use r in \<open>auto simp: parseReply.simps k(1)\<close>)
  qed
qed (simp add: extends_def)

lemma parseReply_more: "parseReply n buffer c = Some r \<Longrightarrow> n \<le> m \<Longrightarrow> parseReply m buffer c = Some r"
  using parseReply_extends by (simp add: extends_def)

text \<open>Termination: each nested frame starts after its enclosing one.\<close>

definition answers :: "byte list \<Rightarrow> parser \<Rightarrow> int \<Rightarrow> bool" where
  "answers buffer p c \<longleftrightarrow> safe_from buffer p c \<and> (\<forall>d \<ge> c. p d \<noteq> None)"

lemma answers_later: "answers buffer p c \<Longrightarrow> c \<le> d \<Longrightarrow> answers buffer p d"
  by (simp add: answers_def safe_from_def)

lemma parse_items_answers: "answers buffer p c \<Longrightarrow> parse_items p k c \<noteq> None"
proof (induction k arbitrary: c)
  case (Suc k)
  obtain r where r: "p c = Some r" using Suc.prems by (auto simp: answers_def)
  show ?case
  proof (cases r)
    case (Parsed v n)
    have "0 < n" using Suc.prems safe_fromD[of buffer p c c v n] r Parsed by (simp add: answers_def)
    then have "parse_items p k (c + n) \<noteq> None" using Suc.IH answers_later[OF Suc.prems] by simp
    then show ?thesis using r Parsed by (auto split: option.splits reply.splits)
  qed (simp_all add: r)
qed simp

lemma paired_None: "paired r = None \<longleftrightarrow> r = None"
  by (cases r rule: paired.cases) simp_all

lemma parseAggregate_answers:
  assumes "answers buffer p (int i + 1)"
  shows "parseAggregate p buffer i knd \<noteq> None"
proof (cases "findCrlf buffer (i + 1)")
  case (Some e)
  then have "answers buffer p (int e + 2)" using assms answers_later findCrlf_bound by fastforce
  then have a: "parse_items p k (int e + 2) \<noteq> None" for k by (rule parse_items_answers)
  then have "parse_entries p k (int e + 2) \<noteq> None" for k by (simp add: parse_entries_items paired_None)
  then show ?thesis
    using Some a by (auto simp: parseAggregate_def simp del: not_None_eq split: option.split reply.split)
qed (simp add: parseAggregate_def)

lemma parseAttribute_answers:
  assumes "answers buffer p (int i + 1)"
  shows "parseAttribute p buffer i \<noteq> None"
proof -
  have "p (int i + m) \<noteq> None" if "parseAggregate p buffer i MapKind = Some (Parsed a m)" for a m
  proof -
    have "0 < m" using parseAggregate_within[of buffer p i MapKind] assms that by (auto simp: answers_def within_def)
    then show ?thesis using assms by (simp add: answers_def)
  qed
  then show ?thesis
    using parseAggregate_answers[OF assms, of MapKind]
    by (auto simp: parseAttribute_def split: option.splits reply.splits)
qed

lemma parseReply_answers:
  assumes "sane_errors buffer"
  shows "0 \<le> c \<Longrightarrow> 0 < n \<Longrightarrow> int (length buffer) < int n + c \<Longrightarrow> answers buffer (parseReply n buffer) c"
proof (induction n arbitrary: c)
  case (Suc n)
  have "parseReply (Suc n) buffer d \<noteq> None" if d: "c \<le> d" for d
  proof -
    obtain i where i: "d = int i" using d Suc.prems nonneg_int_cases by (metis order_trans)
    show ?thesis
    proof (cases "i < length buffer")
      case False
      then show ?thesis by (simp add: i parseReply.simps)
    next
      case True
      then have "answers buffer (parseReply n buffer) (int i + 1)" using Suc d i by simp
      then show ?thesis
        unfolding i parseReply_byte[OF True] frame_by_tag_def Let_def
        by (simp add: parseAggregate_answers parseAttribute_answers del: not_None_eq)
    qed
  qed
  then show ?case
    using safe_later[OF parseReply_within[OF assms] Suc.prems(1)] by (simp add: answers_def)
qed simp

text \<open>C15: the parser returns on every buffer without a bulk error of negative length (nesting deeper than the number
  of bytes left cannot arise), and a frame it found has at least one byte and ends inside the buffer.\<close>

theorem parser_returns:
  assumes "sane_errors buffer" and "0 \<le> offset"
  shows "\<exists>r. parseReply (Suc (length buffer)) buffer offset = Some r \<and>
    (\<forall>v n. r = Parsed v n \<longrightarrow> 0 < n \<and> offset + n \<le> int (length buffer))"
proof -
  have "answers buffer (parseReply (Suc (length buffer)) buffer) offset"
    using assms(2) by (intro parseReply_answers[OF assms]) simp_all
  then show ?thesis unfolding answers_def using safe_fromD[of buffer _ offset offset] by fastforce
qed

theorem parser_returns_witness: "\<exists>r. parseReply 6 [0x2A, 49, 13, 10, 0x21] 0 = Some r \<and> (\<forall>v n. r = Parsed v n \<longrightarrow> 0 < n \<and> 0 + n \<le> 5)"
proof -
  have "sane_errors [0x2A, 49, 13, 10, 0x21]"
    by (auto simp: sane_errors_def less_Suc_eq nth_Cons' parseBulkError_def findCrlf_def)
  from parser_returns[OF this, of 0] show ?thesis by (simp add: eval_nat_numeral)
qed

text \<open>C32: a bulk error whose length is negative moves the cursor backwards: inside an array it makes the parser start
  over at the array's own first byte, so that no amount of nesting is enough on these ten bytes.\<close>

theorem negative_error_length_diverges:
  "parseReply fuel [0x2A, 50, 13, 10, 0x21, 45, 49, 50, 13, 10] 0 = None"
proof (induction fuel)
  case step: (Suc n)
  let ?b = "[0x2A, 50, 13, 10, 0x21, 45, 49, 50, 13, 10] :: byte list"
  have h: "findCrlf ?b 1 = Some 2" "parseInt10 (decode_range ?b 1 2) = Some 2" by code_simp+
  have e: "\<exists>m. parseBulkError ?b 4 = Parsed m (-4)"
  proof -
    have "findCrlf ?b 5 = Some 8" "parseInt10 (decode_range ?b 5 8) = Some (-12)" by code_simp+
    then show ?thesis by (simp add: parseBulkError_def Let_def)
  qed
  have "parse_items (parseReply n ?b) 2 4 = None"
  proof (cases n)
    case (Suc k)
    obtain m where "parseReply n ?b 4 = Some (Parsed m (-4))"
      using parseReply_byte[of 4 ?b k] e by (auto simp: Suc frame_by_tag_def Let_def)
    then show ?thesis using step unfolding Suc by (simp add: numeral_2_eq_2 Suc)
  qed (simp add: numeral_2_eq_2)
  then show ?case
    using parseReply_byte[of 0 ?b n] h by (simp add: frame_by_tag_def Let_def parseAggregate_def)
qed simp

end
