(* ===== verification/RedisConn.thy ===== *)
theory RedisConn
  imports RespParse
begin

text \<open>
  The connection that frames commands and replies over a socket
  (\<open>src/packages/drivers/engines/redis/RedisConnection.ts\<close>): the growable receive buffer with its
  live window, and the loop that reads until a frame is complete and skips push frames.

  The socket is the list of what its reads deliver; an exhausted list is a read that is still
  pending.  \<open>fuel\<close> bounds the frames and chunks one call looks at and the nesting of a frame.
\<close>

record redis_connection =
  buffer :: "byte list"
  readOff :: int
  writeOff :: int
  conn_closed :: bool
  maxBufferBytes :: nat

definition new_connection :: "nat \<Rightarrow> redis_connection" where
  "new_connection maxb = \<lparr>buffer = replicate 8192 0, readOff = 0, writeOff = 0, conn_closed = False, maxBufferBytes = maxb\<rparr>"

datatype read_event = Chunk "byte list" | ReadRejected | EndOfStream

datatype connection_error = NoConnection | WriteRejected | ReadError | ConnectionLost | ReplyTooLarge | ParseFault resp_fault

datatype read_outcome = Reply resp_value | Throws connection_error | Pending

text \<open>\<open>buffer.subarray(a, b)\<close>.\<close>

definition subarray :: "byte list \<Rightarrow> int \<Rightarrow> int \<Rightarrow> byte list" where
  "subarray buf a b = slice (relative_index (length buf) a) (relative_index (length buf) b) buf"

definition live_window :: "redis_connection \<Rightarrow> byte list" where
  "live_window c = subarray (buffer c) (readOff c) (writeOff c)"

text \<open>\<open>while (cap < needed) cap *= 2\<close>, for a positive capacity.\<close>

function grow_capacity :: "nat \<Rightarrow> nat \<Rightarrow> nat" where
  "grow_capacity cap needed = (if cap = 0 \<or> needed \<le> cap then cap else grow_capacity (cap * 2) needed)"
  by pat_completeness auto
termination
  by (relation "measure (\<lambda>(cap, needed). needed - cap)") auto

declare grow_capacity.simps [simp del]

text \<open>\<open>target.set(source, at)\<close> where the source fits.\<close>

definition set_bytes :: "byte list \<Rightarrow> byte list \<Rightarrow> nat \<Rightarrow> byte list" where
  "set_bytes target source at = take at target @ source @ drop (at + length source) target"

text \<open>The branch that makes room for \<open>extra\<close> more bytes: grow, or move the window to the front.\<close>

definition make_room :: "redis_connection \<Rightarrow> nat \<Rightarrow> redis_connection" where
  "make_room c extra =
     (let live = writeOff c - readOff c; needed = live + int extra
      in if needed > int (length (buffer c)) then
           c\<lparr>buffer := set_bytes (replicate (grow_capacity (length (buffer c)) (nat needed)) 0) (live_window c) 0,
             writeOff := live, readOff := 0\<rparr>
         else if readOff c > 0 then
           c\<lparr>buffer := set_bytes (buffer c) (live_window c) 0, writeOff := live, readOff := 0\<rparr>
         else c)"

definition appendChunk :: "redis_connection \<Rightarrow> byte list \<Rightarrow> redis_connection" where
  "appendChunk c chunk =
     (let c1 = make_room c (length chunk)
      in c1\<lparr>buffer := set_bytes (buffer c1) chunk (nat (writeOff c1)), writeOff := writeOff c1 + int (length chunk)\<rparr>)"

definition close :: "redis_connection \<Rightarrow> redis_connection" where
  "close c = c\<lparr>conn_closed := True\<rparr>"

definition consume :: "redis_connection \<Rightarrow> int \<Rightarrow> redis_connection" where
  "consume c n =
     (let r = readOff c + n
      in if r = writeOff c then c\<lparr>readOff := 0, writeOff := 0\<rparr> else c\<lparr>readOff := r\<rparr>)"

fun is_push :: "resp_value \<Rightarrow> bool" where
  "is_push (RPush vs) = True"
| "is_push v = False"

text \<open>One frame from the live window, if it holds one.\<close>

definition try_parse :: "nat \<Rightarrow> redis_connection \<Rightarrow> resp_value reply option" where
  "try_parse n c = (if writeOff c > readOff c then parseReply n (live_window c) 0 else Some Incomplete)"

fun readReply :: "nat \<Rightarrow> redis_connection \<Rightarrow> read_event list \<Rightarrow>
    (read_outcome \<times> redis_connection \<times> read_event list) option" where
  "readReply 0 c evs = None"
| "readReply (Suc n) c evs =
     (case try_parse n c of
        None \<Rightarrow> None
      | Some (Faulty e) \<Rightarrow> Some (Throws (ParseFault e), c, evs)
      | Some (Parsed v k) \<Rightarrow>
          (if is_push v then readReply n (consume c k) evs else Some (Reply v, consume c k, evs))
      | Some Incomplete \<Rightarrow>
          (case evs of
             [] \<Rightarrow> Some (Pending, c, [])
           | ReadRejected # es \<Rightarrow> Some (Throws ReadError, c\<lparr>conn_closed := True\<rparr>, es)
           | EndOfStream # es \<Rightarrow> Some (Throws ConnectionLost, c\<lparr>conn_closed := True\<rparr>, es)
           | Chunk b # es \<Rightarrow>
               (let c' = appendChunk c b
                in if writeOff c' - readOff c' > int (maxBufferBytes c')
                   then Some (Throws ReplyTooLarge, close c', es)
                   else readReply n c' es)))"

text \<open>\<open>write_ok\<close>: whether the socket takes the command; the last component are the bytes written.\<close>

definition send :: "nat \<Rightarrow> bool \<Rightarrow> command_part list \<Rightarrow> redis_connection \<Rightarrow> read_event list \<Rightarrow>
    (read_outcome \<times> redis_connection \<times> read_event list \<times> byte list) option" where
  "send n write_ok parts c evs =
     (if conn_closed c then Some (Throws NoConnection, c, evs, [])
      else if \<not> write_ok then Some (Throws WriteRejected, c\<lparr>conn_closed := True\<rparr>, evs, [])
      else map_option (\<lambda>(r, c', es). (r, c', es, encodeCommand parts)) (readReply n c evs))"

subsection \<open>The buffer\<close>

text \<open>The offsets delimit a window of the buffer, which has room.\<close>

definition buffer_ok :: "redis_connection \<Rightarrow> bool" where
  "buffer_ok c \<longleftrightarrow> 0 \<le> readOff c \<and> readOff c \<le> writeOff c \<and> writeOff c \<le> int (length (buffer c)) \<and> buffer c \<noteq> []"

lemma subarray_inside:
  "0 \<le> a \<Longrightarrow> a \<le> b \<Longrightarrow> b \<le> int (length buf) \<Longrightarrow> subarray buf a b = take (nat (b - a)) (drop (nat a) buf)"
  by (simp add: subarray_def relative_index_def slice_def nat_diff_distrib)

lemma live_window_ok:
  "buffer_ok c \<Longrightarrow> live_window c = take (nat (writeOff c - readOff c)) (drop (nat (readOff c)) (buffer c))"
  by (simp add: live_window_def subarray_inside buffer_ok_def)

lemma length_live_window: "buffer_ok c \<Longrightarrow> int (length (live_window c)) = writeOff c - readOff c"
  by (auto simp: live_window_ok buffer_ok_def)

lemma grow_capacity_enough: "0 < cap \<Longrightarrow> needed \<le> grow_capacity cap needed \<and> cap \<le> grow_capacity cap needed"
proof (induction cap needed rule: grow_capacity.induct)
  case (1 cap needed)
  then show ?case by (subst (1 2) grow_capacity.simps) auto
qed

lemma window_after_set:
  assumes "w + length chunk \<le> length buf"
  shows "take (w + length chunk) (set_bytes buf chunk w) = take w buf @ chunk"
  using assms by (simp add: set_bytes_def)

lemma length_set_bytes: "i + length src \<le> length buf \<Longrightarrow> length (set_bytes buf src i) = length buf"
  by (simp add: set_bytes_def)

lemma set_bytes_nonempty: "i + length src \<le> length buf \<Longrightarrow> buf \<noteq> [] \<Longrightarrow> set_bytes buf src i \<noteq> []"
  using length_set_bytes[of i src buf] by fastforce

lemma make_room_flags [simp]:
  "conn_closed (make_room c n) = conn_closed c" "maxBufferBytes (make_room c n) = maxBufferBytes c"
  by (simp_all add: make_room_def Let_def)

lemma set_front:
  "length src \<le> length buf \<Longrightarrow> take (length src) (set_bytes buf src 0) = src"
  by (simp add: set_bytes_def)

lemma make_room_window:
  assumes "buffer_ok c"
  shows "buffer_ok (make_room c n) \<and> live_window (make_room c n) = live_window c \<and>
    writeOff (make_room c n) + int n \<le> int (length (buffer (make_room c n)))"
proof -
  let ?live = "writeOff c - readOff c"
  have len: "int (length (live_window c)) = ?live" using assms by (rule length_live_window)
  have ok: "0 \<le> readOff c" "0 \<le> ?live" "?live \<le> int (length (buffer c))" "buffer c \<noteq> []"
    using assms by (auto simp: buffer_ok_def)
  have front: "buffer_ok c' \<and> live_window c' = live_window c"
    if "c' = c\<lparr>buffer := set_bytes buf (live_window c) 0, writeOff := ?live, readOff := 0\<rparr>"
      and "?live \<le> int (length buf)" and "buf \<noteq> []" for c' buf
  proof -
    have l: "length (live_window c) \<le> length buf" using that(2) len by linarith
    then have "length (set_bytes buf (live_window c) 0) = length buf" "set_bytes buf (live_window c) 0 \<noteq> []"
      using that(3) by (simp_all add: length_set_bytes set_bytes_nonempty)
    then have "buffer_ok c'" using that ok by (simp add: buffer_ok_def)
    moreover have "nat ?live = length (live_window c)" using len by linarith
    ultimately show ?thesis using set_front[OF l] that(1) by (simp add: live_window_ok)
  qed
  consider (grow) "?live + int n > int (length (buffer c))"
    | (shift) "\<not> ?live + int n > int (length (buffer c))" "readOff c > 0"
    | (stay) "\<not> ?live + int n > int (length (buffer c))" "readOff c = 0"
    using ok(1) by linarith
  then show ?thesis
  proof cases
    case grow
    let ?cap = "grow_capacity (length (buffer c)) (nat (?live + int n))"
    have cap: "nat (?live + int n) \<le> ?cap \<and> length (buffer c) \<le> ?cap"
      using ok(4) by (intro grow_capacity_enough) simp
    then have pos: "0 < ?cap" using ok(4) by (metis gr0I le_zero_eq length_0_conv)
    let ?z = "replicate ?cap (0 :: byte)"
    have d: "make_room c n = c\<lparr>buffer := set_bytes ?z (live_window c) 0, writeOff := ?live, readOff := 0\<rparr>"
      using grow by (simp add: make_room_def Let_def)
    have fit: "?live \<le> int (length ?z)" "?z \<noteq> []" using cap pos ok(3) by auto
    then have "length (set_bytes ?z (live_window c) 0) = ?cap"
      using len by (subst length_set_bytes) auto
    then have "writeOff (make_room c n) + int n \<le> int (length (buffer (make_room c n)))"
      using cap ok(2) unfolding d by simp linarith
    then show ?thesis using front[OF d fit] by blast
  next
    case shift
    have d: "make_room c n = c\<lparr>buffer := set_bytes (buffer c) (live_window c) 0, writeOff := ?live, readOff := 0\<rparr>"
      using shift by (simp add: make_room_def Let_def)
    have "length (set_bytes (buffer c) (live_window c) 0) = length (buffer c)"
      using len ok by (subst length_set_bytes) auto
    then have "writeOff (make_room c n) + int n \<le> int (length (buffer (make_room c n)))"
      using shift(1) unfolding d by simp
    then show ?thesis using front[OF d ok(3,4)] by blast
  next
    case stay
    then show ?thesis using assms by (simp add: make_room_def Let_def)
  qed
qed

lemma appendChunk_window:
  assumes "buffer_ok c"
  shows "buffer_ok (appendChunk c chunk) \<and> live_window (appendChunk c chunk) = live_window c @ chunk"
proof -
  let ?d = "make_room c (length chunk)"
  have d: "buffer_ok ?d" "live_window ?d = live_window c" "nat (writeOff ?d) + length chunk \<le> length (buffer ?d)"
    using make_room_window[OF assms, of "length chunk"] unfolding buffer_ok_def by auto
  let ?b = "set_bytes (buffer ?d) chunk (nat (writeOff ?d))"
  have w: "take (nat (writeOff ?d) + length chunk) ?b = take (nat (writeOff ?d)) (buffer ?d) @ chunk"
    by (rule window_after_set[OF d(3)])
  have ok: "buffer_ok (appendChunk c chunk)"
    using d(1,3) length_set_bytes[OF d(3)] set_bytes_nonempty[OF d(3)]
    by (auto simp: appendChunk_def Let_def buffer_ok_def)
  have r: "0 \<le> readOff ?d" "readOff ?d \<le> writeOff ?d" using d(1) by (auto simp: buffer_ok_def)
  then have "nat (writeOff ?d + int (length chunk) - readOff ?d) = nat (writeOff ?d) + length chunk - nat (readOff ?d)"
    by linarith
  then have "live_window (appendChunk c chunk) =
      drop (nat (readOff ?d)) (take (nat (writeOff ?d) + length chunk) ?b)"
    using ok by (simp add: live_window_ok drop_take) (simp add: appendChunk_def Let_def)
  also have "\<dots> = drop (nat (readOff ?d)) (take (nat (writeOff ?d)) (buffer ?d)) @ chunk"
    using r d(3) unfolding w by simp
  also have "drop (nat (readOff ?d)) (take (nat (writeOff ?d)) (buffer ?d)) = live_window ?d"
    using d(1) r by (simp add: live_window_ok drop_take nat_diff_distrib)
  finally show ?thesis using ok d(2) by simp
qed

lemma appendChunk_flags [simp]:
  "conn_closed (appendChunk c b) = conn_closed c" "maxBufferBytes (appendChunk c b) = maxBufferBytes c"
  by (simp_all add: appendChunk_def Let_def)

lemma consume_window:
  assumes "buffer_ok c" and "0 \<le> n" and "n \<le> int (length (live_window c))"
  shows "buffer_ok (consume c n) \<and> live_window (consume c n) = drop (nat n) (live_window c)"
proof -
  have len: "int (length (live_window c)) = writeOff c - readOff c" using assms(1) by (rule length_live_window)
  have ok: "0 \<le> readOff c" "readOff c + n \<le> writeOff c" "writeOff c \<le> int (length (buffer c))" "buffer c \<noteq> []"
    using assms len by (auto simp: buffer_ok_def)
  show ?thesis
  proof (cases "readOff c + n = writeOff c")
    case True
    then have d: "consume c n = c\<lparr>readOff := 0, writeOff := 0\<rparr>" by (simp add: consume_def)
    have "nat n = length (live_window c)" using True len assms(2) by linarith
    then have "drop (nat n) (live_window c) = []" by simp
    then show ?thesis unfolding d using ok by (simp add: buffer_ok_def live_window_ok)
  next
    case False
    then have d: "consume c n = c\<lparr>readOff := readOff c + n\<rparr>" by (simp add: consume_def Let_def)
    have ok': "buffer_ok (consume c n)" unfolding d using ok assms(2) by (simp add: buffer_ok_def)
    have "live_window (consume c n) = take (nat (writeOff c - (readOff c + n))) (drop (nat (readOff c + n)) (buffer c))"
      using ok' by (simp add: live_window_ok) (simp add: d)
    also have "\<dots> = drop (nat n) (live_window c)"
      using ok assms by (simp add: live_window_ok drop_take nat_add_distrib nat_diff_distrib add.commute)
    finally show ?thesis using ok' by simp
  qed
qed

lemma consume_flags [simp]:
  "conn_closed (consume c n) = conn_closed c" "maxBufferBytes (consume c n) = maxBufferBytes c"
  by (simp_all add: consume_def Let_def)

subsection \<open>Replies out of a stream of chunks\<close>

lemma try_parse_window:
  assumes "buffer_ok c"
  shows "try_parse n c = (if live_window c = [] then Some Incomplete else parseReply n (live_window c) 0)"
proof (cases "live_window c = []")
  case True
  then show ?thesis using length_live_window[OF assms] by (simp add: try_parse_def)
next
  case False
  then have "0 < int (length (live_window c))" by simp
  then show ?thesis using False length_live_window[OF assms] by (simp add: try_parse_def)
qed

lemma wire_nonempty: "wire v \<noteq> []"
  by (cases v rule: wire.cases) (simp_all add: line_def sized_def counted_def)

text \<open>A window that holds a whole frame, or a proper prefix of one.\<close>

lemma try_parse_frame:
  assumes "buffer_ok c" and "wireable v" and "depth v \<le> n" and "live_window c = wire v @ r"
  shows "try_parse n c = Some (Parsed v (int (length (wire v)))) \<and>
    buffer_ok (consume c (int (length (wire v)))) \<and> live_window (consume c (int (length (wire v)))) = r"
  using try_parse_window[OF assms(1), of n] wire_reads[OF assms(2,3)] wire_nonempty[of v]
    consume_window[OF assms(1), of "int (length (wire v))"]
  unfolding assms(4) reads_def by (auto dest: spec[of _ "[]"])

lemma try_parse_partial:
  assumes "buffer_ok c" and "wireable v" and "depth v \<le> n" and "live_window c = take k (wire v)" and "k < length (wire v)"
  shows "try_parse n c = Some Incomplete"
  using try_parse_window[OF assms(1), of n] wire_reads[OF assms(2,3)] assms(5)
  unfolding assms(4) waits_def by (auto dest: spec[of _ "[]"])

lemma readReply_partial:
  assumes c: "buffer_ok c" and v: "wireable v" "depth v \<le> n"
    and short: "length (live_window c) < length (wire v)"
    and stream: "live_window c @ b @ later = wire v @ r"
    and cap: "length (live_window c @ b) \<le> maxBufferBytes c"
  shows "readReply (Suc n) c (Chunk b # es) = readReply n (appendChunk c b) es"
proof -
  have "live_window c = take (length (live_window c)) (wire v @ r)"
    using stream by (metis append_eq_conv_conj)
  then have "live_window c = take (length (live_window c)) (wire v)" using short by simp
  then have p: "try_parse n c = Some Incomplete" using try_parse_partial[OF c v _ short] by simp
  have "writeOff (appendChunk c b) - readOff (appendChunk c b) = int (length (live_window c @ b))"
    using appendChunk_window[OF c, of b] length_live_window[of "appendChunk c b"] by simp
  then show ?thesis using p cap by (simp add: Let_def)
qed

lemma stream_cases:
  assumes "w @ later = f @ (r :: byte list)"
  obtains (whole) w' where "w = f @ w'" "w' @ later = r" | (part) "length w < length f"
  using assms by (metis append_eq_append_conv_if append_eq_conv_conj not_less append_take_drop_id)

lemma readReply_stream:
  "buffer_ok c \<Longrightarrow> live_window c @ concat cs = concat (map wire ps) @ wire v @ rest \<Longrightarrow>
   \<forall>p\<in>set ps. is_push p \<and> wireable p \<and> depth p \<le> d \<Longrightarrow> wireable v \<Longrightarrow> depth v \<le> d \<Longrightarrow> \<not> is_push v \<Longrightarrow>
   length (live_window c @ concat cs) \<le> maxBufferBytes c \<Longrightarrow> d + length ps + length cs < n \<Longrightarrow>
   \<exists>c' ds. readReply n c (map Chunk cs @ es) = Some (Reply v, c', map Chunk ds @ es) \<and>
     buffer_ok c' \<and> live_window c' @ concat ds = rest \<and> conn_closed c' = conn_closed c"
proof (induction n arbitrary: c cs ps)
  case (Suc n)
  note prems = Suc.prems
  obtain f qs where f: "ps @ [v] = f # qs" by (cases ps) auto
  then have shape: "(ps = [] \<and> f = v \<and> qs = []) \<or> (\<exists>ps'. ps = f # ps' \<and> qs = ps' @ [v])"
    by (cases ps) auto
  have fw: "wireable f" "depth f \<le> n" using shape prems by auto
  have st: "live_window c @ concat cs = wire f @ concat (map wire qs) @ rest"
    using shape prems(2) by auto
  show ?case
  proof (rule stream_cases[OF st])
    fix w' assume w: "live_window c = wire f @ w'" "w' @ concat cs = concat (map wire qs) @ rest"
    note tp = try_parse_frame[OF prems(1) fw w(1)]
    show ?case
    proof (cases "ps = []")
      case True
      then show ?thesis using tp w shape prems(6) by (auto intro!: exI[of _ "consume c (int (length (wire v)))"] exI[of _ cs])
    next
      case False
      then obtain ps' where ps': "ps = f # ps'" "qs = ps' @ [v]" using shape by auto
      let ?c = "consume c (int (length (wire f)))"
      have "readReply (Suc n) c (map Chunk cs @ es) = readReply n ?c (map Chunk cs @ es)"
        using tp ps' prems(3) by simp
      moreover have "\<exists>c' ds. readReply n ?c (map Chunk cs @ es) = Some (Reply v, c', map Chunk ds @ es) \<and>
          buffer_ok c' \<and> live_window c' @ concat ds = rest \<and> conn_closed c' = conn_closed ?c"
        by (rule Suc.IH[of ?c cs ps']) (use tp w ps' prems in auto)
      ultimately show ?thesis by simp
    qed
  next
    assume short: "length (live_window c) < length (wire f)"
    then have "concat cs \<noteq> []"
      using arg_cong[OF st, of length] by (metis append_Nil2 length_append not_add_less1)
    then obtain b cs' where cs: "cs = b # cs'" by (cases cs) auto
    have fits: "length (live_window c @ b) \<le> maxBufferBytes c" using prems(7) cs by simp
    have "live_window c @ b @ concat cs' = wire f @ concat (map wire qs) @ rest" using st cs by simp
    from readReply_partial[OF prems(1) fw short this fits]
    have "readReply (Suc n) c (map Chunk cs @ es) = readReply n (appendChunk c b) (map Chunk cs' @ es)"
      by (simp add: cs del: readReply.simps)
    moreover have "\<exists>c' ds. readReply n (appendChunk c b) (map Chunk cs' @ es) = Some (Reply v, c', map Chunk ds @ es) \<and>
        buffer_ok c' \<and> live_window c' @ concat ds = rest \<and> conn_closed c' = conn_closed (appendChunk c b)"
      by (rule Suc.IH[of _ cs' ps]) (use appendChunk_window[OF prems(1), of b] prems cs in auto)
    ultimately show ?thesis by simp
  qed
qed simp

text \<open>C4: whatever way the bytes are cut into chunks, a call returns the first reply that is not a push frame and
  keeps exactly the bytes behind it for the next call: no byte is lost, repeated or handed to the wrong call.\<close>

theorem replies_survive_chunking:
  assumes "buffer_ok c"
    and "live_window c @ concat chunks = concat (map wire pushes) @ wire v @ rest"
    and "\<forall>p\<in>set pushes. is_push p \<and> wireable p \<and> depth p \<le> d"
    and "wireable v" and "depth v \<le> d" and "\<not> is_push v"
    and "length (live_window c @ concat chunks) \<le> maxBufferBytes c"
    and "d + length pushes + length chunks < fuel"
  shows "\<exists>c' left. readReply fuel c (map Chunk chunks @ later) = Some (Reply v, c', map Chunk left @ later) \<and>
    buffer_ok c' \<and> live_window c' @ concat left = rest \<and> conn_closed c' = conn_closed c"
  using readReply_stream[OF assms] .

lemma new_connection_ok: "buffer_ok (new_connection m)" "live_window (new_connection m) = []"
  by (simp_all add: new_connection_def buffer_ok_def live_window_def subarray_def slice_def relative_index_def)

theorem replies_survive_chunking_witness:
  "\<exists>c' left. readReply 9 (new_connection 100) (map Chunk [[0x3E, 49, 13], [10, 0x5F, 13, 10, 0x3A], [55, 13, 10, 0x23]] @ [EndOfStream]) =
     Some (Reply (RInteger (Number 7)), c', map Chunk left @ [EndOfStream]) \<and>
    buffer_ok c' \<and> live_window c' @ concat left = [0x23] \<and> conn_closed c' = False"
proof -
  let ?cs = "[[0x3E, 49, 13], [10, 0x5F, 13, 10, 0x3A], [55, 13, 10, 0x23]] :: byte list list"
  have w: "live_window (new_connection 100) @ concat ?cs =
      concat (map wire [RPush [RNull]]) @ wire (RInteger (Number 7)) @ [0x23]"
    unfolding new_connection_ok by code_simp
  show ?thesis
    using replies_survive_chunking[OF new_connection_ok(1) w, of 2 9 "[EndOfStream]"]
    by (simp add: MIN_SAFE_INT_def MAX_SAFE_INT_def new_connection_ok(2)) (simp add: new_connection_def)
qed

subsection \<open>What a failed call leaves behind\<close>

lemma readReply_fault:
  "readReply n c evs = Some (Throws (ParseFault e), c', evs') \<Longrightarrow>
     conn_closed c' = conn_closed c \<and> (\<exists>k < n. try_parse k c' = Some (Faulty e))"
proof (induction n arbitrary: c evs)
  case (Suc n)
  have step: "readReply n d es = Some (Throws (ParseFault e), c', evs') \<Longrightarrow> conn_closed d = conn_closed c \<Longrightarrow>
      conn_closed c' = conn_closed c \<and> (\<exists>k < Suc n. try_parse k c' = Some (Faulty e))" for d es
    using Suc.IH[of d es] by (auto intro: less_SucI)
  show ?case
  proof (cases "try_parse n c")
    case (Some r)
    note tp = Some
    show ?thesis
    proof (cases r)
      case Incomplete
      then show ?thesis
        using Suc.prems tp step by (auto simp: Let_def split: list.splits read_event.splits if_splits)
    next
      case (Parsed v k)
      then show ?thesis using Suc.prems tp step[of "consume c k" evs] by (auto split: if_splits)
    next
      case (Faulty f)
      then show ?thesis using Suc.prems tp by auto
    qed
  qed (use Suc.prems in simp)
qed simp

lemma readReply_failed:
  "readReply n c evs = Some (Throws e, c', evs') \<Longrightarrow> \<forall>f. e \<noteq> ParseFault f \<Longrightarrow> conn_closed c'"
proof (induction n c evs rule: readReply.induct)
  case (2 n c evs)
  show ?case
    using 2 by (auto simp: Let_def close_def split: option.splits reply.splits if_splits list.splits read_event.splits)
qed simp

text \<open>Lemma: every failure of a call other than a malformed reply (a rejected write or read, the end of the stream, a
  reply beyond the cap) leaves the connection closed, so that no later command is written to it.\<close>

theorem failure_closes:
  assumes "send n ok parts c evs = Some (Throws e, c', evs', sent)" and "\<forall>f. e \<noteq> ParseFault f"
  shows "conn_closed c' \<and> send m ok' parts' c' later = Some (Throws NoConnection, c', later, [])"
proof -
  have "conn_closed c'"
    using assms readReply_failed[of n c evs e c' evs'] by (auto simp: send_def split: if_splits)
  then show ?thesis by (simp add: send_def)
qed

theorem failure_closes_witness:
  "conn_closed (close (appendChunk (new_connection 2) [0x2B, 79, 75])) \<and>
   send 1 True [] (close (appendChunk (new_connection 2) [0x2B, 79, 75])) [] =
     Some (Throws NoConnection, close (appendChunk (new_connection 2) [0x2B, 79, 75]), [], [])"
proof -
  let ?c = "appendChunk (new_connection 2) [0x2B, 79, 75]"
  have "buffer_ok ?c \<and> live_window ?c = [0x2B, 79, 75]"
    using appendChunk_window[OF new_connection_ok(1)] new_connection_ok(2) by simp
  then have "writeOff ?c - readOff ?c = 3" using length_live_window[of ?c] by simp
  then have "send 2 True [] (new_connection 2) [Chunk [0x2B, 79, 75]] =
      Some (Throws ReplyTooLarge, close ?c, [], encodeCommand [])"
    using new_connection_ok try_parse_window[OF new_connection_ok(1), of 1 2]
    by (simp add: send_def numeral_2_eq_2 Let_def) (simp add: new_connection_def)
  from failure_closes[OF this, of 1 True "[]" "[]"] show ?thesis by simp
qed

text \<open>C33: a malformed reply leaves the connection open with the malformed bytes still at the front of its window: it
  passes for valid, and every later command on it fails with the same error, whatever the server sends.\<close>

theorem malformed_reply_poisons:
  assumes "send n True parts c evs = Some (Throws (ParseFault e), c', evs', sent)" and "n \<le> m"
  shows "\<not> conn_closed c' \<and>
    send m True parts' c' later = Some (Throws (ParseFault e), c', later, encodeCommand parts')"
proof -
  have r: "readReply n c evs = Some (Throws (ParseFault e), c', evs')" and open': "\<not> conn_closed c"
    using assms(1) by (auto simp: send_def split: if_splits)
  obtain k where k: "k < n" "try_parse k c' = Some (Faulty e)" and cl: "\<not> conn_closed c'"
    using readReply_fault[OF r] open' by auto
  obtain j where j: "m = Suc j" "k \<le> j" using k(1) assms(2) by (cases m) auto
  have "try_parse j c' = Some (Faulty e)"
    using k(2) parseReply_more[OF _ j(2)] by (auto simp: try_parse_def split: if_splits)
  then show ?thesis using cl by (simp add: send_def j(1))
qed

theorem malformed_reply_poisons_witness:
  "\<not> conn_closed (appendChunk (new_connection 9) [7]) \<and>
   send 5 True [] (appendChunk (new_connection 9) [7]) [Chunk [0x2B, 79, 75, 13, 10]] =
     Some (Throws (ParseFault ProtocolError), appendChunk (new_connection 9) [7], [Chunk [0x2B, 79, 75, 13, 10]], encodeCommand [])"
proof -
  let ?c = "appendChunk (new_connection 9) [7]"
  have c: "buffer_ok ?c \<and> live_window ?c = [7]"
    using appendChunk_window[OF new_connection_ok(1)] new_connection_ok(2) by simp
  then have "writeOff ?c - readOff ?c = 1" using length_live_window[of ?c] by simp
  moreover have "try_parse 1 ?c = Some (Faulty ProtocolError)"
    using c try_parse_window[of ?c 1] parseReply_byte[of 0 "[7]" 0] by (simp add: frame_by_tag_def Let_def)
  ultimately have "send 3 True [] (new_connection 9) [Chunk [7]] =
      Some (Throws (ParseFault ProtocolError), ?c, [], encodeCommand [])"
    using new_connection_ok try_parse_window[OF new_connection_ok(1), of 2 9]
    by (simp add: send_def numeral_3_eq_3 numeral_2_eq_2 Let_def) (simp add: new_connection_def)
  from malformed_reply_poisons[OF this, of 5 "[]" "[Chunk [0x2B, 79, 75, 13, 10]]"] show ?thesis by simp
qed

end
