(* ===== verification/CacheEngine.thy ===== *)
theory CacheEngine
  imports UriText Complex_Main
begin

text \<open>
  The cache engines' common base (\<open>src/packages/cacher/AbstractEngine.ts\<close>): construction, the
  public operations over the store an engine implements, and what a store promises.

  A store's operations get the time of the call in milliseconds.  A JSON text is represented by the
  value it denotes; \<open>NoJson\<close> is a value for which \<open>JSON.stringify\<close> gives \<open>undefined\<close>,
  \<open>NotSerialisable\<close> one for which it throws.  Numbers are rationals.
\<close>

datatype js_number_arg = Nullish | Number rat | NotANumber | Infinite | NegativeInfinite | OtherType

datatype 'v js_value = Json 'v | NoJson | NotSerialisable

record 'v cache_value =
  data :: 'v
  expiry :: rat
  window :: bool

datatype cacher_error = ConfigInvalid jstring | InvalidParams jstring | StringifyError

record engine =
  engine_name :: jstring
  defaultExpiry :: rat

definition MAX_EXPIRY_SECONDS :: rat where "MAX_EXPIRY_SECONDS = 2592000"

text \<open>\<open>_validateExpiry\<close>: the number it accepts.\<close>

fun validateExpiry :: "js_number_arg \<Rightarrow> rat option" where
  "validateExpiry (Number e) = (if e < 0 \<or> e > MAX_EXPIRY_SECONDS then None else Some e)"
| "validateExpiry a = None"

text \<open>\<open>a ?? b\<close>\<close>

fun nullish_or :: "js_number_arg \<Rightarrow> rat \<Rightarrow> js_number_arg" where
  "nullish_or Nullish d = Number d"
| "nullish_or a d = a"

text \<open>The check of the default lifetime, which is 300 seconds when nothing is given.\<close>

definition processDefaultExpiry :: "js_number_arg \<Rightarrow> cacher_error + rat" where
  "processDefaultExpiry v =
     (case validateExpiry (nullish_or v 300) of
        None \<Rightarrow> Inl (ConfigInvalid (js ''defaultExpiry''))
      | Some e \<Rightarrow> Inr e)"

text \<open>The constructor: the trimmed name may not hold the separator.\<close>

definition new_engine :: "jstring \<Rightarrow> js_number_arg \<Rightarrow> cacher_error + engine" where
  "new_engine name dflt =
     (if colon \<in> set (trim name) then Inl (ConfigInvalid (js ''name''))
      else bindE (processDefaultExpiry dflt) (\<lambda>e. Inr \<lparr>engine_name = trim name, defaultExpiry = e\<rparr>))"

definition normalizeKey :: "jstring \<Rightarrow> jstring \<Rightarrow> jstring" where
  "normalizeKey name key = name @ colon # trim key"

lemma starts_with_split: "starts_with p s \<longleftrightarrow> (\<exists>r. s = p @ r)"
  unfolding starts_with_def by (metis append_eq_conv_conj append_take_drop_id)

text \<open>C34: engines built by the constructor share a stored key only when they have the same name and the keys agree up to
  surrounding white space; the prefix \<open>name:\<close> that clearing removes covers no key of another name.\<close>

theorem namespaces_disjoint:
  assumes "new_engine n d = Inr e" and "new_engine n' d' = Inr e'"
  shows "(normalizeKey (engine_name e) k = normalizeKey (engine_name e') k' \<longleftrightarrow>
      engine_name e = engine_name e' \<and> trim k = trim k') \<and>
    (starts_with (engine_name e @ [colon]) (normalizeKey (engine_name e') k') \<longleftrightarrow> engine_name e = engine_name e')"
proof -
  have c: "colon \<notin> set (engine_name e)" "colon \<notin> set (engine_name e')"
    using assms by (auto simp: new_engine_def sum_simps split: if_splits)
  have split: "a @ colon # x = b @ colon # y \<longleftrightarrow> a = b \<and> x = y" if "colon \<notin> set a" "colon \<notin> set b" for a b x y :: jstring
    using that by (auto simp: append_eq_append_conv2 append_eq_Cons_conv Cons_eq_append_conv)
  have "starts_with (engine_name e @ [colon]) (normalizeKey (engine_name e') k') \<longleftrightarrow>
      (\<exists>r. normalizeKey (engine_name e') k' = engine_name e @ colon # r)"
    using starts_with_split[of "engine_name e @ [colon]" "normalizeKey (engine_name e') k'"] by simp
  then show ?thesis using split[OF c(2,1)] split[OF c] by (auto simp: normalizeKey_def)
qed

theorem namespaces_disjoint_witness:
  "normalizeKey [97] [98] \<noteq> normalizeKey [97, 98] [32, 98] \<and> \<not> starts_with ([97] @ [colon]) (normalizeKey [97, 98] [])"
proof -
  have "new_engine [97] Nullish = Inr \<lparr>engine_name = [97], defaultExpiry = 300\<rparr>"
    "new_engine [97, 98] (Number 5) = Inr \<lparr>engine_name = [97, 98], defaultExpiry = 5\<rparr>"
    by (simp_all add: new_engine_def processDefaultExpiry_def trim_def js_space_def MAX_EXPIRY_SECONDS_def)
  from namespaces_disjoint[OF this, of "[98]" "[32, 98]"] namespaces_disjoint[OF this, of "[98]" "[]"]
  show ?thesis by simp
qed

subsection \<open>The store behind an engine\<close>

text \<open>\<open>_set\<close>, \<open>_get\<close>, \<open>_has\<close>, \<open>_delete\<close> and \<open>_clear\<close>.\<close>

record ('s, 'v) store =
  st_set :: "rat \<Rightarrow> jstring \<Rightarrow> 'v cache_value \<Rightarrow> 's \<Rightarrow> 's"
  st_get :: "rat \<Rightarrow> jstring \<Rightarrow> 's \<Rightarrow> 'v cache_value option \<times> 's"
  st_has :: "rat \<Rightarrow> jstring \<Rightarrow> 's \<Rightarrow> bool \<times> 's"
  st_delete :: "jstring \<Rightarrow> 's \<Rightarrow> 's"
  st_clear :: "'s \<Rightarrow> 's"

subsection \<open>The public operations\<close>

record set_options =
  opt_expiry :: js_number_arg
  opt_window :: bool

datatype 'v cache_call =
    SetCall jstring "'v js_value" set_options
  | GetCall jstring
  | HasCall jstring
  | DeleteCall jstring
  | ClearCall

datatype 'v cache_result = Done | Failed cacher_error | Got "'v option" | Present bool

definition engine_set ::
  "('s, 'v) store \<Rightarrow> engine \<Rightarrow> rat \<Rightarrow> jstring \<Rightarrow> 'v js_value \<Rightarrow> set_options \<Rightarrow> 's \<Rightarrow> 'v cache_result \<times> 's" where
  "engine_set st en now key v opt s =
     (case validateExpiry (nullish_or (opt_expiry opt) (defaultExpiry en)) of
        None \<Rightarrow> (Failed (InvalidParams key), s)
      | Some e \<Rightarrow>
          (case v of
             NotSerialisable \<Rightarrow> (Failed StringifyError, s)
           | NoJson \<Rightarrow> (Failed (InvalidParams key), s)
           | Json d \<Rightarrow>
               (Done, st_set st now (normalizeKey (engine_name en) key)
                  \<lparr>data = d, expiry = e, window = opt_window opt\<rparr> s)))"

definition engine_get :: "('s, 'v) store \<Rightarrow> engine \<Rightarrow> rat \<Rightarrow> jstring \<Rightarrow> 's \<Rightarrow> 'v cache_result \<times> 's" where
  "engine_get st en now key s =
     (let (r, s') = st_get st now (normalizeKey (engine_name en) key) s in (Got (map_option data r), s'))"

definition engine_has :: "('s, 'v) store \<Rightarrow> engine \<Rightarrow> rat \<Rightarrow> jstring \<Rightarrow> 's \<Rightarrow> 'v cache_result \<times> 's" where
  "engine_has st en now key s =
     (let (r, s') = st_has st now (normalizeKey (engine_name en) key) s in (Present r, s'))"

definition engine_delete :: "('s, 'v) store \<Rightarrow> engine \<Rightarrow> jstring \<Rightarrow> 's \<Rightarrow> 'v cache_result \<times> 's" where
  "engine_delete st en key s = (Done, st_delete st (normalizeKey (engine_name en) key) s)"

definition engine_clear :: "('s, 'v) store \<Rightarrow> 's \<Rightarrow> 'v cache_result \<times> 's" where
  "engine_clear st s = (Done, st_clear st s)"

fun call :: "('s, 'v) store \<Rightarrow> engine \<Rightarrow> rat \<Rightarrow> 'v cache_call \<Rightarrow> 's \<Rightarrow> 'v cache_result \<times> 's" where
  "call st en now (SetCall k v opt) s = engine_set st en now k v opt s"
| "call st en now (GetCall k) s = engine_get st en now k s"
| "call st en now (HasCall k) s = engine_has st en now k s"
| "call st en now (DeleteCall k) s = engine_delete st en k s"
| "call st en now ClearCall s = engine_clear st s"

subsection \<open>What a store promises\<close>

text \<open>The abstract store: values with the time at which they expire.\<close>

type_synonym 'v contents = "jstring \<Rightarrow> ('v cache_value \<times> rat option) option"

definition still_live :: "rat \<Rightarrow> rat option \<Rightarrow> bool" where
  "still_live now d = (case d of None \<Rightarrow> True | Some t \<Rightarrow> now < t)"

definition live :: "rat \<Rightarrow> 'v contents \<Rightarrow> 'v contents" where
  "live now m = (\<lambda>k. case m k of None \<Rightarrow> None | Some (v, d) \<Rightarrow> if still_live now d then Some (v, d) else None)"

definition deadline_for :: "rat \<Rightarrow> 'v cache_value \<Rightarrow> rat option" where
  "deadline_for now v = (if 0 < expiry v then Some (now + expiry v * 1000) else None)"

definition ttl_set :: "rat \<Rightarrow> jstring \<Rightarrow> 'v cache_value \<Rightarrow> 'v contents \<Rightarrow> 'v contents" where
  "ttl_set now k v m = m(k \<mapsto> (v, deadline_for now v))"

definition ttl_get :: "rat \<Rightarrow> jstring \<Rightarrow> 'v contents \<Rightarrow> 'v cache_value option \<times> 'v contents" where
  "ttl_get now k m =
     (case live now m k of
        None \<Rightarrow> (None, m)
      | Some (v, d) \<Rightarrow>
          (Some v, if window v \<and> 0 < expiry v then m(k \<mapsto> (v, deadline_for now v)) else m))"

definition ttl_has :: "rat \<Rightarrow> jstring \<Rightarrow> 'v contents \<Rightarrow> bool \<times> 'v contents" where
  "ttl_has now k m = (live now m k \<noteq> None, m)"

definition ttl_store :: "('v contents, 'v) store" where
  "ttl_store = \<lparr>st_set = ttl_set, st_get = ttl_get, st_has = ttl_has,
     st_delete = (\<lambda>k m. m(k := None)), st_clear = (\<lambda>m. Map.empty)\<rparr>"

lemma live_live: "t \<le> t' \<Longrightarrow> live t' (live t m) = live t' m"
  by (rule ext) (auto simp: live_def still_live_def split: option.splits)

lemma live_eq_later: "t \<le> t' \<Longrightarrow> live t m = live t m' \<Longrightarrow> live t' m = live t' m'"
  by (metis live_live)

lemma live_upd: "live t (m(k := e)) = (live t m)(k := (case e of None \<Rightarrow> None | Some (v, d) \<Rightarrow> if still_live t d then e else None))"
  by (rule ext) (auto simp: live_def split: option.splits)

text \<open>Operations of the abstract store cannot tell contents with the same live part apart.\<close>

lemma ttl_cong:
  assumes "live t m = live t m'"
  shows "live t (ttl_set t k v m) = live t (ttl_set t k v m')"
    and "fst (ttl_get t k m) = fst (ttl_get t k m') \<and> live t (snd (ttl_get t k m)) = live t (snd (ttl_get t k m'))"
    and "fst (ttl_has t k m) = fst (ttl_has t k m')"
    and "live t (m(k := None)) = live t (m'(k := None))"
  using assms by (auto simp: ttl_set_def ttl_get_def ttl_has_def live_upd split: option.split)

text \<open>A trace: the times of the calls do not decrease; between calls the store's own steps (its timers) may run.\<close>

type_synonym ('v, 'b) trace = "(rat \<times> ('v cache_call + 'b)) list"

fun run :: "('s, 'v) store \<Rightarrow> (rat \<Rightarrow> 'b \<Rightarrow> 's \<Rightarrow> 's) \<Rightarrow> engine \<Rightarrow> ('v, 'b) trace \<Rightarrow> 's \<Rightarrow> 'v cache_result list \<times> 's" where
  "run st bg en [] s = ([], s)"
| "run st bg en ((t, Inl c) # es) s =
     (let (r, s') = call st en t c s; (rs, s'') = run st bg en es s' in (r # rs, s''))"
| "run st bg en ((t, Inr b) # es) s = run st bg en es (bg t b s)"

fun ordered :: "rat \<Rightarrow> ('v, 'b) trace \<Rightarrow> bool" where
  "ordered t [] = True"
| "ordered t ((t', e) # es) = (t \<le> t' \<and> ordered t' es)"

text \<open>The values a call stores.\<close>

fun stored :: "engine \<Rightarrow> 'v cache_call \<Rightarrow> 'v cache_value option" where
  "stored en (SetCall k (Json d) opt) =
     map_option (\<lambda>e. \<lparr>data = d, expiry = e, window = opt_window opt\<rparr>)
       (validateExpiry (nullish_or (opt_expiry opt) (defaultExpiry en)))"
| "stored en c = None"

definition all_exact :: "('v cache_value \<Rightarrow> bool) \<Rightarrow> engine \<Rightarrow> ('v, 'b) trace \<Rightarrow> bool" where
  "all_exact ok en tr \<longleftrightarrow> (\<forall>(t, e)\<in>set tr. case e of Inl c \<Rightarrow> (case stored en c of None \<Rightarrow> True | Some v \<Rightarrow> ok v) | Inr b \<Rightarrow> True)"

text \<open>
  The contract between the base class and a store: with the values \<open>exact\<close> says it is exact for, each
  operation does on the contents what the abstract store's does, and its background steps change
  nothing that is still live.
\<close>

locale expiring_store =
  fixes st :: "('s, 'v) store"
    and bg :: "rat \<Rightarrow> 'b \<Rightarrow> 's \<Rightarrow> 's"
    and inv :: "'s \<Rightarrow> bool"
    and abs :: "'s \<Rightarrow> 'v contents"
    and exact :: "'v cache_value \<Rightarrow> bool"
  assumes set_law: "inv s \<Longrightarrow> exact v \<Longrightarrow> inv (st_set st t k v s) \<and> live t (abs (st_set st t k v s)) = live t (ttl_set t k v (abs s))"
    and get_law: "inv s \<Longrightarrow> fst (st_get st t k s) = fst (ttl_get t k (abs s)) \<and> inv (snd (st_get st t k s)) \<and>
      live t (abs (snd (st_get st t k s))) = live t (snd (ttl_get t k (abs s)))"
    and has_law: "inv s \<Longrightarrow> fst (st_has st t k s) = fst (ttl_has t k (abs s)) \<and> inv (snd (st_has st t k s)) \<and>
      live t (abs (snd (st_has st t k s))) = live t (abs s)"
    and delete_law: "inv s \<Longrightarrow> inv (st_delete st k s) \<and> abs (st_delete st k s) = (abs s)(k := None)"
    and clear_law: "inv s \<Longrightarrow> inv (st_clear st s) \<and> abs (st_clear st s) = Map.empty"
    and bg_law: "inv s \<Longrightarrow> inv (bg t b s) \<and> live t (abs (bg t b s)) = live t (abs s)"
begin

lemma call_refines:
  assumes "inv s" and "live t (abs s) = live t m" and "\<forall>v. stored en c = Some v \<longrightarrow> exact v"
  shows "fst (call st en t c s) = fst (call ttl_store en t c m) \<and> inv (snd (call st en t c s)) \<and>
    live t (abs (snd (call st en t c s))) = live t (snd (call ttl_store en t c m))"
proof (cases c)
  case (SetCall k v opt)
  then show ?thesis
    using assms set_law[OF assms(1)] ttl_cong(1)[OF assms(2)]
    by (cases v) (auto simp: engine_set_def ttl_store_def split: option.split)
next
  case (GetCall k)
  then show ?thesis
    using get_law[OF assms(1)] ttl_cong(2)[OF assms(2)]
    by (simp add: engine_get_def ttl_store_def split_beta)
next
  case (HasCall k)
  then show ?thesis
    using has_law[OF assms(1)] ttl_cong(3)[OF assms(2)] assms(2)
    by (simp add: engine_has_def ttl_store_def split_beta) (simp add: ttl_has_def)
next
  case (DeleteCall k)
  then show ?thesis
    using delete_law[OF assms(1)] ttl_cong(4)[OF assms(2)] by (simp add: engine_delete_def ttl_store_def)
next
  case ClearCall
  then show ?thesis using clear_law[OF assms(1)] by (simp add: engine_clear_def ttl_store_def)
qed

lemma run_refines:
  "inv s \<Longrightarrow> live t (abs s) = live t m \<Longrightarrow> ordered t tr \<Longrightarrow> all_exact exact en tr \<Longrightarrow>
     fst (run st bg en tr s) = fst (run ttl_store (\<lambda>_ _ m. m) en tr m)"
proof (induction tr arbitrary: t s m)
  case (Cons te es)
  obtain t' e where te: "te = (t', e)" by (cases te)
  have l: "live t' (abs s) = live t' m" using Cons.prems live_eq_later te by auto
  have rest: "ordered t' es" "all_exact exact en es" using Cons.prems te by (auto simp: all_exact_def)
  show ?case
  proof (cases e)
    case (Inl c)
    have "\<forall>v. stored en c = Some v \<longrightarrow> exact v" using Cons.prems(4) te Inl by (auto simp: all_exact_def)
    note r = call_refines[OF Cons.prems(1) l this]
    then show ?thesis
      using Cons.IH[of "snd (call st en t' c s)" t' "snd (call ttl_store en t' c m)"] rest
      by (simp add: te Inl split_beta)
  next
    case (Inr b)
    then show ?thesis
      using Cons.IH[of "bg t' b s" t' m] rest bg_law[OF Cons.prems(1), of t' b] l by (simp add: te)
  qed
qed simp

end

end
