(* ===== verification/MemoryCache.thy ===== *)
theory MemoryCache
  imports CacheEngine
begin

text \<open>
  The in-process store (\<open>src/packages/cacher/engines/memory/MemoryCacher.ts\<close>): the values, one
  eviction timer and one absolute deadline per expiring key.  \<open>armed\<close> are the runtime's pending
  timers with the earliest time each may fire; a fired timer that was cleared does nothing.
\<close>

record 'v memory_cache =
  entries :: "(jstring \<times> 'v cache_value) list"
  expiryTimers :: "(jstring \<times> nat) list"
  deadlines :: "(jstring \<times> rat) list"
  armed :: "(nat \<times> (rat \<times> jstring)) list"
  nextTimer :: nat

definition new_memory :: "'v memory_cache" where
  "new_memory = \<lparr>entries = [], expiryTimers = [], deadlines = [], armed = [], nextTimer = 0\<rparr>"

definition MAX_TIMER_DELAY :: rat where "MAX_TIMER_DELAY = 2147483647"

text \<open>\<open>clearTimeout(this._expiryTimers.get(key))\<close>\<close>

definition clear_timer :: "jstring \<Rightarrow> 'v memory_cache \<Rightarrow> 'v memory_cache" where
  "clear_timer key c =
     (case map_of (expiryTimers c) key of
        None \<Rightarrow> c
      | Some h \<Rightarrow> c\<lparr>armed := AList.delete h (armed c)\<rparr>)"

text \<open>\<open>setTimeout(f, delay)\<close> runs \<open>f\<close> after the whole milliseconds of the delay, at least one.\<close>

definition due_at :: "rat \<Rightarrow> rat \<Rightarrow> rat" where
  "due_at now delay = now + of_int (max 1 \<lfloor>delay\<rfloor>)"

definition scheduleExpiry :: "rat \<Rightarrow> jstring \<Rightarrow> rat \<Rightarrow> 'v memory_cache \<Rightarrow> 'v memory_cache" where
  "scheduleExpiry now key seconds c =
     (let delay = seconds * 1000;
          c1 = clear_timer key (c\<lparr>deadlines := AList.update key (now + delay) (deadlines c)\<rparr>);
          h = nextTimer c1
      in c1\<lparr>armed := AList.update h (due_at now (min delay MAX_TIMER_DELAY), key) (armed c1),
            nextTimer := Suc h,
            expiryTimers := AList.update key h (expiryTimers c1)\<rparr>)"

definition forget_expiry :: "jstring \<Rightarrow> 'v memory_cache \<Rightarrow> 'v memory_cache" where
  "forget_expiry key c =
     (clear_timer key c)\<lparr>expiryTimers := AList.delete key (expiryTimers c), deadlines := AList.delete key (deadlines c)\<rparr>"

definition mem_delete :: "jstring \<Rightarrow> 'v memory_cache \<Rightarrow> 'v memory_cache" where
  "mem_delete key c = (let c1 = forget_expiry key c in c1\<lparr>entries := AList.delete key (entries c1)\<rparr>)"

definition mem_set :: "rat \<Rightarrow> jstring \<Rightarrow> 'v cache_value \<Rightarrow> 'v memory_cache \<Rightarrow> 'v memory_cache" where
  "mem_set now key v c =
     (let c1 = forget_expiry key c; c2 = c1\<lparr>entries := AList.update key v (entries c1)\<rparr>
      in if expiry v > 0 then scheduleExpiry now key (expiry v) c2 else c2)"

definition past_deadline :: "rat \<Rightarrow> jstring \<Rightarrow> 'v memory_cache \<Rightarrow> bool" where
  "past_deadline now key c = (case map_of (deadlines c) key of None \<Rightarrow> False | Some d \<Rightarrow> now \<ge> d)"

definition mem_get :: "rat \<Rightarrow> jstring \<Rightarrow> 'v memory_cache \<Rightarrow> 'v cache_value option \<times> 'v memory_cache" where
  "mem_get now key c =
     (case map_of (entries c) key of
        None \<Rightarrow> (None, c)
      | Some v \<Rightarrow>
          if past_deadline now key c then (None, mem_delete key c)
          else if window v \<and> expiry v > 0 then (Some v, scheduleExpiry now key (expiry v) c)
          else (Some v, c))"

definition mem_has :: "rat \<Rightarrow> jstring \<Rightarrow> 'v memory_cache \<Rightarrow> bool \<times> 'v memory_cache" where
  "mem_has now key c =
     (if past_deadline now key c then (False, mem_delete key c)
      else (map_of (entries c) key \<noteq> None, c))"

definition mem_clear :: "'v memory_cache \<Rightarrow> 'v memory_cache" where
  "mem_clear c =
     c\<lparr>armed := foldl (\<lambda>a (k, h). AList.delete h a) (armed c) (expiryTimers c),
       expiryTimers := [], deadlines := [], entries := []\<rparr>"

definition mem_finalize :: "'v memory_cache \<Rightarrow> 'v memory_cache" where
  "mem_finalize c = mem_clear c"

text \<open>The runtime runs a pending timer that is due.\<close>

definition fire :: "rat \<Rightarrow> nat \<Rightarrow> 'v memory_cache \<Rightarrow> 'v memory_cache" where
  "fire now h c =
     (case map_of (armed c) h of
        None \<Rightarrow> c
      | Some (due, key) \<Rightarrow> if due \<le> now then mem_delete key (c\<lparr>armed := AList.delete h (armed c)\<rparr>) else c)"

definition memory_store :: "('v memory_cache, 'v) store" where
  "memory_store = \<lparr>st_set = mem_set, st_get = mem_get, st_has = mem_has, st_delete = mem_delete, st_clear = mem_clear\<rparr>"

subsection \<open>Timers and deadlines\<close>

definition mem_contents :: "'v memory_cache \<Rightarrow> 'v contents" where
  "mem_contents c = (\<lambda>k. map_option (\<lambda>v. (v, map_of (deadlines c) k)) (map_of (entries c) k))"

text \<open>A pending timer is its key's current one, and never due before the key's deadline.\<close>

definition mem_inv :: "'v memory_cache \<Rightarrow> bool" where
  "mem_inv c \<longleftrightarrow>
     (\<forall>h due k. map_of (armed c) h = Some (due, k) \<longrightarrow>
        h < nextTimer c \<and> map_of (expiryTimers c) k = Some h \<and>
        (\<exists>d. map_of (deadlines c) k = Some d \<and> d \<le> due))"

text \<open>The lifetimes whose delay a timer can represent and that are whole milliseconds.\<close>

definition timed_exactly :: "'v cache_value \<Rightarrow> bool" where
  "timed_exactly v \<longleftrightarrow> of_int \<lfloor>expiry v * 1000\<rfloor> = expiry v * 1000 \<and> expiry v * 1000 \<le> MAX_TIMER_DELAY"

definition timed_inv :: "'v memory_cache \<Rightarrow> bool" where
  "timed_inv c \<longleftrightarrow> mem_inv c \<and> (\<forall>k v. map_of (entries c) k = Some v \<longrightarrow> timed_exactly v)"

lemma mem_invD:
  "mem_inv c \<Longrightarrow> map_of (armed c) h = Some (due, k) \<Longrightarrow> \<exists>d. map_of (deadlines c) k = Some d \<and> d \<le> due"
  by (simp add: mem_inv_def)

lemma clear_timer_simps [simp]:
  "entries (clear_timer k c) = entries c" "expiryTimers (clear_timer k c) = expiryTimers c"
  "deadlines (clear_timer k c) = deadlines c" "nextTimer (clear_timer k c) = nextTimer c"
  by (simp_all add: clear_timer_def split: option.split)

lemma clear_timer_armed:
  "map_of (armed (clear_timer k c)) h =
     (if map_of (expiryTimers c) k = Some h then None else map_of (armed c) h)"
  by (auto simp: clear_timer_def js_simps split: option.split)

lemma contents_upd:
  "mem_contents (mem_delete k c) = (mem_contents c)(k := None)"
  "mem_contents (c\<lparr>armed := a\<rparr>) = mem_contents c"
  "mem_contents (mem_clear c) = Map.empty"
  by (auto simp: mem_contents_def mem_delete_def forget_expiry_def mem_clear_def js_simps Let_def)

lemma contents_set: "mem_contents (mem_set t k v c) = ttl_set t k v (mem_contents c)"
  by (rule ext) (auto simp: mem_contents_def mem_set_def ttl_set_def deadline_for_def scheduleExpiry_def forget_expiry_def
      js_simps Let_def)

lemma contents_schedule:
  "map_of (entries c) k = Some v \<Longrightarrow>
     mem_contents (scheduleExpiry t k e c) = (mem_contents c)(k \<mapsto> (v, Some (t + e * 1000)))"
  by (rule ext) (auto simp: mem_contents_def scheduleExpiry_def js_simps Let_def)

lemma forget_inv: "mem_inv c \<Longrightarrow> mem_inv (forget_expiry k c)"
  by (auto simp: mem_inv_def forget_expiry_def clear_timer_armed js_simps)

lemma delete_inv: "mem_inv c \<Longrightarrow> mem_inv (mem_delete k c)"
  using forget_inv[of c k] by (simp add: mem_delete_def Let_def mem_inv_def)

lemma due_exact:
  assumes "of_int \<lfloor>d\<rfloor> = d" and "d \<le> MAX_TIMER_DELAY"
  shows "t + d \<le> due_at t (min d MAX_TIMER_DELAY)"
proof -
  have "d = of_int \<lfloor>d\<rfloor>" using assms(1) by (rule sym)
  also have "\<dots> \<le> of_int (max 1 \<lfloor>d\<rfloor>)" by (simp only: of_int_le_iff max.cobounded2)
  finally show ?thesis using assms(2) by (simp add: due_at_def min_absorb1)
qed

lemma schedule_inv:
  assumes "mem_inv c" and "of_int \<lfloor>e * 1000\<rfloor> = e * 1000" and "e * 1000 \<le> MAX_TIMER_DELAY"
  shows "mem_inv (scheduleExpiry t k e c)"
  using assms(1) due_exact[OF assms(2,3), of t]
  by (auto simp: mem_inv_def scheduleExpiry_def Let_def clear_timer_armed js_simps less_SucI split: if_splits)

lemma clear_armed:
  "map_of (foldl (\<lambda>a (k, h). AList.delete h a) a xs) h = (if h \<in> snd ` set xs then None else map_of a h)"
  by (induction xs arbitrary: a) (auto simp: js_simps)

lemma clear_inv: "mem_inv c \<Longrightarrow> mem_inv (mem_clear c)"
proof -
  assume i: "mem_inv c"
  have "map_of (armed (mem_clear c)) h = None" for h
  proof (cases "map_of (armed c) h")
    case (Some p)
    then have "map_of (expiryTimers c) (snd p) = Some h" using i by (cases p) (auto simp: mem_inv_def)
    then have "h \<in> snd ` set (expiryTimers c)" by (force dest: map_of_SomeD)
    then show ?thesis by (simp add: mem_clear_def clear_armed)
  qed (simp add: mem_clear_def clear_armed)
  then show ?thesis by (simp add: mem_inv_def)
qed

lemma disarm_inv: "mem_inv c \<Longrightarrow> mem_inv (c\<lparr>armed := AList.delete h (armed c)\<rparr>)"
  by (auto simp: mem_inv_def js_simps)

lemma fire_law:
  assumes "timed_inv c"
  shows "timed_inv (fire t h c) \<and> live t (mem_contents (fire t h c)) = live t (mem_contents c)"
proof (cases "map_of (armed c) h")
  case None
  then show ?thesis using assms by (simp add: fire_def)
next
  case (Some p)
  obtain due k where p: "p = (due, k)" by (cases p)
  let ?d = "c\<lparr>armed := AList.delete h (armed c)\<rparr>"
  show ?thesis
  proof (cases "due \<le> t")
    case True
    obtain d where d: "map_of (deadlines c) k = Some d" "d \<le> due"
      using mem_invD[of c h due k] assms Some p by (auto simp: timed_inv_def)
    have f: "fire t h c = mem_delete k ?d" using Some p True by (simp add: fire_def)
    have "live t (mem_contents c) k = None"
      using d True by (cases "map_of (entries c) k") (auto simp: live_def mem_contents_def still_live_def)
    then have "live t (mem_contents (fire t h c)) = live t (mem_contents c)"
      unfolding f contents_upd live_upd by auto
    moreover have "timed_inv (fire t h c)"
      using assms delete_inv[OF disarm_inv[of c h], of k] unfolding f timed_inv_def
      by (auto simp: mem_delete_def forget_expiry_def Let_def js_simps split: if_splits)
    ultimately show ?thesis by blast
  qed (use assms Some p in \<open>simp add: fire_def\<close>)
qed

lemma entries_simps [simp]:
  "entries (forget_expiry k c) = entries c" "entries (scheduleExpiry t k e c) = entries c"
  "entries (mem_delete k c) = AList.delete k (entries c)"
  by (simp_all add: forget_expiry_def scheduleExpiry_def mem_delete_def Let_def)

lemma set_law_memory:
  assumes "timed_inv c" and "timed_exactly v"
  shows "timed_inv (mem_set t k v c) \<and> live t (mem_contents (mem_set t k v c)) = live t (ttl_set t k v (mem_contents c))"
proof -
  let ?c = "(forget_expiry k c)\<lparr>entries := AList.update k v (entries c)\<rparr>"
  have "mem_inv ?c" using forget_inv[of c k] assms(1) by (simp add: timed_inv_def mem_inv_def)
  then have "mem_inv (mem_set t k v c)"
    using schedule_inv[of ?c "expiry v" t k] assms(2) by (simp add: mem_set_def Let_def timed_exactly_def)
  moreover have "\<forall>k' v'. map_of (entries (mem_set t k v c)) k' = Some v' \<longrightarrow> timed_exactly v'"
    using assms by (auto simp: mem_set_def Let_def timed_inv_def js_simps)
  ultimately show ?thesis by (simp add: timed_inv_def contents_set)
qed

lemma expired_unseen:
  "past_deadline t k c \<Longrightarrow> live t (mem_contents c) k = None"
  by (auto simp: past_deadline_def live_def mem_contents_def still_live_def split: option.splits)

lemma live_deleted: "live t m k = None \<Longrightarrow> live t (m(k := None)) = live t m"
  by (auto simp: live_upd)

lemma timed_delete: "timed_inv c \<Longrightarrow> timed_inv (mem_delete k c)"
  using delete_inv by (auto simp: timed_inv_def js_simps split: if_splits)

lemma get_law_memory:
  assumes "timed_inv c"
  shows "fst (mem_get t k c) = fst (ttl_get t k (mem_contents c)) \<and> timed_inv (snd (mem_get t k c)) \<and>
    live t (mem_contents (snd (mem_get t k c))) = live t (snd (ttl_get t k (mem_contents c)))"
proof (cases "map_of (entries c) k")
  case None
  then show ?thesis using assms by (simp add: mem_get_def ttl_get_def live_def mem_contents_def)
next
  case (Some v)
  show ?thesis
  proof (cases "past_deadline t k c")
    case True
    then show ?thesis
      using Some assms expired_unseen[OF True] timed_delete[OF assms, of k]
      by (simp add: mem_get_def ttl_get_def contents_upd live_deleted)
  next
    case False
    then have l: "live t (mem_contents c) k = Some (v, map_of (deadlines c) k)"
      using Some by (auto simp: past_deadline_def live_def mem_contents_def still_live_def split: option.splits)
    have e: "timed_exactly v" using assms Some by (simp add: timed_inv_def)
    have "timed_inv (scheduleExpiry t k (expiry v) c)"
      using assms schedule_inv[of c "expiry v" t k] e by (simp add: timed_inv_def timed_exactly_def)
    then show ?thesis
      using Some False assms l contents_schedule[OF Some, of t "expiry v"]
      by (simp add: mem_get_def ttl_get_def deadline_for_def)
  qed
qed

lemma has_law_memory:
  assumes "timed_inv c"
  shows "fst (mem_has t k c) = fst (ttl_has t k (mem_contents c)) \<and> timed_inv (snd (mem_has t k c)) \<and>
    live t (mem_contents (snd (mem_has t k c))) = live t (mem_contents c)"
proof (cases "past_deadline t k c")
  case True
  then show ?thesis
    using assms expired_unseen[OF True] timed_delete[OF assms, of k]
    by (simp add: mem_has_def ttl_has_def contents_upd live_deleted)
next
  case False
  then show ?thesis
    using assms by (auto simp: mem_has_def ttl_has_def past_deadline_def live_def mem_contents_def still_live_def split: option.splits)
qed

interpretation memory: expiring_store memory_store fire timed_inv mem_contents timed_exactly
proof (unfold_locales, goal_cases)
  case (1 s v t k)
  then show ?case using set_law_memory[of s v t k] by (simp add: memory_store_def)
next
  case (2 s t k)
  then show ?case using get_law_memory[of s t k] by (simp add: memory_store_def)
next
  case (3 s t k)
  then show ?case using has_law_memory[of s t k] by (simp add: memory_store_def)
next
  case (4 s k)
  then show ?case using timed_delete[of s k] by (simp add: memory_store_def contents_upd)
next
  case (5 s)
  then have "timed_inv (mem_clear s)" using clear_inv by (auto simp: timed_inv_def mem_clear_def)
  then show ?case by (simp add: memory_store_def contents_upd)
next
  case (6 s t b)
  then show ?case using fire_law[of s t b] by simp
qed

subsection \<open>The engine over this store\<close>

lemma new_memory_inv: "timed_inv new_memory" "mem_contents new_memory = Map.empty"
  by (simp_all add: timed_inv_def mem_inv_def new_memory_def mem_contents_def)

text \<open>C5: over any run of public calls and timer firings in which every stored lifetime is a whole number of
  milliseconds and fits a timer, the engine answers exactly as a map whose entries expire at their deadlines: the timers
  are invisible, a replaced or deleted value's timer never removes its successor, and reading in window mode extends.\<close>

theorem memory_engine_refines:
  assumes "ordered t tr" and "all_exact timed_exactly en tr"
  shows "fst (run memory_store fire en tr new_memory) = fst (run ttl_store (\<lambda>_ _ m. m) en tr Map.empty)"
  using memory.run_refines[OF new_memory_inv(1) _ assms] by (simp add: new_memory_inv(2))

definition demo_engine :: engine where
  "demo_engine = \<lparr>engine_name = js ''app'', defaultExpiry = 300\<rparr>"

definition demo_trace :: "(nat, nat) trace" where
  "demo_trace =
     [(0, Inl (SetCall (js ''k'') (Json 1) \<lparr>opt_expiry = Number 1, opt_window = False\<rparr>)),
      (10, Inl (SetCall (js ''k'') (Json 2) \<lparr>opt_expiry = Number 60, opt_window = False\<rparr>)),
      (1000, Inr 0),
      (2000, Inl (GetCall (js ''k''))),
      (60010, Inl (GetCall (js ''k'')))]"

theorem memory_engine_refines_witness:
  "fst (run memory_store fire demo_engine demo_trace new_memory) = [Done, Done, Got (Some 2), Got None]"
proof -
  have "ordered 0 demo_trace" by (simp add: demo_trace_def)
  moreover have "all_exact timed_exactly demo_engine demo_trace"
    by (simp add: all_exact_def demo_trace_def demo_engine_def timed_exactly_def MAX_EXPIRY_SECONDS_def MAX_TIMER_DELAY_def)
  ultimately have "fst (run memory_store fire demo_engine demo_trace new_memory) =
      fst (run ttl_store (\<lambda>_ _ m. m) demo_engine demo_trace Map.empty)"
    by (rule memory_engine_refines)
  also have "\<dots> = [Done, Done, Got (Some 2), Got None]"
    by (simp add: demo_trace_def demo_engine_def ttl_store_def engine_set_def engine_get_def MAX_EXPIRY_SECONDS_def
        ttl_set_def ttl_get_def live_def still_live_def deadline_for_def)
  finally show ?thesis .
qed

text \<open>C35: a lifetime between 2147483.647 seconds and the accepted maximum of 30 days is cut short: the clamped timer
  deletes the value when it fires, though its deadline lies days ahead.\<close>

theorem clamped_timer_evicts_early:
  assumes "MAX_TIMER_DELAY < expiry v * 1000" and "now + MAX_TIMER_DELAY \<le> t"
  shows "fst (mem_get t k (fire t 0 (mem_set now k v new_memory))) = None \<and>
    (t < now + expiry v * 1000 \<longrightarrow> fst (mem_get t k (mem_set now k v new_memory)) = Some v)"
proof -
  have e: "0 < expiry v" using assms(1) by (simp add: MAX_TIMER_DELAY_def)
  have m: "min (expiry v * 1000) MAX_TIMER_DELAY = MAX_TIMER_DELAY" using assms(1) by simp
  have d: "due_at now MAX_TIMER_DELAY = now + MAX_TIMER_DELAY"
    by (simp add: due_at_def MAX_TIMER_DELAY_def)
  note defs = mem_set_def new_memory_def forget_expiry_def clear_timer_def scheduleExpiry_def Let_def m d
  have "map_of (entries (fire t 0 (mem_set now k v new_memory))) k = None"
    using e assms(2) by (simp add: fire_def defs mem_delete_def)
  then have "fst (mem_get t k (fire t 0 (mem_set now k v new_memory))) = None" by (simp add: mem_get_def)
  moreover have "fst (mem_get t k (mem_set now k v new_memory)) = Some v" if "t < now + expiry v * 1000"
    using e that by (simp add: mem_get_def defs past_deadline_def)
  ultimately show ?thesis by blast
qed

theorem clamped_timer_evicts_early_witness:
  "validateExpiry (Number 2592000) = Some 2592000 \<and>
   fst (mem_get 2147483647 [] (fire 2147483647 0 (mem_set 0 [] \<lparr>data = (7 :: nat), expiry = 2592000, window = False\<rparr> new_memory))) = None \<and>
   fst (mem_get 2147483647 [] (mem_set 0 [] \<lparr>data = (7 :: nat), expiry = 2592000, window = False\<rparr> new_memory)) =
     Some \<lparr>data = 7, expiry = 2592000, window = False\<rparr>"
  using clamped_timer_evicts_early[of "\<lparr>data = (7 :: nat), expiry = 2592000, window = False\<rparr>" 0 2147483647 "[]"]
  by (simp add: MAX_TIMER_DELAY_def MAX_EXPIRY_SECONDS_def)

end
