(* ===== verification/CacheManager.thy ===== *)
theory CacheManager
  imports CacheEngine
begin

text \<open>
  The registry of cache engines and instances (\<open>src/packages/cacher/Cacher.ts\<close>).

  A constructor is a value of \<open>'c\<close>; \<open>builds\<close> says whether it throws.  Instances are
  numbered in the order they are built.  \<open>removeInstance\<close> and \<open>clear\<close> wait for \<open>finalize\<close>
  before they touch the maps: the part behind the wait is a pending task, which runs at any later
  moment.  \<open>upper\<close> is the Unicode table behind \<open>toUpperCase\<close>.  A parameter that is not a string
  is \<open>NotText\<close>.
\<close>

datatype text_arg = Text jstring | NotText

datatype manager_error =
    BadEngineName | BadConstructor | EngineExists jstring | BadInstanceName | ReservedSeparator
  | BadOptions | UnknownEngine jstring | ConstructionFailed cacher_error | EngineMismatch jstring jstring

datatype task = RemoveTask jstring | ClearTask

record 'c manager =
  engines :: "(jstring \<times> 'c) list"
  instances :: "(jstring \<times> nat) list"
  instanceEngines :: "(jstring \<times> jstring) list"
  built :: nat
  finalize_called :: "nat list"
  tasks :: "task list"

definition falsy :: "text_arg \<Rightarrow> bool" where
  "falsy a = (case a of Text s \<Rightarrow> s = [] | NotText \<Rightarrow> True)"

fun text_of :: "text_arg \<Rightarrow> jstring" where
  "text_of (Text s) = s"
| "text_of NotText = []"

subsection \<open>Engines\<close>

definition addEngine ::
  "(jstring \<Rightarrow> jstring) \<Rightarrow> text_arg \<Rightarrow> 'c option \<Rightarrow> 'c manager \<Rightarrow> manager_error + 'c manager" where
  "addEngine upper name cls m =
     (if falsy name then Inl BadEngineName
      else case cls of
        None \<Rightarrow> Inl BadConstructor
      | Some c \<Rightarrow>
          let n = upper (trim (text_of name))
          in if map_of (engines m) n \<noteq> None then Inl (EngineExists n)
             else Inr (m\<lparr>engines := AList.update n c (engines m)\<rparr>))"

definition removeEngine :: "(jstring \<Rightarrow> jstring) \<Rightarrow> text_arg \<Rightarrow> 'c manager \<Rightarrow> bool \<times> 'c manager" where
  "removeEngine upper name m =
     (if falsy name then (False, m)
      else
        let n = upper (trim (text_of name))
        in (map_of (engines m) n \<noteq> None, m\<lparr>engines := AList.delete n (engines m)\<rparr>))"

definition registered_defaults :: "(jstring \<Rightarrow> jstring) \<Rightarrow> 'c \<Rightarrow> 'c \<Rightarrow> 'c \<Rightarrow> manager_error + 'c manager" where
  "registered_defaults upper mem redis memcached =
     bindE (addEngine upper (Text (js ''MEMORY'')) (Some mem)
         \<lparr>engines = [], instances = [], instanceEngines = [], built = 0, finalize_called = [], tasks = []\<rparr>)
       (\<lambda>m. bindE (addEngine upper (Text (js ''REDIS'')) (Some redis) m)
         (\<lambda>m. addEngine upper (Text (js ''MEMCACHED'')) (Some memcached) m))"

subsection \<open>Instances\<close>

text \<open>\<open>__validateCreateParameters\<close>; \<open>options_ok\<close> says whether the options are an object.\<close>

definition validateCreate :: "text_arg \<Rightarrow> text_arg \<Rightarrow> bool \<Rightarrow> manager_error + unit" where
  "validateCreate engine name options_ok =
     (if falsy engine then Inl BadEngineName
      else if falsy name then Inl BadInstanceName
      else if colon \<in> set (text_of name) then Inl ReservedSeparator
      else if \<not> options_ok then Inl BadOptions
      else Inr ())"

definition validateExistingInstance :: "jstring \<Rightarrow> jstring \<Rightarrow> 'c manager \<Rightarrow> manager_error + 'c manager" where
  "validateExistingInstance etype iname m =
     (case map_of (instanceEngines m) iname of
        Some e \<Rightarrow> if e \<noteq> etype then Inl (EngineMismatch e etype) else Inr m
      | None \<Rightarrow>
          if map_of (instances m) iname \<noteq> None
          then Inr (m\<lparr>instanceEngines := AList.update iname etype (instanceEngines m)\<rparr>) else Inr m)"

definition createNewInstance ::
  "('c \<Rightarrow> jstring \<Rightarrow> cacher_error option) \<Rightarrow> 'c \<Rightarrow> jstring \<Rightarrow> jstring \<Rightarrow> 'c manager \<Rightarrow> manager_error + 'c manager" where
  "createNewInstance builds cls etype iname m =
     (case builds cls iname of
        Some e \<Rightarrow> Inl (ConstructionFailed e)
      | None \<Rightarrow>
          Inr (m\<lparr>instances := AList.update iname (built m) (instances m),
                 instanceEngines := AList.update iname etype (instanceEngines m),
                 built := Suc (built m)\<rparr>))"

definition create ::
  "(jstring \<Rightarrow> jstring) \<Rightarrow> ('c \<Rightarrow> jstring \<Rightarrow> cacher_error option) \<Rightarrow> text_arg \<Rightarrow> text_arg \<Rightarrow> bool \<Rightarrow>
     'c manager \<Rightarrow> manager_error + (nat option \<times> 'c manager)" where
  "create upper builds engine name options_ok m =
     bindE (validateCreate engine name options_ok) (\<lambda>_.
       let etype = upper (trim (text_of engine)); iname = trim (text_of name)
       in case map_of (engines m) etype of
            None \<Rightarrow> Inl (UnknownEngine etype)
          | Some cls \<Rightarrow>
              bindE (if map_of (instances m) iname \<noteq> None then validateExistingInstance etype iname m
                     else createNewInstance builds cls etype iname m)
                (\<lambda>m'. Inr (map_of (instances m') iname, m')))"

definition getInstance :: "text_arg \<Rightarrow> 'c manager \<Rightarrow> nat option" where
  "getInstance name m = (if falsy name then None else map_of (instances m) (trim (text_of name)))"

definition hasInstance :: "text_arg \<Rightarrow> 'c manager \<Rightarrow> bool" where
  "hasInstance name m = (if falsy name then False else map_of (instances m) (trim (text_of name)) \<noteq> None)"

text \<open>\<open>removeInstance\<close> up to the wait: the answer, when it is known already, or a pending task.\<close>

definition removeInstance :: "text_arg \<Rightarrow> 'c manager \<Rightarrow> bool option \<times> 'c manager" where
  "removeInstance name m =
     (if falsy name then (Some False, m)
      else
        let n = trim (text_of name)
        in case map_of (instances m) n of
             None \<Rightarrow> (Some False, m)
           | Some i \<Rightarrow> (None, m\<lparr>finalize_called := finalize_called m @ [i], tasks := tasks m @ [RemoveTask n]\<rparr>))"

definition remove_finish :: "jstring \<Rightarrow> 'c manager \<Rightarrow> bool \<times> 'c manager" where
  "remove_finish n m =
     (if map_of (instances m) n \<noteq> None
      then (True, m\<lparr>instances := AList.delete n (instances m), instanceEngines := AList.delete n (instanceEngines m)\<rparr>)
      else (False, m))"

definition clear_begin :: "'c manager \<Rightarrow> 'c manager" where
  "clear_begin m = m\<lparr>finalize_called := finalize_called m @ map snd (instances m), tasks := tasks m @ [ClearTask]\<rparr>"

definition clear_finish :: "'c manager \<Rightarrow> 'c manager" where
  "clear_finish m = m\<lparr>instances := [], instanceEngines := []\<rparr>"

subsection \<open>Interleavings\<close>

datatype 'c manager_event =
    AddEngine text_arg "'c option"
  | RemoveEngine text_arg
  | Create text_arg text_arg bool
  | RemoveInstance text_arg
  | ClearAll
  | Resume nat

fun resume :: "task \<Rightarrow> 'c manager \<Rightarrow> 'c manager" where
  "resume (RemoveTask n) m = snd (remove_finish n m)"
| "resume ClearTask m = clear_finish m"

fun handle :: "(jstring \<Rightarrow> jstring) \<Rightarrow> ('c \<Rightarrow> jstring \<Rightarrow> cacher_error option) \<Rightarrow> 'c manager_event \<Rightarrow> 'c manager \<Rightarrow> 'c manager" where
  "handle up con (AddEngine n c) m = (case addEngine up n c m of Inl e \<Rightarrow> m | Inr m' \<Rightarrow> m')"
| "handle up con (RemoveEngine n) m = snd (removeEngine up n m)"
| "handle up con (Create e n ok) m = (case create up con e n ok m of Inl x \<Rightarrow> m | Inr (i, m') \<Rightarrow> m')"
| "handle up con (RemoveInstance n) m = snd (removeInstance n m)"
| "handle up con ClearAll m = clear_begin m"
| "handle up con (Resume i) m =
     (if i < length (tasks m) then resume (tasks m ! i) (m\<lparr>tasks := take i (tasks m) @ drop (Suc i) (tasks m)\<rparr>) else m)"

fun runs :: "(jstring \<Rightarrow> jstring) \<Rightarrow> ('c \<Rightarrow> jstring \<Rightarrow> cacher_error option) \<Rightarrow> 'c manager_event list \<Rightarrow> 'c manager \<Rightarrow> 'c manager" where
  "runs up con [] m = m"
| "runs up con (e # es) m = runs up con es (handle up con e m)"

text \<open>No instance is built while a removal or a clear still waits.\<close>

fun orderly :: "(jstring \<Rightarrow> jstring) \<Rightarrow> ('c \<Rightarrow> jstring \<Rightarrow> cacher_error option) \<Rightarrow> 'c manager_event list \<Rightarrow> 'c manager \<Rightarrow> bool" where
  "orderly up con [] m = True"
| "orderly up con (e # es) m =
     ((tasks m \<noteq> [] \<longrightarrow> built (handle up con e m) = built m) \<and> orderly up con es (handle up con e m))"

subsection \<open>The registry's invariants\<close>

definition registry_inv :: "'c manager \<Rightarrow> bool" where
  "registry_inv m \<longleftrightarrow>
     (\<forall>n. (map_of (instances m) n = None) = (map_of (instanceEngines m) n = None)) \<and>
     (\<forall>n i. map_of (instances m) n = Some i \<longrightarrow> i < built m) \<and>
     (\<forall>n n' i. map_of (instances m) n = Some i \<longrightarrow> map_of (instances m) n' = Some i \<longrightarrow> n = n')"

text \<open>Every instance is still registered or had its \<open>finalize\<close> called.\<close>

definition accounted :: "'c manager \<Rightarrow> bool" where
  "accounted m \<longleftrightarrow> (\<forall>i < built m. i \<in> set (finalize_called m) \<or> (\<exists>n. map_of (instances m) n = Some i))"

definition settled :: "'c manager \<Rightarrow> bool" where
  "settled m \<longleftrightarrow>
     (ClearTask \<in> set (tasks m) \<longrightarrow> (\<forall>n i. map_of (instances m) n = Some i \<longrightarrow> i \<in> set (finalize_called m))) \<and>
     (\<forall>n. RemoveTask n \<in> set (tasks m) \<longrightarrow> (\<forall>i. map_of (instances m) n = Some i \<longrightarrow> i \<in> set (finalize_called m)))"

lemma addEngine_frame:
  "addEngine up n c m = Inr m' \<Longrightarrow> \<exists>es. m' = m\<lparr>engines := es\<rparr>"
  by (auto simp: addEngine_def Let_def split: if_splits option.splits)

lemma removeEngine_frame: "\<exists>es. snd (removeEngine up n m) = m\<lparr>engines := es\<rparr>"
  by (auto simp: removeEngine_def Let_def intro: exI[of _ "engines m"])

text \<open>What a successful \<open>create\<close> does: hand out the registered instance, or build the next one.\<close>

lemma create_cases:
  assumes "create up builds e n ok m = Inr (r, m')" and "registry_inv m"
  obtains (found) i where "map_of (instances m) (trim (text_of n)) = Some i" "r = Some i" "m' = m"
      "map_of (instanceEngines m) (trim (text_of n)) = Some (up (trim (text_of e)))"
  | (fresh) "map_of (instances m) (trim (text_of n)) = None" "r = Some (built m)"
      "m' = m\<lparr>instances := AList.update (trim (text_of n)) (built m) (instances m),
              instanceEngines := AList.update (trim (text_of n)) (up (trim (text_of e))) (instanceEngines m),
              built := Suc (built m)\<rparr>"
proof -
  let ?n = "trim (text_of n)"
  obtain cls m1 where m1: "(if map_of (instances m) ?n \<noteq> None then validateExistingInstance (up (trim (text_of e))) ?n m
      else createNewInstance builds cls (up (trim (text_of e))) ?n m) = Inr m1"
    and r: "r = map_of (instances m1) ?n" "m' = m1"
    using assms(1) by (auto simp: create_def sum_simps Let_def split: option.splits)
  show ?thesis
  proof (cases "map_of (instances m) ?n")
    case (Some i)
    then obtain t where "map_of (instanceEngines m) ?n = Some t" using assms(2) by (metis registry_inv_def option.exhaust option.distinct(1))
    then show ?thesis
      using found[of i] Some m1 r by (auto simp: validateExistingInstance_def split: if_splits)
  next
    case None
    then show ?thesis
      using fresh m1 r by (auto simp: createNewInstance_def js_simps split: option.splits)
  qed
qed

lemma handle_inv:
  assumes "registry_inv m"
  shows "registry_inv (handle up builds e m)"
proof (cases e)
  case (AddEngine n c)
  then show ?thesis using assms addEngine_frame[of up n c m] by (cases "addEngine up n c m") (auto simp: registry_inv_def)
next
  case (RemoveEngine n)
  then show ?thesis using assms removeEngine_frame[of up n m] by (auto simp: registry_inv_def)
next
  case (Create g n ok)
  show ?thesis
  proof (cases "create up builds g n ok m")
    case (Inr p)
    obtain r m' where p: "p = (r, m')" by (cases p)
    have c: "create up builds g n ok m = Inr (r, m')" using Inr p by simp
    have "registry_inv m'"
      by (rule create_cases[OF c assms]) (use assms in \<open>auto simp: registry_inv_def js_simps less_SucI split: if_splits\<close>)
    then show ?thesis using Create c by simp
  qed (use assms Create in simp)
next
  case (RemoveInstance n)
  then show ?thesis using assms by (auto simp: removeInstance_def Let_def registry_inv_def split: option.split)
next
  case ClearAll
  then show ?thesis using assms by (simp add: clear_begin_def registry_inv_def)
next
  case (Resume i)
  then show ?thesis
    using assms by (cases "tasks m ! i")
      (auto simp: remove_finish_def clear_finish_def registry_inv_def js_simps split: if_splits)
qed


text \<open>The empty registry with its built-in engines.\<close>

definition fresh_manager :: "(jstring \<times> 'c) list \<Rightarrow> 'c manager" where
  "fresh_manager es = \<lparr>engines = es, instances = [], instanceEngines = [], built = 0, finalize_called = [], tasks = []\<rparr>"

lemma fresh_inv: "registry_inv (fresh_manager es)"
  by (simp add: registry_inv_def fresh_manager_def)



subsection \<open>No instance is lost\<close>

lemma handle_accounted:
  assumes "registry_inv m" and "accounted m" and "settled m" and "tasks m \<noteq> [] \<longrightarrow> built (handle up builds e m) = built m"
  shows "accounted (handle up builds e m) \<and> settled (handle up builds e m)"
proof (cases e)
  case (AddEngine n c)
  then show ?thesis using assms addEngine_frame[of up n c m]
    by (cases "addEngine up n c m") (auto simp: accounted_def settled_def)
next
  case (RemoveEngine n)
  then show ?thesis using assms removeEngine_frame[of up n m] by (auto simp: accounted_def settled_def)
next
  case (Create g n ok)
  show ?thesis
  proof (cases "create up builds g n ok m")
    case (Inr p)
    obtain r m' where p: "p = (r, m')" by (cases p)
    have c: "create up builds g n ok m = Inr (r, m')" using Inr p by simp
    have h: "handle up builds e m = m'" using c Create by simp
    show ?thesis
    proof (rule create_cases[OF c assms(1)])
      assume "m' = m"
      then show ?thesis using assms h by simp
    next
      assume f: "map_of (instances m) (trim (text_of n)) = None"
        "m' = m\<lparr>instances := AList.update (trim (text_of n)) (built m) (instances m),
              instanceEngines := AList.update (trim (text_of n)) (up (trim (text_of g))) (instanceEngines m),
              built := Suc (built m)\<rparr>"
      then have "tasks m = []" using assms(4) h by auto
      moreover have "accounted m'"
        unfolding accounted_def
      proof (intro allI impI)
        fix i assume "i < built m'"
        then consider "i < built m" | "i = built m" using f(2) by fastforce
        then show "i \<in> set (finalize_called m') \<or> (\<exists>k. map_of (instances m') k = Some i)"
        proof cases
          case 1
          then consider "i \<in> set (finalize_called m)" | k where "map_of (instances m) k = Some i"
            using assms(2) by (auto simp: accounted_def)
          then show ?thesis
          proof cases
            case 2
            then have "map_of (instances m') k = Some i" using f by (auto simp: js_simps)
            then show ?thesis by blast
          qed (simp add: f(2))
        qed (auto simp: f(2) js_simps)
      qed
      ultimately show ?thesis using f(2) h by (simp add: settled_def)
    qed
  qed (use assms Create in simp)
next
  case (RemoveInstance n)
  show ?thesis
  proof (cases "falsy n \<or> map_of (instances m) (trim (text_of n)) = None")
    case False
    then obtain i where i: "map_of (instances m) (trim (text_of n)) = Some i" by auto
    then have "handle up builds e m =
        m\<lparr>finalize_called := finalize_called m @ [i], tasks := tasks m @ [RemoveTask (trim (text_of n))]\<rparr>"
      using False RemoveInstance by (simp add: removeInstance_def Let_def)
    then show ?thesis using assms(2,3) i by (auto simp: accounted_def settled_def)
  qed (use assms RemoveInstance in \<open>auto simp: removeInstance_def Let_def\<close>)
next
  case ClearAll
  have "map_of (instances m) n = Some i \<Longrightarrow> i \<in> snd ` set (instances m)" for n i
    by (force dest: map_of_SomeD)
  then show ?thesis
    using assms(2,3) ClearAll by (auto simp: clear_begin_def accounted_def settled_def)
next
  case (Resume i)
  show ?thesis
  proof (cases "i < length (tasks m)")
    case True
    let ?ts = "take i (tasks m) @ drop (Suc i) (tasks m)"
    have sub: "set ?ts \<subseteq> set (tasks m)" by (auto dest: in_set_takeD in_set_dropD)
    have t: "tasks m ! i \<in> set (tasks m)" using True by simp
    show ?thesis
    proof (cases "tasks m ! i")
      case (RemoveTask n)
      let ?m' = "handle up builds e m"
      have h: "?m' = snd (remove_finish n (m\<lparr>tasks := ?ts\<rparr>))" using RemoveTask True Resume by simp
      have flds: "built ?m' = built m" "finalize_called ?m' = finalize_called m" "tasks ?m' = ?ts"
        "\<And>k. map_of (instances ?m') k = (if k = n then None else map_of (instances m) k)"
        unfolding h by (auto simp: remove_finish_def js_simps)
      have f: "\<forall>j. map_of (instances m) n = Some j \<longrightarrow> j \<in> set (finalize_called m)"
        using assms(3) t RemoveTask unfolding settled_def by metis
      have "accounted ?m'"
        using assms(2) f unfolding accounted_def flds by metis
      moreover have "settled ?m'"
        using assms(3) sub unfolding settled_def flds by (metis option.distinct(1) subsetD)
      ultimately show ?thesis by blast
    next
      case ClearTask
      then show ?thesis
        using assms(2,3) t sub True Resume
        by (fastforce simp: accounted_def settled_def clear_finish_def)
    qed
  qed (use assms Resume in simp)
qed

lemma runs_accounted:
  "registry_inv m \<Longrightarrow> accounted m \<Longrightarrow> settled m \<Longrightarrow> orderly up builds es m \<Longrightarrow> accounted (runs up builds es m)"
proof (induction es arbitrary: m)
  case (Cons e es)
  then show ?case using handle_accounted[of m up builds e] handle_inv[of m up builds e] by simp
qed simp

text \<open>C21: as long as no instance is built while a removal or a clear waits for a finalizer, every instance ever built
  is still registered or its finalizer was called: none is dropped with its connection open.\<close>

theorem no_instance_lost:
  assumes "orderly up builds es (fresh_manager eng)"
  shows "accounted (runs up builds es (fresh_manager eng))"
  by (rule runs_accounted[OF fresh_inv _ _ assms]) (simp_all add: accounted_def settled_def fresh_manager_def)

abbreviation create_a :: "unit manager_event" where
  "create_a \<equiv> Create (Text [77]) (Text [97]) True"

theorem no_instance_lost_witness:
  "accounted (runs id (\<lambda>_ _. None) [create_a, RemoveInstance (Text [97]), Resume 0, create_a] (fresh_manager [([77], ())])) \<and>
   built (runs id (\<lambda>_ _. None) [create_a, RemoveInstance (Text [97]), Resume 0, create_a] (fresh_manager [([77], ())])) = 2"
proof -
  note defs = fresh_manager_def create_def validateCreate_def falsy_def trim_def js_space_def createNewInstance_def
    removeInstance_def remove_finish_def Let_def
  have "orderly id (\<lambda>_ _. None) [create_a, RemoveInstance (Text [97]), Resume 0, create_a] (fresh_manager [([77], ())])"
    by (simp add: defs)
  from no_instance_lost[OF this] show ?thesis by (simp add: defs)
qed

text \<open>C37: a removal that finishes after the name was taken again drops the new instance with its finalizer never called:
  two removals of one instance overlap, the instance is created anew between their ends.\<close>

theorem late_removal_loses_instance:
  "let m = runs id (\<lambda>_ _. None)
       [create_a, RemoveInstance (Text [97]), RemoveInstance (Text [97]), Resume 0, create_a, Resume 0] (fresh_manager [([77], ())])
   in built m = 2 \<and> tasks m = [] \<and> getInstance (Text [97]) m = None \<and> 1 \<notin> set (finalize_called m) \<and> \<not> accounted m"
proof -
  note defs = fresh_manager_def create_def validateCreate_def falsy_def trim_def js_space_def createNewInstance_def
    removeInstance_def remove_finish_def getInstance_def accounted_def Let_def
  show ?thesis by (simp add: defs) (auto intro: exI[of _ 1])
qed

end
