(* ===== verification/Schedule.thy ===== *)
theory Schedule
  imports UriText
begin

text \<open>
  The cron expressions (\<open>src/packages/cronus/schedule.ts\<close>): parsing five fields into the sets of
  the values they match, and matching a local date against them.

  A \<open>Set\<close> is a duplicate-free list in insertion order.  Whole numbers are unbounded: a number
  whose double is rounded is far outside every field, on both sides.  \<open>upper\<close> is the Unicode
  table behind \<open>toUpperCase\<close>.
\<close>

datatype field_name = Minute | Hour | DayOfMonth | Month | DayOfWeek

record field_spec =
  f_name :: field_name
  f_min :: nat
  f_max :: nat

definition FIELDS :: "field_spec list" where
  "FIELDS =
     [\<lparr>f_name = Minute, f_min = 0, f_max = 59\<rparr>,
      \<lparr>f_name = Hour, f_min = 0, f_max = 23\<rparr>,
      \<lparr>f_name = DayOfMonth, f_min = 1, f_max = 31\<rparr>,
      \<lparr>f_name = Month, f_min = 1, f_max = 12\<rparr>,
      \<lparr>f_name = DayOfWeek, f_min = 0, f_max = 7\<rparr>]"

definition MONTH_NAMES :: "(jstring \<times> nat) list" where
  "MONTH_NAMES =
     [(js ''JAN'', 1), (js ''FEB'', 2), (js ''MAR'', 3), (js ''APR'', 4), (js ''MAY'', 5), (js ''JUN'', 6),
      (js ''JUL'', 7), (js ''AUG'', 8), (js ''SEP'', 9), (js ''OCT'', 10), (js ''NOV'', 11), (js ''DEC'', 12)]"

definition DAY_NAMES :: "(jstring \<times> nat) list" where
  "DAY_NAMES =
     [(js ''SUN'', 0), (js ''MON'', 1), (js ''TUE'', 2), (js ''WED'', 3), (js ''THU'', 4), (js ''FRI'', 5), (js ''SAT'', 6)]"

text \<open>The reasons of an \<open>InvalidScheduleError\<close>, with its field.\<close>

datatype reason =
    BlankSchedule | FieldCount nat | EmptyItem | TooManySlashes | MissingStep | MissingValue
  | NotWhole | NotNameOrNumber | StepBelowOne | MalformedRange | ReversedRange | OutsideRange | StepTooWide

datatype schedule_error = InvalidSchedule "field_name option" reason

abbreviation comma :: code_unit where "comma \<equiv> 44"
abbreviation star :: code_unit where "star \<equiv> 42"

text \<open>\<open>/^\d+$/\<close> and \<open>Number(token)\<close> on what it accepts.\<close>

definition whole_token :: "jstring \<Rightarrow> bool" where
  "whole_token t \<longleftrightarrow> t \<noteq> [] \<and> list_all unit_digit t"

definition toInt :: "jstring \<Rightarrow> field_name \<Rightarrow> schedule_error + nat" where
  "toInt token field = (if whole_token token then Inr (decimal_val token) else Inl (InvalidSchedule (Some field) NotWhole))"

definition atomValue :: "(jstring \<Rightarrow> jstring) \<Rightarrow> jstring \<Rightarrow> field_name \<Rightarrow> schedule_error + nat" where
  "atomValue upper token field =
     (if whole_token token then Inr (decimal_val token)
      else
        let names = (if field = Month then Some MONTH_NAMES else if field = DayOfWeek then Some DAY_NAMES else None)
        in case names of
             None \<Rightarrow> Inl (InvalidSchedule (Some field) NotWhole)
           | Some tbl \<Rightarrow>
               (case map_of tbl (upper token) of
                  None \<Rightarrow> Inl (InvalidSchedule (Some field) NotNameOrNumber)
                | Some v \<Rightarrow> Inr v))"

text \<open>\<open>for (let v = from; v <= to; v += step)\<close>, for a positive step.\<close>

function counting :: "nat \<Rightarrow> nat \<Rightarrow> nat \<Rightarrow> nat list" where
  "counting from to step = (if step = 0 \<or> to < from then [] else from # counting (from + step) to step)"
  by pat_completeness auto
termination
  by (relation "measure (\<lambda>(from, to, step). Suc to - from)") auto

declare counting.simps [simp del]

definition fold_sunday :: "field_name \<Rightarrow> nat \<Rightarrow> nat" where
  "fold_sunday field v = (if field = DayOfWeek \<and> v = 7 then 0 else v)"

text \<open>The bounds of one item: of its range part, given whether it has a step.\<close>

definition range_bounds ::
  "(jstring \<Rightarrow> jstring) \<Rightarrow> field_spec \<Rightarrow> jstring \<Rightarrow> bool \<Rightarrow> schedule_error + (nat \<times> nat)" where
  "range_bounds upper spec rangePart stepped =
     (let field = f_name spec
      in if rangePart = [star] then Inr (f_min spec, f_max spec)
         else if dash \<in> set rangePart then
           (case split_on dash rangePart of
              [a, b] \<Rightarrow>
                (if a = [] \<or> b = [] then Inl (InvalidSchedule (Some field) MalformedRange)
                 else bindE (atomValue upper a field) (\<lambda>from.
                   bindE (atomValue upper b field) (\<lambda>to.
                     if from > to then Inl (InvalidSchedule (Some field) ReversedRange) else Inr (from, to))))
            | _ \<Rightarrow> Inl (InvalidSchedule (Some field) MalformedRange))
         else bindE (atomValue upper rangePart field) (\<lambda>from. Inr (from, if stepped then f_max spec else from)))"

definition step_value :: "field_name \<Rightarrow> jstring option \<Rightarrow> schedule_error + nat" where
  "step_value field stepPart =
     (case stepPart of
        None \<Rightarrow> Inr 1
      | Some s \<Rightarrow> bindE (toInt s field) (\<lambda>n. if n < 1 then Inl (InvalidSchedule (Some field) StepBelowOne) else Inr n))"

text \<open>The values of an item, from its range and its step.\<close>

definition item_values ::
  "(jstring \<Rightarrow> jstring) \<Rightarrow> field_spec \<Rightarrow> jstring \<Rightarrow> jstring option \<Rightarrow> schedule_error + nat list" where
  "item_values upper spec rangePart stepPart =
     (let field = f_name spec; err = (\<lambda>r. Inl (InvalidSchedule (Some field) r))
      in bindE (step_value field stepPart) (\<lambda>step.
           bindE (range_bounds upper spec rangePart (stepPart \<noteq> None)) (\<lambda>(from, to).
             if from < f_min spec \<or> from > f_max spec \<or> to > f_max spec then err OutsideRange
             else if stepPart \<noteq> None \<and> to > from \<and> step > to - from then err StepTooWide
             else Inr (map (fold_sunday field) (counting from to step)))))"

text \<open>One item of a field's list.\<close>

definition parse_part :: "(jstring \<Rightarrow> jstring) \<Rightarrow> field_spec \<Rightarrow> jstring \<Rightarrow> schedule_error + nat list" where
  "parse_part upper spec part =
     (let err = (\<lambda>r. Inl (InvalidSchedule (Some (f_name spec)) r)); pieces = split_on slash part
      in if part = [] then err EmptyItem
         else if length pieces > 2 then err TooManySlashes
         else
           let rangePart = hd pieces; stepPart = (if length pieces = 2 then Some (pieces ! 1) else None)
           in if stepPart = Some [] then err MissingStep
              else if rangePart = [] then err MissingValue
              else item_values upper spec rangePart stepPart)"

definition parseField :: "(jstring \<Rightarrow> jstring) \<Rightarrow> field_spec \<Rightarrow> jstring \<Rightarrow> schedule_error + nat list" where
  "parseField upper spec raw =
     foldE (\<lambda>values part. bindE (parse_part upper spec part) (\<lambda>vs. Inr (foldl (\<lambda>acc v. set_add v acc) values vs)))
       [] (split_on comma raw)"

record parsed_schedule =
  minute :: "nat list"
  hour :: "nat list"
  dayOfMonth :: "nat list"
  month :: "nat list"
  dayOfWeek :: "nat list"
  domRestricted :: bool
  dowRestricted :: bool
  fixedTime :: bool

text \<open>\<open>s.split(/\s+/)\<close> on a trimmed string: the words between runs of white space.\<close>

function words :: "jstring \<Rightarrow> jstring list" where
  "words s =
     (let w = takeWhile (\<lambda>u. \<not> js_space u) s; r = dropWhile (\<lambda>u. \<not> js_space u) s
      in if r = [] then [w] else w # words (dropWhile js_space r))"
  by pat_completeness auto
termination
proof (relation "measure length", goal_cases)
  case (2 s w r)
  obtain u us where r: "r = u # us" using 2(3) by (cases r) auto
  then have "js_space u" using 2 by (metis hd_dropWhile list.distinct(1) list.sel(1))
  then have "length (dropWhile js_space r) \<le> length us" using r length_dropWhile_le by fastforce
  moreover have "length r \<le> length s" using 2 length_dropWhile_le by blast
  ultimately show ?case using r by simp
qed simp

declare words.simps [simp del]

definition parseSchedule :: "(jstring \<Rightarrow> jstring) \<Rightarrow> jstring \<Rightarrow> schedule_error + parsed_schedule" where
  "parseSchedule upper expression =
     (if trim expression = [] then Inl (InvalidSchedule None BlankSchedule)
      else
        let fields = words (trim expression)
        in if length fields \<noteq> 5 then Inl (InvalidSchedule None (FieldCount (length fields)))
           else
             bindE (mapE (\<lambda>(spec, raw). parseField upper spec raw) (zip FIELDS fields)) (\<lambda>vs.
               Inr \<lparr>minute = vs ! 0, hour = vs ! 1, dayOfMonth = vs ! 2, month = vs ! 3, dayOfWeek = vs ! 4,
                    domRestricted = \<not> starts_with [star] (fields ! 2),
                    dowRestricted = \<not> starts_with [star] (fields ! 4),
                    fixedTime = \<not> starts_with [star] (fields ! 0) \<and> \<not> starts_with [star] (fields ! 1)\<rparr>))"

text \<open>What \<open>matches\<close> reads off a \<open>Date\<close>, in local time; months from 0.\<close>

record local_date =
  getFullYear :: int
  getMonth :: nat
  getDate :: nat
  getDay :: nat
  getHours :: nat
  getMinutes :: nat

definition matches_date :: "parsed_schedule \<Rightarrow> local_date \<Rightarrow> bool" where
  "matches_date sch date =
     (if getMinutes date \<notin> set (minute sch) then False
      else if getHours date \<notin> set (hour sch) then False
      else if getMonth date + 1 \<notin> set (month sch) then False
      else
        let domOk = getDate date \<in> set (dayOfMonth sch); dowOk = getDay date \<in> set (dayOfWeek sch)
        in if domRestricted sch \<and> dowRestricted sch then domOk \<or> dowOk else domOk \<and> dowOk)"

definition isValidSchedule :: "(jstring \<Rightarrow> jstring) \<Rightarrow> jstring \<Rightarrow> bool" where
  "isValidSchedule upper expression = (case parseSchedule upper expression of Inl e \<Rightarrow> False | Inr s \<Rightarrow> True)"

subsection \<open>The values of a field\<close>

lemma counting_set: "0 < step \<Longrightarrow> set (counting lo hi step) = {v. lo \<le> v \<and> v \<le> hi \<and> step dvd (v - lo)}"
proof (induction lo hi step rule: counting.induct)
  case (1 lo hi step)
  show ?case
  proof (cases "hi < lo")
    case True
    then show ?thesis by (subst counting.simps) auto
  next
    case False
    have "v \<in> set (counting lo hi step) \<longleftrightarrow> lo \<le> v \<and> v \<le> hi \<and> step dvd (v - lo)" for v
    proof -
      have "v \<in> set (counting lo hi step) \<longleftrightarrow> v = lo \<or> (lo + step \<le> v \<and> v \<le> hi \<and> step dvd (v - (lo + step)))"
        using 1 False by (subst counting.simps) auto
      moreover have "step dvd (v - lo) \<longleftrightarrow> step dvd (v - (lo + step))" if "lo + step \<le> v"
      proof -
        have "v - lo = v - (lo + step) + step" using that by simp
        then show ?thesis by (metis dvd_add_triv_right_iff)
      qed
      moreover have "lo + step \<le> v" if "lo < v" "step dvd (v - lo)"
        using dvd_imp_le[OF that(2)] that(1) by simp
      ultimately show ?thesis using False 1(2) by (metis add_leD1 diff_self_eq_0 dvd_0_right le_neq_implies_less not_less order_refl)
    qed
    then show ?thesis by blast
  qed
qed

lemma set_add_all: "set (foldl (\<lambda>acc v. set_add v acc) a vs) = set a \<union> set vs"
  by (induction vs arbitrary: a) auto

lemma distinct_add_all: "distinct a \<Longrightarrow> distinct (foldl (\<lambda>acc v. set_add v acc) a vs)"
  by (induction vs arbitrary: a) auto

text \<open>A field parses exactly when its items do, to the union of their values.\<close>

lemma fields_fold:
  "foldE (\<lambda>values part. bindE (p part) (\<lambda>vs. Inr (foldl (\<lambda>acc v. set_add v acc) values vs))) a parts = Inr vs \<Longrightarrow>
     (distinct a \<longrightarrow> distinct vs) \<and> (\<exists>vss. list_all2 (\<lambda>x y. p x = Inr y) parts vss \<and> set vs = set a \<union> \<Union>(set ` set vss))"
proof (induction parts arbitrary: a)
  case (Cons x xs)
  obtain ys where y: "p x = Inr ys"
    "foldE (\<lambda>values part. bindE (p part) (\<lambda>vs. Inr (foldl (\<lambda>acc v. set_add v acc) values vs)))
       (foldl (\<lambda>acc v. set_add v acc) a ys) xs = Inr vs"
    using Cons.prems by (auto simp: sum_simps)
  then obtain vss where "list_all2 (\<lambda>x y. p x = Inr y) xs vss" "set vs = set a \<union> set ys \<union> \<Union>(set ` set vss)"
    using Cons.IH[OF y(2)] by (auto simp: set_add_all)
  then show ?case using y(1) Cons.IH[OF y(2)] distinct_add_all by (auto intro!: exI[of _ "ys # vss"])
qed simp

lemma fields_fold_some:
  "list_all2 (\<lambda>x y. p x = Inr y) parts vss \<Longrightarrow>
     \<exists>vs. foldE (\<lambda>values part. bindE (p part) (\<lambda>vs. Inr (foldl (\<lambda>acc v. set_add v acc) values vs))) a parts = Inr vs"
  by (induction parts vss arbitrary: a rule: list_all2_induct) auto

definition legal :: "field_spec \<Rightarrow> nat \<Rightarrow> bool" where
  "legal spec v \<longleftrightarrow> f_min spec \<le> v \<and> v \<le> f_max spec \<and> \<not> (f_name spec = DayOfWeek \<and> v = 7)"

lemma fold_legal:
  "spec \<in> set FIELDS \<Longrightarrow> f_min spec \<le> v \<Longrightarrow> v \<le> f_max spec \<Longrightarrow> legal spec (fold_sunday (f_name spec) v)"
  by (auto simp: FIELDS_def legal_def fold_sunday_def)

lemma counting_within: "v \<in> set (counting lo hi step) \<Longrightarrow> lo \<le> v \<and> v \<le> hi"
  by (induction lo hi step rule: counting.induct) (subst (asm) counting.simps, force split: if_splits)

lemma range_order: "range_bounds up spec r stepped = Inr (a, b) \<Longrightarrow> spec \<in> set FIELDS \<Longrightarrow> a \<le> f_max spec \<Longrightarrow> a \<le> b"
  by (auto simp: range_bounds_def Let_def sum_simps FIELDS_def split: if_splits list.splits)

lemma counting_nonempty: "0 < step \<Longrightarrow> lo \<le> hi \<Longrightarrow> counting lo hi step \<noteq> []"
  by (subst counting.simps) simp

lemma step_positive: "step_value f s = Inr n \<Longrightarrow> 0 < n"
  by (auto simp: step_value_def sum_simps split: option.splits if_splits)

lemma parse_part_legal:
  assumes "parse_part up spec part = Inr vs" and "spec \<in> set FIELDS"
  shows "vs \<noteq> [] \<and> (\<forall>v\<in>set vs. legal spec v)"
proof -
  obtain r st where "item_values up spec r st = Inr vs"
    using assms(1) by (auto simp: parse_part_def Let_def split: if_split_asm)
  then obtain step lo hi where p: "step_value (f_name spec) st = Inr step"
    "range_bounds up spec r (st \<noteq> None) = Inr (lo, hi)" "f_min spec \<le> lo" "lo \<le> f_max spec" "hi \<le> f_max spec"
    "vs = map (fold_sunday (f_name spec)) (counting lo hi step)"
    by (auto simp: item_values_def Let_def sum_simps not_less split: if_split_asm)
  have "vs \<noteq> []" using p counting_nonempty step_positive range_order[OF p(2) assms(2) p(4)] by simp
  moreover have "legal spec v" if v: "v \<in> set vs" for v
  proof -
    obtain w where w: "w \<in> set (counting lo hi step)" "v = fold_sunday (f_name spec) w" using v p(6) by auto
    have "lo \<le> w \<and> w \<le> hi" using counting_within[OF w(1)] .
    then show ?thesis using fold_legal[OF assms(2), of w] p(3,5) w(2) by simp
  qed
  ultimately show ?thesis by blast
qed

lemma all2_source: "list_all2 R xs ys \<Longrightarrow> y \<in> set ys \<Longrightarrow> \<exists>x\<in>set xs. R x y"
  by (induction xs ys rule: list_all2_induct) auto

lemma parseField_legal:
  assumes "parseField up spec raw = Inr vs" and "spec \<in> set FIELDS"
  shows "vs \<noteq> [] \<and> distinct vs \<and> (\<forall>v\<in>set vs. legal spec v)"
proof -
  obtain vss where d: "distinct vs" "list_all2 (\<lambda>x y. parse_part up spec x = Inr y) (split_on comma raw) vss"
    "set vs = \<Union>(set ` set vss)"
    using fields_fold[OF assms(1)[unfolded parseField_def]] by auto
  have each: "ys \<noteq> [] \<and> (\<forall>v\<in>set ys. legal spec v)" if "ys \<in> set vss" for ys
    using all2_source[OF d(2) that] parse_part_legal[OF _ assms(2)] by blast
  have "split_on comma raw \<noteq> []" by (cases raw) (auto split: list.splits)
  then have "vss \<noteq> []" using d(2) by auto
  then have "set vs \<noteq> {}" using each d(3) by (cases vss) auto
  then show ?thesis using d each by auto
qed

text \<open>C38: a parsed expression has in every field a non-empty set of values of that field: minutes below 60, hours below
  24, days of the month from 1 to 31, months from 1 to 12, days of the week from 0 to 6 with Sunday always 0.\<close>

theorem parsed_fields_legal:
  assumes "parseSchedule upper expression = Inr sch"
  shows "(minute sch \<noteq> [] \<and> distinct (minute sch) \<and> set (minute sch) \<subseteq> {0..59}) \<and>
    (hour sch \<noteq> [] \<and> distinct (hour sch) \<and> set (hour sch) \<subseteq> {0..23}) \<and>
    (dayOfMonth sch \<noteq> [] \<and> distinct (dayOfMonth sch) \<and> set (dayOfMonth sch) \<subseteq> {1..31}) \<and>
    (month sch \<noteq> [] \<and> distinct (month sch) \<and> set (month sch) \<subseteq> {1..12}) \<and>
    (dayOfWeek sch \<noteq> [] \<and> distinct (dayOfWeek sch) \<and> set (dayOfWeek sch) \<subseteq> {0..6})"
proof -
  obtain fields vs where f: "length fields = 5"
    "mapE (\<lambda>(spec, raw). parseField upper spec raw) (zip FIELDS fields) = Inr vs"
    "minute sch = vs ! 0" "hour sch = vs ! 1" "dayOfMonth sch = vs ! 2" "month sch = vs ! 3" "dayOfWeek sch = vs ! 4"
    using assms by (auto simp: parseSchedule_def Let_def sum_simps split: if_split_asm)
  have len: "length FIELDS = 5" by (simp add: FIELDS_def)
  have each: "parseField upper (FIELDS ! i) (fields ! i) = Inr (vs ! i)" if "i < 5" for i
    using f(1,2) that len unfolding mapE_Inr_iff by (auto simp: list_all2_conv_all_nth)
  have ok: "vs ! i \<noteq> [] \<and> distinct (vs ! i) \<and> (\<forall>v\<in>set (vs ! i). legal (FIELDS ! i) v)" if "i < 5" for i
    using parseField_legal[OF each[OF that]] that len by simp
  show ?thesis
    using ok[of 0] ok[of 1] ok[of 2] ok[of 3] ok[of 4] unfolding f(3-7)
    by (auto simp: FIELDS_def legal_def numeral_eq_Suc)
qed

theorem parsed_fields_legal_witness:
  "\<exists>sch. parseSchedule id (js ''*/15 0,12 * 1-6 7'') = Inr sch \<and> set (dayOfWeek sch) \<subseteq> {0..6} \<and> minute sch \<noteq> []"
proof -
  obtain sch where "parseSchedule id (js ''*/15 0,12 * 1-6 7'') = Inr sch"
  proof -
    have "isValidSchedule id (js ''*/15 0,12 * 1-6 7'')" by code_simp
    then show ?thesis using that by (auto simp: isValidSchedule_def split: sum.splits)
  qed
  then show ?thesis using parsed_fields_legal by blast
qed

subsection \<open>Items written with numbers\<close>

datatype item = Star "nat option" | Single nat "nat option" | Range nat nat "nat option"

fun item_step :: "item \<Rightarrow> nat option" where
  "item_step (Star s) = s"
| "item_step (Single a s) = s"
| "item_step (Range a b s) = s"

definition num :: "nat \<Rightarrow> jstring" where
  "num n = js (radix_string 10 n)"

fun item_range :: "item \<Rightarrow> jstring" where
  "item_range (Star s) = [star]"
| "item_range (Single a s) = num a"
| "item_range (Range a b s) = num a @ dash # num b"

definition render_item :: "item \<Rightarrow> jstring" where
  "render_item it = item_range it @ (case item_step it of None \<Rightarrow> [] | Some k \<Rightarrow> slash # num k)"

fun render_items :: "item list \<Rightarrow> jstring" where
  "render_items [] = []"
| "render_items [it] = render_item it"
| "render_items (it # its) = render_item it @ comma # render_items its"

fun item_bounds :: "field_spec \<Rightarrow> item \<Rightarrow> nat \<times> nat" where
  "item_bounds spec (Star s) = (f_min spec, f_max spec)"
| "item_bounds spec (Single a None) = (a, a)"
| "item_bounds spec (Single a (Some k)) = (a, f_max spec)"
| "item_bounds spec (Range a b s) = (a, b)"

definition item_ok :: "field_spec \<Rightarrow> item \<Rightarrow> bool" where
  "item_ok spec it \<longleftrightarrow>
     (let (lo, hi) = item_bounds spec it
      in f_min spec \<le> lo \<and> lo \<le> hi \<and> hi \<le> f_max spec \<and>
         (case item_step it of None \<Rightarrow> True | Some k \<Rightarrow> 0 < k \<and> (lo < hi \<longrightarrow> k \<le> hi - lo)))"

definition item_denotes :: "field_spec \<Rightarrow> item \<Rightarrow> nat set" where
  "item_denotes spec it =
     (let (lo, hi) = item_bounds spec it; step = (case item_step it of None \<Rightarrow> 1 | Some k \<Rightarrow> k)
      in fold_sunday (f_name spec) ` {v. lo \<le> v \<and> v \<le> hi \<and> step dvd (v - lo)})"

lemma num_props: "whole_token (num n)" "decimal_val (num n) = n" "num n \<noteq> []" "list_all unit_digit (num n)"
proof -
  have d: "all_digits (radix_string 10 n)" by (simp add: js_simps)
  then show l: "list_all unit_digit (num n)" by (simp add: num_def units_of_digits all_digits_def)
  show n: "num n \<noteq> []" by (simp add: num_def js_def)
  show "whole_token (num n)" using l n by (simp add: whole_token_def)
  show "decimal_val (num n) = n" by (simp add: num_def radix_value)
qed

lemma num_units: "u \<in> set (num n) \<Longrightarrow> 48 \<le> u"
  using num_props(4)[of n] by (auto simp: list_all_iff unit_digit_def)

lemma num_plain: "comma \<notin> set (num n)" "slash \<notin> set (num n)" "dash \<notin> set (num n)" "star \<notin> set (num n)"
  using num_units[of comma n] num_units[of slash n] num_units[of dash n] num_units[of star n] by auto

lemma atom_num: "atomValue up (num n) f = Inr n" "toInt (num n) f = Inr n"
  by (simp_all add: atomValue_def toInt_def num_props)

lemma range_plain: "slash \<notin> set (item_range it)" "comma \<notin> set (item_range it)" "item_range it \<noteq> []"
  by (cases it; simp add: num_plain num_props)+

lemma render_no_comma: "comma \<notin> set (render_item it)"
  using range_plain(2) num_plain(1) by (auto simp: render_item_def split: option.split)

lemma split_render:
  "its \<noteq> [] \<Longrightarrow> split_on comma (render_items its) = map render_item its"
  by (induction its rule: render_items.induct) (simp_all add: split_plain split_first render_no_comma)

lemma num_not_star: "num n \<noteq> [star]"
  using num_plain(4)[of n] by auto

lemma range_not_star: "num a @ dash # num b \<noteq> [star]"
  by (cases "num a") auto

lemma range_bounds_item:
  "range_bounds up spec (item_range it) (item_step it \<noteq> None) =
     (let (lo, hi) = item_bounds spec it
      in if lo > hi \<and> (\<exists>a b s. it = Range a b s) then Inl (InvalidSchedule (Some (f_name spec)) ReversedRange) else Inr (lo, hi))"
proof (cases it)
  case (Single a s)
  then show ?thesis
    using num_plain(3)[of a] num_not_star[of a] by (cases s) (simp_all add: range_bounds_def atom_num)
next
  case (Range a b s)
  have "split_on dash (num a @ dash # num b) = [num a, num b]"
    by (simp add: split_first split_plain num_plain)
  then show ?thesis using Range range_not_star[of a b] by (simp add: range_bounds_def atom_num num_props)
qed (simp add: range_bounds_def)

lemma part_render:
  "parse_part up spec (render_item it) = item_values up spec (item_range it) (map_option num (item_step it))"
proof (cases "item_step it")
  case None
  then show ?thesis
    using range_plain[of it] by (simp add: render_item_def parse_part_def split_plain Let_def)
next
  case (Some k)
  have "split_on slash (item_range it @ slash # num k) = [item_range it, num k]"
    by (simp add: split_first split_plain num_plain range_plain)
  then show ?thesis
    using Some range_plain[of it] by (simp add: render_item_def parse_part_def Let_def num_props)
qed

lemma part_denotes:
  assumes "f_min spec \<le> f_max spec"
  shows "if item_ok spec it then \<exists>vs. parse_part up spec (render_item it) = Inr vs \<and> set vs = item_denotes spec it
   else \<exists>e. parse_part up spec (render_item it) = Inl e"
proof -
  obtain lo hi where b: "item_bounds spec it = (lo, hi)" by fastforce
  have st: "step_value f (map_option num (item_step it)) =
      (case item_step it of None \<Rightarrow> Inr 1 | Some k \<Rightarrow> if k < 1 then Inl (InvalidSchedule (Some f) StepBelowOne) else Inr k)" for f
    by (simp add: step_value_def atom_num split: option.split)
  have rb: "range_bounds up spec (item_range it) (map_option num (item_step it) \<noteq> None) =
      (if lo > hi \<and> (\<exists>a b s. it = Range a b s) then Inl (InvalidSchedule (Some (f_name spec)) ReversedRange) else Inr (lo, hi))"
    using range_bounds_item[of up spec it] b by simp
  have nonrange: "\<not> (\<exists>a b s. it = Range a b s) \<Longrightarrow> lo \<le> hi \<or> lo > f_max spec"
    using b assms by (cases it; cases "item_step it") auto
  define k where "k = (case item_step it of None \<Rightarrow> 1 | Some k \<Rightarrow> k)"
  let ?stp = "map_option num (item_step it)" and ?rev = "lo > hi \<and> (\<exists>a b s. it = Range a b s)"
  have ok: "item_ok spec it \<longleftrightarrow> f_min spec \<le> lo \<and> lo \<le> hi \<and> hi \<le> f_max spec \<and> 0 < k \<and>
      (item_step it \<noteq> None \<longrightarrow> lo < hi \<longrightarrow> k \<le> hi - lo)"
    by (cases "item_step it") (auto simp: item_ok_def b k_def)
  have den: "item_denotes spec it = fold_sunday (f_name spec) ` {v. lo \<le> v \<and> v \<le> hi \<and> k dvd (v - lo)}"
    by (simp add: item_denotes_def b k_def)
  show ?thesis
  proof (cases "0 < k")
    case False
    then obtain e where "step_value (f_name spec) ?stp = Inl e"
      using st[of "f_name spec"] by (cases "item_step it") (auto simp: k_def)
    then have "parse_part up spec (render_item it) = Inl e" by (simp add: part_render item_values_def)
    then show ?thesis using ok False by simp
  next
    case True
    have s: "step_value (f_name spec) ?stp = Inr k"
      using True st[of "f_name spec"] by (cases "item_step it") (auto simp: k_def)
    show ?thesis
    proof (cases ?rev)
      case True
      then obtain e where "range_bounds up spec (item_range it) (?stp \<noteq> None) = Inl e" using rb by auto
      then have "parse_part up spec (render_item it) = Inl e" by (simp add: part_render item_values_def s)
      then show ?thesis using ok True by simp
    next
      case False
      then have le: "lo \<le> hi \<or> lo > f_max spec" using nonrange by auto
      have "range_bounds up spec (item_range it) (?stp \<noteq> None) = Inr (lo, hi)" using rb False by simp
      then have p: "parse_part up spec (render_item it) =
          (if lo < f_min spec \<or> lo > f_max spec \<or> hi > f_max spec then Inl (InvalidSchedule (Some (f_name spec)) OutsideRange)
           else if item_step it \<noteq> None \<and> hi > lo \<and> k > hi - lo then Inl (InvalidSchedule (Some (f_name spec)) StepTooWide)
           else Inr (map (fold_sunday (f_name spec)) (counting lo hi k)))"
        by (simp add: part_render item_values_def s Let_def)
      have "lo < f_min spec \<or> lo > f_max spec \<or> hi > f_max spec \<or> (item_step it \<noteq> None \<and> hi > lo \<and> k > hi - lo) \<longleftrightarrow> \<not> item_ok spec it"
        using ok le \<open>0 < k\<close> by auto
      then show ?thesis unfolding p den using counting_set[OF \<open>0 < k\<close>] by auto
    qed
  qed
qed

lemma parseField_rendered:
  assumes "f_min spec \<le> f_max spec" and "its \<noteq> []"
  shows "if \<forall>it\<in>set its. item_ok spec it
    then \<exists>vs. parseField up spec (render_items its) = Inr vs \<and> set vs = (\<Union>it\<in>set its. item_denotes spec it)
    else \<exists>e. parseField up spec (render_items its) = Inl e"
proof -
  note part = part_denotes[OF assms(1), of _ up]
  have raw: "split_on comma (render_items its) = map render_item its" using split_render[OF assms(2)] .
  show ?thesis
  proof (cases "\<forall>it\<in>set its. item_ok spec it")
    case True
    then have "\<forall>it\<in>set its. \<exists>vs. parse_part up spec (render_item it) = Inr vs \<and> set vs = item_denotes spec it"
      using part by (metis (full_types))
    then obtain f where f: "\<forall>it\<in>set its. parse_part up spec (render_item it) = Inr (f it) \<and> set (f it) = item_denotes spec it"
      by metis
    then have "list_all2 (\<lambda>x y. parse_part up spec x = Inr y) (map render_item its) (map f its)"
      by (simp add: list_all2_conv_all_nth)
    then obtain vs where vs: "parseField up spec (render_items its) = Inr vs"
      unfolding parseField_def raw using fields_fold_some by blast
    obtain vss where vss: "list_all2 (\<lambda>x y. parse_part up spec x = Inr y) (map render_item its) vss" "set vs = \<Union>(set ` set vss)"
      using fields_fold[OF vs[unfolded parseField_def raw]] by auto
    then have "vss = map f its" using f by (auto simp: list_all2_conv_all_nth intro!: nth_equalityI)
    then show ?thesis using True vs vss(2) f by auto
  next
    case False
    have "\<not> (\<exists>vs. parseField up spec (render_items its) = Inr vs)"
    proof
      assume "\<exists>vs. parseField up spec (render_items its) = Inr vs"
      then obtain vs where "parseField up spec (render_items its) = Inr vs" by blast
      then obtain vss where "list_all2 (\<lambda>x y. parse_part up spec x = Inr y) (map render_item its) vss"
        using fields_fold[of "parse_part up spec" "[]" "map render_item its" vs] by (auto simp: parseField_def raw)
      then have "\<forall>it\<in>set its. \<exists>y. parse_part up spec (render_item it) = Inr y"
        by (auto simp: list_all2_conv_all_nth in_set_conv_nth)
      then show False using False part by (metis (full_types) sum.distinct(1))
    qed
    then show ?thesis using False by (cases "parseField up spec (render_items its)") auto
  qed
qed

text \<open>C12: a field written as a list of items over numbers parses exactly when each item stays inside the field, runs
  forwards and has a step of at least one that is no wider than its span; the values are then the union of what the
  items denote: every step-th value from the start to the end of the range, Sunday's 7 read as 0.\<close>

theorem field_denotes:
  assumes "spec \<in> set FIELDS" and "its \<noteq> []"
  shows "if \<forall>it\<in>set its. item_ok spec it
    then \<exists>vs. parseField upper spec (render_items its) = Inr vs \<and> set vs = (\<Union>it\<in>set its. item_denotes spec it)
    else \<exists>e. parseField upper spec (render_items its) = Inl e"
  by (rule parseField_rendered) (use assms in \<open>auto simp: FIELDS_def\<close>)

theorem field_denotes_witness:
  "\<exists>vs. parseField id (FIELDS ! 4) (render_items [Range 5 7 None, Single 1 (Some 3)]) = Inr vs \<and> set vs = {5, 6, 0, 1, 4}"
proof -
  have f: "FIELDS ! 4 = \<lparr>f_name = DayOfWeek, f_min = 0, f_max = 7\<rparr>" "FIELDS ! 4 \<in> set FIELDS"
    by (simp_all add: FIELDS_def numeral_eq_Suc)
  have "counting 5 7 1 = [5, 6, 7]" "counting 1 7 3 = [1, 4, 7]" by code_simp+
  then have n: "{v. 5 \<le> v \<and> v \<le> 7} = {5, 6, 7 :: nat}" "{v. Suc 0 \<le> v \<and> v \<le> 7 \<and> 3 dvd (v - Suc 0)} = {1, 4, 7 :: nat}"
    using counting_set[of 1 5 7] counting_set[of 3 1 7] by simp_all
  have "item_denotes (FIELDS ! 4) (Range 5 7 None) \<union> item_denotes (FIELDS ! 4) (Single 1 (Some 3)) = {5, 6, 0, 1, 4}"
    by (simp add: item_denotes_def f(1) fold_sunday_def n) auto
  moreover have "\<forall>it\<in>set [Range 5 7 None, Single 1 (Some 3)]. item_ok (FIELDS ! 4) it"
    by (simp add: item_ok_def f(1))
  ultimately show ?thesis using field_denotes[OF f(2), of "[Range 5 7 None, Single 1 (Some 3)]" id] by simp
qed

end
