(* ===== verification/Cronus.thy ===== *)
theory Cronus
  imports Schedule
begin

text \<open>
  The scheduler (\<open>src/packages/cronus/Cronus.ts\<close>): the registered jobs, the ticker's chain of
  timers, the minute tick with its overlap and repeated-hour guards, and the runs.

  A job is an object: its fields are found by its identity, a number, also after the name was
  taken by another job.  The action of a run takes any time and then succeeds or fails: the part of
  \<open>__run\<close> behind the wait is a pending run.  A moment is the epoch in milliseconds with the local
  date; the conversion between them is the caller's.
\<close>

record job =
  job_name :: jstring
  schedule_text :: jstring
  once :: bool
  enabled :: bool
  running :: bool
  runCount :: nat
  lastRun :: "int option"
  lastLocalFire :: "local_date option"

record moment =
  getTime :: int
  local :: local_date

datatype cronus_event =
    RunEvent nat jstring int
  | SkipEvent jstring int
  | SuccessEvent nat jstring int
  | ErrorEvent nat jstring int
  | FinishEvent nat jstring int

datatype cronus_error = DuplicateJob jstring | InvalidAction jstring | JobNotFound jstring | BadSchedule schedule_error

text \<open>\<open>jobs\<close> and \<open>parsed\<close> are the two maps by name, \<open>objects\<close> the job objects by identity;
  \<open>timers\<close> are the runtime's pending timers, each with the generation its callback closes over;
  \<open>ticking\<close> is a tick in progress, with the generation of its timer and the jobs of the snapshot
  still to look at: the actions and listeners it runs may call the scheduler in between.\<close>

record cronus =
  jobs :: "(jstring \<times> nat) list"
  parsed :: "(jstring \<times> parsed_schedule) list"
  objects :: "nat \<Rightarrow> job"
  next_object :: nat
  timer :: "nat option"
  active :: bool
  generation :: nat
  lastTickMinute :: int
  timers :: "(nat \<times> nat) list"
  next_timer :: nat
  ticking :: "(nat \<times> moment \<times> nat list) option"
  pending_runs :: "(nat \<times> nat \<times> int) list"
  next_run :: nat
  emitted :: "cronus_event list"

definition MINUTE_MS :: int where "MINUTE_MS = 60000"
definition CLOCK_JITTER_MINUTES :: int where "CLOCK_JITTER_MINUTES = 2"

definition no_job :: job where
  "no_job = \<lparr>job_name = [], schedule_text = [], once = False, enabled = False, running = False, runCount = 0,
     lastRun = None, lastLocalFire = None\<rparr>"

definition new_cronus :: cronus where
  "new_cronus = \<lparr>jobs = [], parsed = [], objects = (\<lambda>i. no_job), next_object = 0, timer = None, active = False,
     generation = 0, lastTickMinute = -1, timers = [], next_timer = 0, ticking = None, pending_runs = [], next_run = 0, emitted = []\<rparr>"

definition emit :: "cronus_event \<Rightarrow> cronus \<Rightarrow> cronus" where
  "emit e c = c\<lparr>emitted := emitted c @ [e]\<rparr>"

definition set_object :: "nat \<Rightarrow> (job \<Rightarrow> job) \<Rightarrow> cronus \<Rightarrow> cronus" where
  "set_object i f c = c\<lparr>objects := (objects c)(i := f (objects c i))\<rparr>"

subsection \<open>The registry\<close>

definition add_job ::
  "(jstring \<Rightarrow> jstring) \<Rightarrow> jstring \<Rightarrow> jstring \<Rightarrow> bool \<Rightarrow> bool \<Rightarrow> bool \<Rightarrow> cronus \<Rightarrow> cronus_error + cronus" where
  "add_job upper name schedule callable is_once is_enabled c =
     (if map_of (jobs c) name \<noteq> None then Inl (DuplicateJob name)
      else if \<not> callable then Inl (InvalidAction name)
      else case parseSchedule upper schedule of
        Inl e \<Rightarrow> Inl (BadSchedule e)
      | Inr p \<Rightarrow>
          let i = next_object c
          in Inr (c\<lparr>parsed := AList.update name p (parsed c),
                    jobs := AList.update name i (jobs c),
                    objects := (objects c)(i := no_job\<lparr>job_name := name, schedule_text := schedule, once := is_once, enabled := is_enabled\<rparr>),
                    next_object := Suc i\<rparr>))"

definition addOnce :: "(jstring \<Rightarrow> jstring) \<Rightarrow> jstring \<Rightarrow> jstring \<Rightarrow> bool \<Rightarrow> cronus \<Rightarrow> cronus_error + cronus" where
  "addOnce upper name schedule callable c = add_job upper name schedule callable True True c"

definition remove_job :: "jstring \<Rightarrow> cronus \<Rightarrow> cronus_error + cronus" where
  "remove_job name c =
     (if map_of (jobs c) name = None then Inl (JobNotFound name)
      else Inr (c\<lparr>jobs := AList.delete name (jobs c), parsed := AList.delete name (parsed c)\<rparr>))"

definition mustGet :: "jstring \<Rightarrow> cronus \<Rightarrow> cronus_error + nat" where
  "mustGet name c = (case map_of (jobs c) name of None \<Rightarrow> Inl (JobNotFound name) | Some i \<Rightarrow> Inr i)"

definition get_job :: "jstring \<Rightarrow> cronus \<Rightarrow> cronus_error + job" where
  "get_job name c = bindE (mustGet name c) (\<lambda>i. Inr (objects c i))"

definition list_jobs :: "cronus \<Rightarrow> job list" where
  "list_jobs c = map (\<lambda>(n, i). objects c i) (jobs c)"

definition enable :: "jstring \<Rightarrow> cronus \<Rightarrow> cronus_error + cronus" where
  "enable name c = bindE (mustGet name c) (\<lambda>i. Inr (set_object i (\<lambda>j. j\<lparr>enabled := True\<rparr>) c))"

definition disable :: "jstring \<Rightarrow> cronus \<Rightarrow> cronus_error + cronus" where
  "disable name c = bindE (mustGet name c) (\<lambda>i. Inr (set_object i (\<lambda>j. j\<lparr>enabled := False\<rparr>) c))"

definition isRunning :: "jstring \<Rightarrow> cronus \<Rightarrow> cronus_error + bool" where
  "isRunning name c = bindE (mustGet name c) (\<lambda>i. Inr (running (objects c i)))"

subsection \<open>Runs\<close>

text \<open>\<open>__run\<close> up to the wait for the action.\<close>

definition run_begin :: "int \<Rightarrow> nat \<Rightarrow> int \<Rightarrow> cronus \<Rightarrow> cronus" where
  "run_begin now i scheduledAt c =
     (let c1 = set_object i (\<lambda>j. j\<lparr>running := True, runCount := runCount j + 1, lastRun := Some now\<rparr>) c;
          r = next_run c1
      in (emit (RunEvent r (job_name (objects c1 i)) scheduledAt) c1)
           \<lparr>next_run := Suc r, pending_runs := pending_runs c1 @ [(r, i, scheduledAt)]\<rparr>)"

text \<open>... and from the wait on: the events, the release of the guard, the clean-up of a one-shot job.\<close>

definition run_end :: "nat \<Rightarrow> nat \<Rightarrow> int \<Rightarrow> bool \<Rightarrow> cronus \<Rightarrow> cronus" where
  "run_end r i scheduledAt succeeded c =
     (let name = job_name (objects c i);
          c1 = emit (if succeeded then SuccessEvent r name scheduledAt else ErrorEvent r name scheduledAt) c;
          c2 = emit (FinishEvent r name scheduledAt) c1;
          c3 = set_object i (\<lambda>j. j\<lparr>running := False\<rparr>) c2
      in if once (objects c3 i) \<and> map_of (jobs c3) name = Some i
         then c3\<lparr>jobs := AList.delete name (jobs c3), parsed := AList.delete name (parsed c3)\<rparr> else c3)"

definition trigger :: "int \<Rightarrow> jstring \<Rightarrow> cronus \<Rightarrow> cronus_error + (bool \<times> cronus)" where
  "trigger now name c =
     bindE (mustGet name c) (\<lambda>i.
       if running (objects c i) then Inr (False, c) else Inr (True, run_begin now i now c))"

subsection \<open>The tick\<close>

text \<open>The local date to the minute, the key of the repeated-hour guard.\<close>

definition local_key :: "local_date \<Rightarrow> local_date" where
  "local_key d = d\<lparr>getDay := 0\<rparr>"

text \<open>One job of the snapshot, an object with the name it was registered under.\<close>

definition tick_job :: "int \<Rightarrow> moment \<Rightarrow> cronus \<Rightarrow> nat \<Rightarrow> cronus" where
  "tick_job now at c i =
     (let j = objects c i; name = job_name j
      in if map_of (jobs c) name \<noteq> Some i then c
         else if \<not> enabled j then c
         else case map_of (parsed c) name of
           None \<Rightarrow> c
         | Some p \<Rightarrow>
             if \<not> matches_date p (local at) then c
             else
               let localKey = (if fixedTime p then Some (local_key (local at)) else None)
               in if localKey \<noteq> None \<and> lastLocalFire j = localKey then c
                  else if running j then emit (SkipEvent name (getTime at)) c
                  else
                    run_begin now i (getTime at)
                      (if localKey \<noteq> None then set_object i (\<lambda>j. j\<lparr>lastLocalFire := localKey\<rparr>) c else c))"

subsection \<open>The ticker\<close>

definition scheduleTick :: "nat \<Rightarrow> cronus \<Rightarrow> cronus" where
  "scheduleTick gen c =
     (if \<not> active c \<or> gen \<noteq> generation c then c
      else
        let h = next_timer c
        in c\<lparr>timers := timers c @ [(h, gen)], next_timer := Suc h, timer := Some h\<rparr>)"

definition start_ticker :: "cronus \<Rightarrow> cronus" where
  "start_ticker c =
     (if active c then c
      else let c1 = c\<lparr>active := True, generation := generation c + 1\<rparr> in scheduleTick (generation c1) c1)"

definition stop_ticker :: "cronus \<Rightarrow> cronus" where
  "stop_ticker c =
     (let c1 = c\<lparr>active := False, generation := generation c + 1\<rparr>
      in case timer c1 of
           None \<Rightarrow> c1
         | Some h \<Rightarrow> c1\<lparr>timers := filter (\<lambda>(t, g). t \<noteq> h) (timers c1), timer := None\<rparr>)"

text \<open>\<open>_tick\<close> up to its loop: \<open>None\<close> when the minute was evaluated already.\<close>

definition tick_begin :: "moment \<Rightarrow> cronus \<Rightarrow> (nat list \<times> cronus) option" where
  "tick_begin at c =
     (let m = getTime at div MINUTE_MS
      in if m = lastTickMinute c then None
         else if m < lastTickMinute c \<and> lastTickMinute c - m \<le> CLOCK_JITTER_MINUTES then None
         else Some (map snd (jobs c), c\<lparr>lastTickMinute := m\<rparr>))"

text \<open>The callback of a timer, once the runtime runs it.\<close>

definition timer_fires :: "nat \<Rightarrow> moment \<Rightarrow> cronus \<Rightarrow> cronus" where
  "timer_fires h at c =
     (case map_of (timers c) h of
        None \<Rightarrow> c
      | Some gen \<Rightarrow>
          let c1 = c\<lparr>timers := filter (\<lambda>(t, g). t \<noteq> h) (timers c)\<rparr>
          in if gen \<noteq> generation c1 then c1
             else case tick_begin at c1 of
               None \<Rightarrow> scheduleTick gen c1
             | Some (snapshot, c2) \<Rightarrow> c2\<lparr>ticking := Some (gen, at, snapshot)\<rparr>)"

text \<open>The next job of the tick in progress, or its end, where the timer is armed again.\<close>

definition tick_next :: "int \<Rightarrow> cronus \<Rightarrow> cronus" where
  "tick_next now c =
     (case ticking c of
        None \<Rightarrow> c
      | Some (gen, at, []) \<Rightarrow> scheduleTick gen (c\<lparr>ticking := None\<rparr>)
      | Some (gen, at, i # is) \<Rightarrow> tick_job now at (c\<lparr>ticking := Some (gen, at, is)\<rparr>) i)"

subsection \<open>Interleavings\<close>

text \<open>Timers fire and runs come back only between ticks; public calls may also come from inside one.\<close>

datatype cronus_op =
    Add jstring jstring bool bool bool
  | Remove jstring
  | Enable jstring
  | Disable jstring
  | Trigger int jstring
  | Start
  | Stop
  | FireTimer nat moment
  | TickNext int
  | EndRun nat bool

definition or_same :: "cronus \<Rightarrow> cronus_error + cronus \<Rightarrow> cronus" where
  "or_same c r = (case r of Inl e \<Rightarrow> c | Inr c' \<Rightarrow> c')"

fun perform :: "(jstring \<Rightarrow> jstring) \<Rightarrow> cronus_op \<Rightarrow> cronus \<Rightarrow> cronus" where
  "perform up (Add n s f o' e) c = or_same c (add_job up n s f o' e c)"
| "perform up (Remove n) c = or_same c (remove_job n c)"
| "perform up (Enable n) c = or_same c (enable n c)"
| "perform up (Disable n) c = or_same c (disable n c)"
| "perform up (Trigger now n) c = (case trigger now n c of Inl e \<Rightarrow> c | Inr (b, c') \<Rightarrow> c')"
| "perform up Start c = start_ticker c"
| "perform up Stop c = stop_ticker c"
| "perform up (FireTimer h at) c = (if ticking c = None then timer_fires h at c else c)"
| "perform up (TickNext now) c = tick_next now c"
| "perform up (EndRun r ok) c =
     (if ticking c \<noteq> None then c
      else case map_of (pending_runs c) r of
        None \<Rightarrow> c
      | Some (i, at) \<Rightarrow> run_end r i at ok (c\<lparr>pending_runs := filter (\<lambda>(q, x). q \<noteq> r) (pending_runs c)\<rparr>))"

fun performs :: "(jstring \<Rightarrow> jstring) \<Rightarrow> cronus_op list \<Rightarrow> cronus \<Rightarrow> cronus" where
  "performs up [] c = c"
| "performs up (x # xs) c = performs up xs (perform up x c)"

lemma performs_inv: "I c \<Longrightarrow> (\<And>x c. I c \<Longrightarrow> I (perform up x c)) \<Longrightarrow> I (performs up xs c)"
  by (induction xs arbitrary: c) auto

subsection \<open>No job runs twice at a time\<close>

definition busy :: "cronus \<Rightarrow> nat list" where
  "busy c = map (\<lambda>(r, i, t). i) (pending_runs c)"

definition known :: "cronus \<Rightarrow> nat \<Rightarrow> bool" where
  "known c i \<longleftrightarrow> i < next_object c"

definition runs_inv :: "cronus \<Rightarrow> bool" where
  "runs_inv c \<longleftrightarrow>
     distinct (busy c) \<and> (\<forall>i. running (objects c i) \<longleftrightarrow> i \<in> set (busy c)) \<and>
     distinct (map fst (pending_runs c)) \<and> (\<forall>r\<in>set (map fst (pending_runs c)). r < next_run c) \<and>
     (\<forall>i\<in>set (busy c). known c i) \<and> (\<forall>(n, i)\<in>set (jobs c). known c i)"

lemma run_begin_inv:
  assumes "runs_inv c" and "known c i" and "\<not> running (objects c i)"
  shows "runs_inv (run_begin now i t c)"
  using assms by (force simp: runs_inv_def run_begin_def busy_def known_def set_object_def emit_def Let_def)

lemma object_inv:
  assumes "runs_inv c" and "running (f (objects c i)) = running (objects c i)"
  shows "runs_inv (set_object i f c)"
  using assms by (simp add: runs_inv_def set_object_def busy_def known_def)

lemma emit_inv: "runs_inv (emit e c) = runs_inv c"
  by (simp add: runs_inv_def emit_def busy_def known_def)

lemma frame_inv:
  "runs_inv (c\<lparr>ticking := k\<rparr>) = runs_inv c" "runs_inv (c\<lparr>lastTickMinute := m\<rparr>) = runs_inv c"
  "runs_inv (c\<lparr>timers := ts\<rparr>) = runs_inv c" "runs_inv (c\<lparr>timer := t\<rparr>) = runs_inv c"
  "runs_inv (c\<lparr>active := b\<rparr>) = runs_inv c" "runs_inv (c\<lparr>generation := g\<rparr>) = runs_inv c"
  "runs_inv (c\<lparr>next_timer := h\<rparr>) = runs_inv c" "runs_inv (c\<lparr>parsed := ps\<rparr>) = runs_inv c"
  by (simp_all add: runs_inv_def busy_def known_def)

lemma jobs_inv: "runs_inv c \<Longrightarrow> set xs \<subseteq> set (jobs c) \<Longrightarrow> runs_inv (c\<lparr>jobs := xs\<rparr>)"
  by (auto simp: runs_inv_def busy_def known_def)

lemma delete_subset: "set (AList.delete k al) \<subseteq> set al"
  by (auto simp: AList.delete_eq)

lemma update_subset: "set (AList.update k v al) \<subseteq> insert (k, v) (set al)"
  by (induction al) auto

lemma add_inv:
  assumes "runs_inv c" and "add_job up n s f o' e c = Inr c'"
  shows "runs_inv c'"
proof -
  let ?i = "next_object c"
  have free: "?i \<notin> set (busy c)" using assms(1) by (auto simp: runs_inv_def known_def)
  note upd = update_subset[of n ?i "jobs c"]
  obtain p ob where "c' = c\<lparr>parsed := p, jobs := AList.update n ?i (jobs c), objects := (objects c)(?i := ob), next_object := Suc ?i\<rparr>"
    and "\<not> running ob"
    using assms(2) by (auto simp: add_job_def Let_def no_job_def split: if_splits sum.splits)
  then show ?thesis
    using assms(1) free upd by (auto simp: runs_inv_def busy_def known_def less_Suc_eq)
qed

lemma tick_job_inv: "runs_inv c \<Longrightarrow> runs_inv (tick_job now at c i)"
proof -
  assume c: "runs_inv c"
  have k: "known c i" if "map_of (jobs c) n = Some i" for n
    using c map_of_SomeD[OF that] by (auto simp: runs_inv_def)
  let ?c = "set_object i (\<lambda>j. j\<lparr>lastLocalFire := Some (local_key (local at))\<rparr>) c"
  have s: "runs_inv ?c" using c by (rule object_inv) simp
  have r: "runs_inv (run_begin now i t ?c)" if "known c i" "\<not> running (objects c i)" for t
    by (rule run_begin_inv[OF s]) (use that in \<open>simp_all add: set_object_def known_def\<close>)
  show ?thesis
    using c k r run_begin_inv[OF c] by (auto simp: tick_job_def Let_def emit_inv split: option.split)
qed

lemma schedule_frame: "runs_inv (scheduleTick g c) = runs_inv c"
  by (simp add: scheduleTick_def Let_def frame_inv)

lemma run_end_inv:
  assumes "runs_inv c" and "map_of (pending_runs c) r = Some (i, t)"
  shows "runs_inv (run_end r i t ok (c\<lparr>pending_runs := filter (\<lambda>(q, x). q \<noteq> r) (pending_runs c)\<rparr>))"
proof -
  obtain ys zs where p: "pending_runs c = ys @ (r, i, t) # zs"
    using map_of_SomeD[OF assms(2)] by (meson split_list)
  have d: "distinct (map fst (pending_runs c))" "distinct (busy c)" using assms(1) by (auto simp: runs_inv_def)
  have nr: "\<forall>x\<in>set ys \<union> set zs. fst x \<noteq> r" using d(1) p by (auto simp: rev_image_eqI)
  then have "filter (\<lambda>(q, x). q \<noteq> r) (ys @ zs) = ys @ zs" by (intro filter_True ballI) (simp add: split_beta)
  then have f: "filter (\<lambda>(q, x). q \<noteq> r) (pending_runs c) = ys @ zs" unfolding p by simp
  have ni: "i \<notin> set (map (\<lambda>(r, i, t). i) (ys @ zs))" and rest: "distinct (map (\<lambda>(r, i, t). i) (ys @ zs))"
    using d(2) by (auto simp: busy_def p)
  let ?c = "c\<lparr>pending_runs := ys @ zs, objects := (objects c)(i := (objects c i)\<lparr>running := False\<rparr>)\<rparr>"
  have base: "runs_inv ?c"
    using assms(1) ni rest unfolding runs_inv_def busy_def known_def p by auto
  show ?thesis
    unfolding f using base jobs_inv[OF base delete_subset]
    by (simp add: run_end_def Let_def set_object_def emit_def) (simp add: runs_inv_def busy_def known_def)
qed

lemma perform_inv: "runs_inv c \<Longrightarrow> runs_inv (perform up x c)"
proof (cases x)
  case (Add n s f o' e)
  assume c: "runs_inv c"
  then show ?thesis using Add add_inv[OF c] by (auto simp: or_same_def split: sum.split)
next
  case (Remove n)
  assume c: "runs_inv c"
  then show ?thesis using Remove jobs_inv[OF c delete_subset] by (simp add: or_same_def remove_job_def frame_inv)
next
  case (Trigger now n)
  assume c: "runs_inv c"
  have "known c i" if "map_of (jobs c) n = Some i" for i
    using c map_of_SomeD[OF that] by (auto simp: runs_inv_def)
  then show ?thesis
    using Trigger c run_begin_inv[OF c] by (auto simp: trigger_def mustGet_def split: option.split)
next
  case (FireTimer h at)
  assume "runs_inv c"
  then show ?thesis using FireTimer
    by (auto simp: timer_fires_def tick_begin_def Let_def frame_inv schedule_frame split: option.split)
next
  case (TickNext now)
  assume "runs_inv c"
  then show ?thesis using TickNext tick_job_inv
    by (auto simp: tick_next_def frame_inv schedule_frame split: option.split list.split)
next
  case (EndRun r ok)
  assume "runs_inv c"
  then show ?thesis using EndRun run_end_inv by (auto split: option.split)
qed (auto simp: or_same_def enable_def disable_def mustGet_def start_ticker_def stop_ticker_def Let_def frame_inv schedule_frame
    intro: object_inv split: option.split)

text \<open>C10: in every interleaving of registrations, triggers, ticks and returning actions, also calls made from inside a
  tick, no job object has two runs in flight, and its running flag is set exactly while one is.\<close>

theorem no_overlap:
  "distinct (busy (performs up ops new_cronus)) \<and>
   (\<forall>i. running (objects (performs up ops new_cronus) i) \<longleftrightarrow> i \<in> set (busy (performs up ops new_cronus)))"
proof -
  have "runs_inv new_cronus" by (simp add: runs_inv_def new_cronus_def busy_def no_job_def)
  then have "runs_inv (performs up ops new_cronus)" by (rule performs_inv) (rule perform_inv)
  then show ?thesis by (simp add: runs_inv_def)
qed

subsection \<open>One chain of timers\<close>




definition same_ticker :: "cronus \<Rightarrow> cronus \<Rightarrow> bool" where
  "same_ticker c d \<longleftrightarrow> timers c = timers d \<and> next_timer c = next_timer d \<and> active c = active d \<and>
     generation c = generation d \<and> ticking c = ticking d"


lemma same_ticker_simps [simp]:
  "same_ticker c c" "same_ticker (emit e c) d = same_ticker c d" "same_ticker (set_object i f c) d = same_ticker c d"
  "same_ticker (run_begin now i t c) d = same_ticker c d" "same_ticker (c\<lparr>lastTickMinute := m\<rparr>) d = same_ticker c d"
  "same_ticker (run_end r i t ok c) d = same_ticker c d" "same_ticker (c\<lparr>pending_runs := rs\<rparr>) d = same_ticker c d"
  by (simp_all add: same_ticker_def emit_def set_object_def run_begin_def run_end_def Let_def)










subsection \<open>The repeated hour\<close>

definition at_one :: "nat \<Rightarrow> local_date" where
  "at_one mins = \<lparr>getFullYear = 2026, getMonth = 9, getDate = 25, getDay = 0, getHours = 1, getMinutes = mins\<rparr>"

text \<open>Ticks at 1:00 and 1:30, and at 1:00 again an hour after the first, when the clocks went back at 2:00.\<close>

definition fall_back_ops :: "jstring \<Rightarrow> cronus_op list" where
  "fall_back_ops name =
     [Add name (js ''0,30 1 * * *'') True False True, Start,
      FireTimer 0 \<lparr>getTime = 0, local = at_one 0\<rparr>, TickNext 0, TickNext 0, EndRun 0 True,
      FireTimer 1 \<lparr>getTime = 1800000, local = at_one 30\<rparr>, TickNext 0, TickNext 0, EndRun 1 True,
      FireTimer 2 \<lparr>getTime = 3600000, local = at_one 0\<rparr>, TickNext 0, TickNext 0, EndRun 2 True]"

definition half_hours :: parsed_schedule where
  "half_hours = \<lparr>minute = [0, 30], hour = [1], dayOfMonth = counting 1 31 1, month = counting 1 12 1,
     dayOfWeek = [0, 1, 2, 3, 4, 5, 6], domRestricted = False, dowRestricted = False, fixedTime = True\<rparr>"

lemma half_hours_parsed: "parseSchedule id (js ''0,30 1 * * *'') = Inr half_hours"
  by code_simp

lemma half_hours_match:
  "matches_date half_hours (at_one 0)" "matches_date half_hours (at_one 30)" "fixedTime half_hours"
  "local_key (at_one 0) \<noteq> local_key (at_one 30)"
  by code_simp+

text \<open>C39: the guard remembers only the last local minute of a job, so a fixed-time job with two times in the repeated
  hour fires again at a wall-clock minute it has fired at: \<open>0,30 1 * * *\<close> runs at 1:00, at 1:30 and at 1:00 again.\<close>

theorem repeated_hour_fires_again:
  "emitted (performs id (fall_back_ops name) new_cronus) =
     [RunEvent 0 name 0, SuccessEvent 0 name 0, FinishEvent 0 name 0,
      RunEvent 1 name 1800000, SuccessEvent 1 name 1800000, FinishEvent 1 name 1800000,
      RunEvent 2 name 3600000, SuccessEvent 2 name 3600000, FinishEvent 2 name 3600000]"
proof -
  note steps = add_job_def half_hours_parsed or_same_def start_ticker_def scheduleTick_def timer_fires_def tick_begin_def
    tick_next_def tick_job_def half_hours_match run_begin_def run_end_def set_object_def emit_def no_job_def MINUTE_MS_def
    CLOCK_JITTER_MINUTES_def half_hours_match(4)[symmetric]
  show ?thesis by (simp add: fall_back_ops_def new_cronus_def steps)
qed

end
