(* ===== verification/IpUtils.thy ===== *)
theory IpUtils
  imports UriText
begin

text \<open>
  Addresses (\<open>src/packages/utils/ipUtils.ts\<close>, \<open>isSubnet.ts\<close>, \<open>isInSubnet.ts\<close>, \<open>isPublicIP.ts\<close>):
  recognition of dotted and colon notation, expansion of IPv6, the packed and the binary form,
  membership in ranges, and the test for public addresses.

  JavaScript's bitwise operators work on 32-bit integers: operands are reduced with \<open>to_int32\<close>, the
  results are signed, \<open>>>> 0\<close> reads them unsigned.  A \<open>throw\<close> is \<open>None\<close>.
\<close>

abbreviation dot :: code_unit where "dot \<equiv> 46"

subsection \<open>Patterns\<close>

text \<open>\<open>IPV4_REGEX\<close>\<close>

definition octet_digits :: "jstring \<Rightarrow> bool" where
  "octet_digits p \<longleftrightarrow> p \<noteq> [] \<and> length p \<le> 3 \<and> list_all unit_digit p"

definition ipv4_regex :: "jstring \<Rightarrow> bool" where
  "ipv4_regex ip \<longleftrightarrow> length (split_on dot ip) = 4 \<and> list_all octet_digits (split_on dot ip)"

definition hex_digit :: "code_unit \<Rightarrow> bool" where
  "hex_digit u \<longleftrightarrow> hex_value u \<noteq> None"

text \<open>\<open>IPV6_REGEX\<close> and \<open>IPV6_SEGMENT\<close>\<close>

definition ipv6_regex :: "jstring \<Rightarrow> bool" where
  "ipv6_regex ip \<longleftrightarrow> ip \<noteq> [] \<and> list_all (\<lambda>u. hex_digit u \<or> u = colon \<or> u = dot) ip"

definition ipv6_segment :: "jstring \<Rightarrow> bool" where
  "ipv6_segment p \<longleftrightarrow> p \<noteq> [] \<and> length p \<le> 4 \<and> list_all hex_digit p"

text \<open>\<open>IPV4_SEGMENT\<close>: an octet without a leading zero.\<close>

definition ipv4_segment :: "jstring \<Rightarrow> bool" where
  "ipv4_segment p \<longleftrightarrow> octet_digits p \<and> decimal_val p \<le> 255 \<and> (length p = 1 \<or> hd p \<noteq> 48)"

definition isValidIPv4 :: "jstring \<Rightarrow> bool" where
  "isValidIPv4 ip \<longleftrightarrow> ipv4_regex ip \<and> list_all (\<lambda>octet. decimal_val octet \<le> 255) (split_on dot ip)"

text \<open>\<open>/(\d{1,3}\.){3}\d{1,3}$/\<close>: the longest suffix of this form.\<close>

fun ipv4_tail :: "jstring \<Rightarrow> jstring option" where
  "ipv4_tail [] = None"
| "ipv4_tail (u # us) = (if ipv4_regex (u # us) then Some (u # us) else ipv4_tail us)"

text \<open>The places of \<open>::\<close>, not overlapping, and the pieces between them.\<close>

fun split_double :: "jstring \<Rightarrow> jstring list" where
  "split_double [] = [[]]"
| "split_double [u] = [[u]]"
| "split_double (u # v # us) =
     (if u = colon \<and> v = colon then [] # split_double us
      else (case split_double (v # us) of [] \<Rightarrow> [[u]] | w # ws \<Rightarrow> (u # w) # ws))"

definition has_double :: "jstring \<Rightarrow> bool" where
  "has_double ip \<longleftrightarrow> length (split_double ip) > 1"

fun has_triple :: "jstring \<Rightarrow> bool" where
  "has_triple (u # v # w # us) = (u = colon \<and> v = colon \<and> w = colon \<or> has_triple (v # w # us))"
| "has_triple us = False"

subsection \<open>Expansion\<close>

definition hex_char :: "nat \<Rightarrow> code_unit" where
  "hex_char d = (if d < 10 then of_nat (48 + d) else of_nat (87 + d))"

text \<open>\<open>toString(b)\<close>\<close>

function digits_of :: "nat \<Rightarrow> nat \<Rightarrow> jstring" where
  "digits_of b n = (if b < 2 \<or> n < b then [hex_char n] else digits_of b (n div b) @ [hex_char (n mod b)])"
  by pat_completeness auto
termination
  by (relation "measure snd") auto

declare digits_of.simps [simp del]

definition join :: "code_unit \<Rightarrow> jstring list \<Rightarrow> jstring" where
  "join c ps = (case ps of [] \<Rightarrow> [] | q # qs \<Rightarrow> q @ concat (map (\<lambda>w. c # w) qs))"

definition to_int32 :: "int \<Rightarrow> int" where
  "to_int32 i = sint (word_of_int i :: 32 word)"

definition to_uint32 :: "int \<Rightarrow> int" where
  "to_uint32 i = uint (word_of_int i :: 32 word)"

definition shl32 :: "int \<Rightarrow> nat \<Rightarrow> int" where
  "shl32 i n = sint (push_bit (n mod 32) (word_of_int i :: 32 word))"

definition and32 :: "int \<Rightarrow> int \<Rightarrow> int" where
  "and32 a b = sint ((word_of_int a :: 32 word) AND word_of_int b)"

definition not32 :: "int \<Rightarrow> int" where
  "not32 a = sint (NOT (word_of_int a :: 32 word))"

definition octets :: "jstring \<Rightarrow> int list" where
  "octets ip = map (\<lambda>p. int (decimal_val p)) (split_on dot ip)"

definition ipv4ToHexSegments :: "jstring \<Rightarrow> jstring list option" where
  "ipv4ToHexSegments ip =
     (if \<not> isValidIPv4 ip then None
      else let q = octets ip
           in Some [digits_of 16 (nat (shl32 (q ! 0) 8 + q ! 1)), digits_of 16 (nat (shl32 (q ! 2) 8 + q ! 3))])"

definition isValidIPv6Input :: "jstring \<Rightarrow> bool" where
  "isValidIPv6Input ip \<longleftrightarrow>
     colon \<in> set ip \<and> list_all (\<lambda>u. hex_digit u \<or> u = colon \<or> u = dot) ip \<and> \<not> has_triple ip \<and> length ip \<le> 45"

definition parts_of :: "jstring \<Rightarrow> jstring list" where
  "parts_of s = (if s = [] then [] else split_on colon s)"

definition expandCompressedIPv6 :: "jstring \<Rightarrow> jstring option" where
  "expandCompressedIPv6 ip =
     (if length (split_double ip) > 2 then None
      else
        let left = parts_of (split_double ip ! 0); right = parts_of (split_double ip ! 1);
            missing = 8 - (int (length left) + int (length right))
        in if missing < 1 then None
           else Some (join colon (left @ replicate (nat missing) [48] @ right)))"

definition expandFullIPv6 :: "jstring \<Rightarrow> jstring option" where
  "expandFullIPv6 ip =
     (let parts = split_on colon ip
      in if length parts \<noteq> 8 then None else if list_all ipv6_segment parts then Some (join colon parts) else None)"

definition expandIPv6WithIPv4Part :: "jstring \<Rightarrow> jstring option" where
  "expandIPv6WithIPv4Part ip =
     (case ipv4_tail ip of
        None \<Rightarrow> None
      | Some part \<Rightarrow>
          if \<not> isValidIPv4 part then None
          else case ipv4ToHexSegments part of
            None \<Rightarrow> None
          | Some hs \<Rightarrow>
              let hexIP = take (length ip - length part) ip @ join colon hs
              in if has_double hexIP then expandCompressedIPv6 hexIP else expandFullIPv6 hexIP)"

text \<open>\<open>toLowerCase\<close>; a character it changes beyond ASCII is refused by the next check either way.\<close>

definition lower_unit :: "code_unit \<Rightarrow> code_unit" where
  "lower_unit u = (if 65 \<le> u \<and> u \<le> 90 then u + 32 else u)"

definition expandIPv6 :: "jstring \<Rightarrow> jstring option" where
  "expandIPv6 ip =
     (if ip = [] then None
      else
        let n = map lower_unit ip
        in if \<not> isValidIPv6Input n then None
           else if dot \<in> set n then expandIPv6WithIPv4Part n
           else if has_double n then expandCompressedIPv6 n
           else expandFullIPv6 n)"

definition validateFullIPv6Segments :: "jstring \<Rightarrow> bool" where
  "validateFullIPv6Segments ip \<longleftrightarrow> length (split_on colon ip) = 8 \<and> list_all ipv6_segment (split_on colon ip)"

definition validateIPv6WithIPv4Part :: "jstring \<Rightarrow> bool" where
  "validateIPv6WithIPv4Part ip =
     (case ipv4_tail ip of
        None \<Rightarrow> False
      | Some part \<Rightarrow> isValidIPv4 part \<and> (has_double ip \<or> length (split_on colon ip) = 7))"

definition isValidIPv6Structure :: "jstring \<Rightarrow> bool" where
  "isValidIPv6Structure ip =
     (if colon \<notin> set ip then False
      else if length ip > 45 then False
      else if \<not> ipv6_regex ip then False
      else if has_triple ip then False
      else if length (split_double ip) > 2 then False
      else if dot \<in> set ip then validateIPv6WithIPv4Part ip
      else if \<not> has_double ip then validateFullIPv6Segments ip
      else case expandIPv6 ip of None \<Rightarrow> False | Some e \<Rightarrow> validateFullIPv6Segments e)"

subsection \<open>Packed and binary form\<close>

definition padStart :: "nat \<Rightarrow> jstring \<Rightarrow> jstring" where
  "padStart n s = replicate (n - length s) 48 @ s"

definition ipv4ToBinary :: "jstring \<Rightarrow> jstring option" where
  "ipv4ToBinary ip =
     (if \<not> isValidIPv4 ip then None
      else Some (concat (map (\<lambda>p. padStart 8 (digits_of 2 (decimal_val p))) (split_on dot ip))))"

text \<open>\<open>Number.parseInt(segment, 16).toString(2)\<close>; \<open>NaN\<close> prints as its name.\<close>

definition segment_bits :: "jstring \<Rightarrow> jstring" where
  "segment_bits s =
     (let h = takeWhile hex_digit s
      in if h = [] then js ''NaN'' else digits_of 2 (units_val 16 (map (the \<circ> hex_value) h)))"

definition ipv6ToBinary :: "jstring \<Rightarrow> jstring option" where
  "ipv6ToBinary ip =
     (case expandIPv6 ip of
        None \<Rightarrow> None
      | Some e \<Rightarrow>
          if e = [] then None else Some (concat (map (\<lambda>s. padStart 16 (segment_bits s)) (split_on colon e))))"

definition ipv4ToLong :: "jstring \<Rightarrow> int option" where
  "ipv4ToLong ip =
     (if \<not> isValidIPv4 ip then None else Some (to_uint32 (foldl (\<lambda>acc octet. shl32 acc 8 + octet) 0 (octets ip))))"

definition range_mask :: "int \<Rightarrow> int" where
  "range_mask cidr = (if cidr = 0 then 0 else to_uint32 (not32 (shl32 1 (nat (32 - cidr)) - 1)))"

definition isIPv4InRange :: "jstring \<Rightarrow> jstring \<Rightarrow> int \<Rightarrow> bool option" where
  "isIPv4InRange ip rangeStart cidr =
     (if \<not> isValidIPv4 ip \<or> \<not> isValidIPv4 rangeStart \<or> cidr < 0 \<or> cidr > 32 then None
      else case (ipv4ToLong ip, ipv4ToLong rangeStart) of
        (Some ipLong, Some rangeLong) \<Rightarrow>
          Some (to_uint32 (and32 ipLong (range_mask cidr)) = to_uint32 (and32 rangeLong (range_mask cidr)))
      | _ \<Rightarrow> None)"

subsection \<open>Subnets\<close>

definition isIPv4Subnet :: "jstring \<Rightarrow> nat \<Rightarrow> bool" where
  "isIPv4Subnet ip subnet \<longleftrightarrow>
     subnet \<le> 32 \<and> length (split_on dot ip) = 4 \<and> list_all ipv4_segment (split_on dot ip)"

definition isIPv6Subnet :: "jstring \<Rightarrow> nat \<Rightarrow> bool" where
  "isIPv6Subnet ip subnet =
     (if subnet > 128 then False
      else case expandIPv6 ip of
        None \<Rightarrow> False
      | Some e \<Rightarrow> length (split_on colon e) = 8 \<and> list_all ipv6_segment (split_on colon e))"

text \<open>\<open>/^(0|[1-9]\d*)$/\<close>\<close>

definition plain_number :: "jstring \<Rightarrow> bool" where
  "plain_number s \<longleftrightarrow> s \<noteq> [] \<and> list_all unit_digit s \<and> (s = [48] \<or> hd s \<noteq> 48)"

definition isSubnet :: "jstring \<Rightarrow> bool" where
  "isSubnet ip =
     (let t = trim ip; parts = split_on slash t
      in if t = [] then False
         else case parts of
           [addressPart, subnetPart] \<Rightarrow>
             if addressPart = [] \<or> subnetPart = [] then False
             else if addressPart \<noteq> trim addressPart \<or> subnetPart \<noteq> trim subnetPart then False
             else if \<not> plain_number subnetPart then False
             else if colon \<in> set addressPart then isIPv6Subnet addressPart (decimal_val subnetPart)
             else isIPv4Subnet addressPart (decimal_val subnetPart)
         | _ \<Rightarrow> False)"

definition isIPv4InSubnet :: "jstring \<Rightarrow> jstring \<Rightarrow> int \<Rightarrow> bool" where
  "isIPv4InSubnet ip subnetIP cidr =
     (if cidr < 0 \<or> cidr > 32 then False
      else if \<not> isValidIPv4 ip \<or> \<not> isValidIPv4 subnetIP then False
      else case (ipv4ToBinary ip, ipv4ToBinary subnetIP) of
        (Some a, Some b) \<Rightarrow> take (nat cidr) a = take (nat cidr) b
      | _ \<Rightarrow> False)"

text \<open>An exception is caught by the caller, which answers \<open>false\<close>.\<close>

definition isIPv6InSubnet :: "jstring \<Rightarrow> jstring \<Rightarrow> int \<Rightarrow> bool" where
  "isIPv6InSubnet ip subnetIP cidr =
     (if cidr < 0 \<or> cidr > 128 then False
      else case (ipv6ToBinary ip, ipv6ToBinary subnetIP) of
        (Some a, Some b) \<Rightarrow> take (nat cidr) a = take (nat cidr) b
      | _ \<Rightarrow> False)"

text \<open>\<open>parseCIDR\<close> after \<open>isSubnet\<close>, which leaves two non-empty parts and a whole number.\<close>

definition parseCIDR :: "jstring \<Rightarrow> (jstring \<times> int) option" where
  "parseCIDR subnet =
     (case split_on slash subnet of
        subnetIP # cidrStr # _ \<Rightarrow>
          if subnetIP = [] \<or> takeWhile unit_digit cidrStr = [] then None
          else Some (subnetIP, int (decimal_val (takeWhile unit_digit cidrStr)))
      | _ \<Rightarrow> None)"

definition isInSubnet :: "jstring \<Rightarrow> jstring \<Rightarrow> bool" where
  "isInSubnet ip subnet =
     (if ip = [] \<or> subnet = [] then False
      else if ip \<noteq> trim ip \<or> subnet \<noteq> trim subnet then False
      else if \<not> isSubnet subnet then False
      else case parseCIDR subnet of
        None \<Rightarrow> False
      | Some (subnetIP, cidr) \<Rightarrow>
          if ipv4_regex ip \<and> ipv4_regex subnetIP then isIPv4InSubnet ip subnetIP cidr
          else if ipv6_regex ip \<and> ipv6_regex subnetIP then isIPv6InSubnet ip subnetIP cidr
          else False)"

subsection \<open>Public addresses\<close>

definition ipv4Ranges :: "(jstring \<times> int) list" where
  "ipv4Ranges =
     [(js ''0.0.0.0'', 8), (js ''10.0.0.0'', 8), (js ''100.64.0.0'', 10), (js ''127.0.0.0'', 8),
      (js ''169.254.0.0'', 16), (js ''172.16.0.0'', 12), (js ''192.0.0.0'', 24), (js ''192.0.2.0'', 24),
      (js ''192.168.0.0'', 16), (js ''198.18.0.0'', 15), (js ''198.51.100.0'', 24), (js ''203.0.113.0'', 24),
      (js ''224.0.0.0'', 4), (js ''240.0.0.0'', 4)]"

definition ipv6BinaryRanges :: "jstring list" where
  "ipv6BinaryRanges =
     map (\<lambda>(p, n). take n (the (ipv6ToBinary p))) [(js ''fc00::'', 7), (js ''fe80::'', 10), (js ''ff00::'', 8)]"

definition isReservedIPv4 :: "jstring \<Rightarrow> bool" where
  "isReservedIPv4 ip \<longleftrightarrow> list_ex (\<lambda>(start, cidr). isIPv4InRange ip start cidr = Some True) ipv4Ranges"

text \<open>\<open>Number.parseInt(bits, 2)\<close> of a string of bits, and the octets it gives, printed.\<close>

definition bits_val :: "jstring \<Rightarrow> nat" where
  "bits_val s = units_val 2 (map (\<lambda>u. unat u - 48) (takeWhile (\<lambda>u. u = 48 \<or> u = 49) s))"

definition extractIPv4Mapped :: "jstring \<Rightarrow> jstring option" where
  "extractIPv4Mapped binary =
     (if take 80 binary \<noteq> replicate 80 48 then None
      else if slice 80 96 binary \<noteq> replicate 16 49 then None
      else Some (join dot (map (\<lambda>i. digits_of 10 (bits_val (slice i (i + 8) binary))) [96, 104, 112, 120])))"

definition isPublicIP :: "jstring \<Rightarrow> bool" where
  "isPublicIP ip0 =
     (let ip = trim ip0
      in if ip0 = [] then False
         else if ipv4_regex ip then (if \<not> isValidIPv4 ip then False else \<not> isReservedIPv4 ip)
         else if ipv6_regex ip \<and> isValidIPv6Structure ip then
           (case expandIPv6 ip of
              None \<Rightarrow> False
            | Some expandedIP \<Rightarrow>
                if expandedIP = js ''0:0:0:0:0:0:0:1'' then False
                else if expandedIP = js ''0:0:0:0:0:0:0:0'' then False
                else case ipv6ToBinary expandedIP of
                  None \<Rightarrow> False
                | Some binary \<Rightarrow>
                    (case extractIPv4Mapped binary of
                       Some mapped \<Rightarrow> \<not> isReservedIPv4 mapped
                     | None \<Rightarrow> \<not> list_ex (\<lambda>p. take (length p) binary = p) ipv6BinaryRanges))
         else False)"

end
