(* ===== verification/IpRanges.thy ===== *)
theory IpRanges
  imports IpUtils
begin

text \<open>
  What the address functions of \<open>IpUtils\<close> compute, against the number an address stands for: the
  packed form and the printed binary form are that number, both range tests compare its leading bits,
  and the test for public addresses is a statement on the octets.
\<close>

subsection \<open>Numbers in base \<open>b\<close>\<close>

definition horner :: "nat \<Rightarrow> nat list \<Rightarrow> nat" where
  "horner b ds = foldl (\<lambda>acc d. acc * b + d) 0 ds"

lemma horner_units: "units_val b ds = horner b ds"
  by (simp add: units_val_def horner_def)

lemma horner_simps [simp]: "horner b [] = 0" "horner b (ds @ [d]) = horner b ds * b + d"
  by (simp_all add: horner_def)

lemma horner_append: "horner b (as @ bs) = horner b as * b ^ length bs + horner b bs"
  by (induction bs rule: rev_induct) (simp_all add: algebra_simps flip: append_assoc)

lemma horner_Cons: "horner b (d # ds) = d * b ^ length ds + horner b ds"
  using horner_append[of b "[d]" ds] by (simp add: horner_def)

lemma horner_less: "0 < b \<Longrightarrow> \<forall>d \<in> set ds. d < b \<Longrightarrow> horner b ds < b ^ length ds"
proof (induction ds rule: rev_induct)
  case (snoc d ds)
  then have "Suc (horner b ds) * b \<le> b ^ length ds * b"
    by (intro mult_le_mono1) (simp add: Suc_le_eq)
  with snoc.prems show ?case by (auto simp: mult.commute)
qed simp

text \<open>A dotted quad that passes the validity check has four octets below 256; they are its value.\<close>

definition quad :: "jstring \<Rightarrow> nat list" where
  "quad ip = map decimal_val (split_on dot ip)"

definition address :: "jstring \<Rightarrow> nat" where
  "address ip = horner 256 (quad ip)"

lemma quad_facts:
  assumes "isValidIPv4 ip"
  shows "length (quad ip) = 4" "\<forall>o' \<in> set (quad ip). o' < 256"
  using assms by (auto simp: quad_def isValidIPv4_def ipv4_regex_def list_all_iff)

lemma address_less: "isValidIPv4 ip \<Longrightarrow> address ip < 2 ^ 32"
  using horner_less[of 256 "quad ip"] quad_facts[of ip] by (simp add: address_def)

lemma four_parts: "length xs = 4 \<Longrightarrow> \<exists>a b c d. xs = [a, b, c, d]"
  by (auto simp: length_Suc_conv numeral_eq_Suc)

lemma quad_cases:
  assumes "isValidIPv4 ip"
  obtains a b c d where "quad ip = [a, b, c, d]" "a < 256" "b < 256" "c < 256" "d < 256"
proof -
  from four_parts[OF quad_facts(1)[OF assms]] obtain a b c d where q: "quad ip = [a, b, c, d]" by blast
  with quad_facts(2)[OF assms] have "a < 256" "b < 256" "c < 256" "d < 256" by simp_all
  with q show ?thesis by (rule that)
qed

subsection \<open>The packed form\<close>

lemma packed_fold:
  "word_of_int (foldl (\<lambda>acc octet. shl32 acc 8 + octet) acc (map int ds)) =
     (word_of_int (foldl (\<lambda>acc d. acc * 256 + int d) acc ds) :: 32 word)"
proof (induction ds rule: rev_induct)
  case (snoc d ds)
  let ?e = "foldl (\<lambda>acc octet. shl32 acc 8 + octet) acc (map int ds)"
  have "(word_of_int (shl32 ?e 8 + int d) :: 32 word) = push_bit 8 (word_of_int ?e) + of_nat d"
    by (simp add: shl32_def)
  also have "\<dots> = word_of_int (foldl (\<lambda>acc d. acc * 256 + int d) acc ds * 256 + int d)"
    by (simp add: snoc.IH push_bit_eq_mult)
  finally show ?case by simp
qed simp

lemma horner_int: "foldl (\<lambda>acc d. acc * 256 + int d) 0 ds = int (horner 256 ds)"
  by (induction ds rule: rev_induct) (simp_all add: horner_def)

lemma ipv4ToLong_address: "isValidIPv4 ip \<Longrightarrow> ipv4ToLong ip = Some (int (address ip))"
proof -
  assume v: "isValidIPv4 ip"
  have "octets ip = map int (quad ip)" by (simp add: octets_def quad_def)
  then have "(word_of_int (foldl (\<lambda>acc octet. shl32 acc 8 + octet) 0 (octets ip)) :: 32 word) =
      word_of_int (int (address ip))"
    using packed_fold[of 0 "quad ip"] by (simp add: address_def horner_int)
  moreover have "uint (word_of_int (int (address ip)) :: 32 word) = int (address ip)"
    using address_less[OF v] by (simp add: unsigned_of_nat uint_word_of_int_eq take_bit_nat_eq_self)
  ultimately show ?thesis
    using v by (simp add: ipv4ToLong_def to_uint32_def)
qed

subsection \<open>Masks\<close>

lemma range_mask_word:
  assumes "0 \<le> cidr" "cidr \<le> 32"
  shows "(word_of_int (range_mask cidr) :: 32 word) = NOT (mask (nat (32 - cidr)))"
proof (cases "cidr = 0")
  case True
  then show ?thesis by (simp add: range_mask_def mask_eq_exp_minus_1)
next
  case False
  with assms have "nat (32 - cidr) mod 32 = nat (32 - cidr)" by simp
  with False show ?thesis
    by (simp add: range_mask_def to_uint32_def not32_def shl32_def mask_eq_exp_minus_1 push_bit_of_1)
qed

lemma masked_eq_iff:
  fixes x y :: "'a::len word"
  shows "x AND NOT (mask n) = y AND NOT (mask n) \<longleftrightarrow> drop_bit n x = drop_bit n y"
proof
  assume l: "x AND NOT (mask n) = y AND NOT (mask n)"
  have "drop_bit n (z AND NOT (mask n)) = drop_bit n z" for z :: "'a word"
    by (rule bit_word_eqI) (auto simp: bit_simps dest: bit_imp_le_length)
  with l show "drop_bit n x = drop_bit n y" by metis
next
  assume "drop_bit n x = drop_bit n y"
  moreover have "z AND NOT (mask n) = push_bit n (drop_bit n z)" for z :: "'a word"
    by (rule bit_word_eqI) (auto simp: bit_simps)
  ultimately show "x AND NOT (mask n) = y AND NOT (mask n)" by simp
qed

lemma word_drop_eq_iff:
  assumes "u < 2 ^ 32" "v < 2 ^ 32"
  shows "drop_bit n (of_nat u :: 32 word) = drop_bit n (of_nat v) \<longleftrightarrow> u div 2 ^ n = v div 2 ^ n"
proof -
  have n: "unat (of_nat w :: 32 word) = w" if "w < 2 ^ 32" for w
    using that by (simp add: unat_of_nat take_bit_nat_eq_self)
  have "drop_bit n (of_nat u :: 32 word) = drop_bit n (of_nat v) \<longleftrightarrow>
      unat (drop_bit n (of_nat u :: 32 word)) = unat (drop_bit n (of_nat v :: 32 word))"
    by (simp only: word_unat_eq_iff)
  also have "\<dots> \<longleftrightarrow> u div 2 ^ n = v div 2 ^ n"
    by (simp only: unat_drop_bit_eq n[OF assms(1)] n[OF assms(2)]) (simp only: drop_bit_eq_div)
  finally show ?thesis .
qed

lemma range_test:
  assumes "isValidIPv4 ip" "isValidIPv4 r" "0 \<le> cidr" "cidr \<le> 32"
  shows "isIPv4InRange ip r cidr =
    Some (address ip div 2 ^ nat (32 - cidr) = address r div 2 ^ nat (32 - cidr))"
proof -
  have "isIPv4InRange ip r cidr = Some (
      (of_nat (address ip) :: 32 word) AND NOT (mask (nat (32 - cidr))) =
      of_nat (address r) AND NOT (mask (nat (32 - cidr))))"
    using assms by (simp add: isIPv4InRange_def ipv4ToLong_address to_uint32_def and32_def range_mask_word
        flip: word_uint_eq_iff)
  then show ?thesis
    using assms word_drop_eq_iff[OF address_less address_less, of ip r] by (simp add: masked_eq_iff)
qed

subsection \<open>Binary text\<close>

text \<open>The \<open>w\<close> low bits of a number, printed.\<close>

fun binary :: "nat \<Rightarrow> nat \<Rightarrow> jstring" where
  "binary 0 v = []"
| "binary (Suc w) v = binary w (v div 2) @ [of_nat (48 + v mod 2)]"

lemma length_binary [simp]: "length (binary w v) = w"
  by (induction w arbitrary: v) simp_all

lemma binary_append:
  "v < 2 ^ w \<Longrightarrow> binary (u + w) (x * 2 ^ w + v) = binary u x @ binary w v"
proof (induction w arbitrary: v)
  case (Suc w)
  have e: "x * 2 ^ Suc w + v = v + x * 2 ^ w * 2" by simp
  have "(x * 2 ^ Suc w + v) div 2 = x * 2 ^ w + v div 2" "(x * 2 ^ Suc w + v) mod 2 = v mod 2"
    unfolding e by simp_all
  with Suc show ?case by simp
qed simp

lemma binary_take: "c \<le> w \<Longrightarrow> take c (binary w v) = binary c (v div 2 ^ (w - c))"
proof (induction w arbitrary: v)
  case (Suc w)
  show ?case
  proof (cases "c = Suc w")
    case False
    with Suc.prems have "c \<le> w" by simp
    then have "Suc w - c = Suc (w - c)" by simp
    with Suc.IH[OF \<open>c \<le> w\<close>] \<open>c \<le> w\<close> show ?thesis by (simp add: div_mult2_eq)
  qed simp
qed simp

lemma binary_inj: "u < 2 ^ w \<Longrightarrow> v < 2 ^ w \<Longrightarrow> binary w u = binary w v \<longleftrightarrow> u = v"
proof (induction w arbitrary: u v)
  case (Suc w)
  have m: "(of_nat (48 + u mod 2) :: code_unit) = of_nat (48 + v mod 2) \<longleftrightarrow> u mod 2 = v mod 2"
    by (cases "even u"; cases "even v") (simp_all add: even_iff_mod_2_eq_zero odd_iff_mod_2_eq_one)
  have "u div 2 < 2 ^ w" "v div 2 < 2 ^ w" using Suc.prems by auto
  then have "binary (Suc w) u = binary (Suc w) v \<longleftrightarrow> u div 2 = v div 2 \<and> u mod 2 = v mod 2"
    using m by (simp add: Suc.IH)
  also have "\<dots> \<longleftrightarrow> u = v" by (metis div_mult_mod_eq)
  finally show ?case .
qed simp

text \<open>Comparing the first \<open>c\<close> characters compares the leading \<open>c\<close> bits.\<close>

lemma binary_prefix:
  assumes "u < 2 ^ w" "v < 2 ^ w" "c \<le> w"
  shows "take c (binary w u) = take c (binary w v) \<longleftrightarrow> u div 2 ^ (w - c) = v div 2 ^ (w - c)"
proof -
  have "x div 2 ^ (w - c) < 2 ^ c" if "x < 2 ^ w" for x :: nat
    using that assms(3) by (intro less_mult_imp_div_less) (simp flip: power_add)
  with assms show ?thesis by (simp add: binary_take binary_inj)
qed

lemma hex_char_bit: "hex_char (v mod 2) = of_nat (48 + v mod 2)"
proof -
  have "v mod 2 < 2" by simp
  then show ?thesis unfolding hex_char_def by (simp del: of_nat_add)
qed

lemma digits_of_le: "v < 2 ^ w \<Longrightarrow> 0 < w \<Longrightarrow> length (digits_of 2 v) \<le> w"
proof (induction w arbitrary: v)
  case (Suc w)
  show ?case
  proof (cases "v < 2")
    case False
    then have "0 < w" using Suc.prems(1) by (cases w) auto
    moreover have "v div 2 < 2 ^ w" using Suc.prems(1) by auto
    ultimately show ?thesis using False Suc.IH by (subst digits_of.simps) simp
  qed (subst digits_of.simps, simp)
qed simp

lemma pad_snoc: "length xs \<le> w \<Longrightarrow> padStart (Suc w) (xs @ [c]) = padStart w xs @ [c]"
  by (simp add: padStart_def)

lemma binary_zero: "binary w 0 = replicate w 48"
  by (induction w) (simp_all add: replicate_append_same)

lemma padded_digits:
  "v < 2 ^ w \<Longrightarrow> 0 < w \<Longrightarrow> padStart w (digits_of 2 v) = binary w v"
proof (induction w arbitrary: v)
  case (Suc w)
  show ?case
  proof (cases "v < 2")
    case True
    then have "v div 2 = 0" "v mod 2 = v" by simp_all
    with True hex_char_bit[of v] show ?thesis
      by (subst digits_of.simps) (simp add: padStart_def binary_zero)
  next
    case False
    then have "0 < w" using Suc.prems(1) by (cases w) auto
    moreover have "v div 2 < 2 ^ w" using Suc.prems(1) by auto
    ultimately have "padStart w (digits_of 2 (v div 2)) = binary w (v div 2)"
      and "length (digits_of 2 (v div 2)) \<le> w"
      using Suc.IH digits_of_le by simp_all
    with False show ?thesis
      by (subst digits_of.simps) (simp add: pad_snoc hex_char_bit)
  qed
qed simp

text \<open>Groups of \<open>w\<close> bits each, one after the other.\<close>

lemma binary_groups:
  "0 < w \<Longrightarrow> \<forall>d \<in> set ds. d < 2 ^ w \<Longrightarrow>
     concat (map (\<lambda>d. padStart w (digits_of 2 d)) ds) = binary (w * length ds) (horner (2 ^ w) ds)"
proof (induction ds rule: rev_induct)
  case (snoc d ds)
  then show ?case
    using binary_append[of d w "w * length ds" "horner (2 ^ w) ds"]
    by (simp add: padded_digits algebra_simps)
qed simp

lemma ipv4ToBinary_address: "isValidIPv4 ip \<Longrightarrow> ipv4ToBinary ip = Some (binary 32 (address ip))"
  using binary_groups[of 8 "quad ip"] quad_facts[of ip]
  by (simp add: ipv4ToBinary_def address_def quad_def comp_def)

lemma subnet_test:
  assumes "isValidIPv4 ip" "isValidIPv4 r" "0 \<le> cidr" "cidr \<le> 32"
  shows "isIPv4InSubnet ip r cidr \<longleftrightarrow>
    address ip div 2 ^ nat (32 - cidr) = address r div 2 ^ nat (32 - cidr)"
  using assms binary_prefix[of "address ip" 32 "address r" "nat cidr"] address_less
  by (simp add: isIPv4InSubnet_def ipv4ToBinary_address nat_diff_distrib)

subsection \<open>Colon notation\<close>

definition group_val :: "jstring \<Rightarrow> nat" where
  "group_val p = horner 16 (map (the \<circ> hex_value) p)"

definition address6 :: "jstring \<Rightarrow> nat" where
  "address6 e = horner 65536 (map group_val (split_on colon e))"

lemma hex_value_less: "hex_value u = Some d \<Longrightarrow> d < 16"
  by (auto simp: hex_value_def word_le_nat_alt split: if_splits)

lemma group_less: "ipv6_segment p \<Longrightarrow> group_val p < 2 ^ 16"
proof -
  assume p: "ipv6_segment p"
  then have "\<forall>d \<in> set (map (the \<circ> hex_value) p). d < 16"
    by (fastforce simp: ipv6_segment_def list_all_iff hex_digit_def dest: hex_value_less)
  then have "group_val p < 16 ^ length p"
    using horner_less[of 16 "map (the \<circ> hex_value) p"] by (simp add: group_val_def)
  also have "\<dots> \<le> 16 ^ 4"
    using p by (intro power_increasing) (simp_all add: ipv6_segment_def)
  finally show ?thesis by simp
qed

lemma segment_bits_group: "ipv6_segment p \<Longrightarrow> segment_bits p = digits_of 2 (group_val p)"
proof -
  assume p: "ipv6_segment p"
  have t: "takeWhile hex_digit p = p"
    using p by (auto simp: ipv6_segment_def list_all_iff intro: takeWhile_eq_all_conv[THEN iffD2])
  from p show ?thesis unfolding segment_bits_def Let_def t by (simp add: ipv6_segment_def group_val_def horner_units)
qed

definition canonical :: "jstring \<Rightarrow> bool" where
  "canonical e \<longleftrightarrow> length (split_on colon e) = 8 \<and> list_all ipv6_segment (split_on colon e)"

lemma canonical_binary:
  assumes "canonical e"
  shows "concat (map (\<lambda>s. padStart 16 (segment_bits s)) (split_on colon e)) = binary 128 (address6 e)"
    and "address6 e < 2 ^ 128"
proof -
  let ?gs = "map group_val (split_on colon e)"
  have g: "length ?gs = 8" "\<forall>d \<in> set ?gs. d < 2 ^ 16"
    using assms group_less by (auto simp: canonical_def list_all_iff)
  have "concat (map (\<lambda>s. padStart 16 (segment_bits s)) (split_on colon e)) =
      concat (map (\<lambda>d. padStart 16 (digits_of 2 d)) ?gs)"
    using assms by (auto simp: canonical_def list_all_iff segment_bits_group comp_def intro!: arg_cong[where f = concat])
  also have "\<dots> = binary 128 (address6 e)"
    using binary_groups[of 16 ?gs] g by (simp add: address6_def)
  finally show "concat (map (\<lambda>s. padStart 16 (segment_bits s)) (split_on colon e)) = binary 128 (address6 e)" .
  show "address6 e < 2 ^ 128"
    using horner_less[of 65536 ?gs] g by (simp add: address6_def)
qed

lemma canonical_nonempty: "canonical e \<Longrightarrow> e \<noteq> []"
  by (auto simp: canonical_def)

lemma ipv6ToBinary_address:
  "expandIPv6 ip = Some e \<Longrightarrow> canonical e \<Longrightarrow> ipv6ToBinary ip = Some (binary 128 (address6 e))"
  using canonical_binary(1)[of e] canonical_nonempty[of e] by (simp add: ipv6ToBinary_def)

lemma subnet6_test:
  assumes "expandIPv6 ip = Some e" "canonical e" "expandIPv6 r = Some f" "canonical f" "0 \<le> cidr" "cidr \<le> 128"
  shows "isIPv6InSubnet ip r cidr \<longleftrightarrow>
    address6 e div 2 ^ nat (128 - cidr) = address6 f div 2 ^ nat (128 - cidr)"
  using assms(5,6) binary_prefix[OF canonical_binary(2) canonical_binary(2), OF assms(2,4), of "nat cidr"]
  by (simp add: isIPv6InSubnet_def ipv6ToBinary_address[OF assms(1,2)] ipv6ToBinary_address[OF assms(3,4)]
      nat_diff_distrib)

subsection \<open>Reserved addresses\<close>

text \<open>The table of \<open>isPublicIP.ts\<close>, read on the octets.\<close>

definition reserved :: "nat \<Rightarrow> nat \<Rightarrow> nat \<Rightarrow> bool" where
  "reserved a b c \<longleftrightarrow>
     a \<in> {0, 10, 127} \<or> 224 \<le> a \<or>
     a = 100 \<and> 64 \<le> b \<and> b < 128 \<or>
     a = 169 \<and> b = 254 \<or>
     a = 172 \<and> 16 \<le> b \<and> b < 32 \<or>
     a = 192 \<and> (b = 168 \<or> b = 0 \<and> c \<in> {0, 2}) \<or>
     a = 198 \<and> (18 \<le> b \<and> b < 20 \<or> b = 51 \<and> c = 100) \<or>
     a = 203 \<and> b = 0 \<and> c = 113"

lemma address_quad: "quad ip = [a, b, c, d] \<Longrightarrow> address ip = ((a * 256 + b) * 256 + c) * 256 + d"
  by (simp add: address_def horner_def)

lemma div_octet: "(d::nat) < 256 \<Longrightarrow> (x * 256 + d) div (256 * m) = x div m"
  by (simp add: div_mult2_eq)

lemma address_prefixes:
  assumes "quad ip = [a, b, c, d]" "b < 256" "c < 256" "d < 256"
  shows "address ip div 2 ^ 28 = a div 16" "address ip div 2 ^ 24 = a"
    "address ip div 2 ^ 22 = (a * 256 + b) div 64" "address ip div 2 ^ 20 = (a * 256 + b) div 16"
    "address ip div 2 ^ 17 = (a * 256 + b) div 2" "address ip div 2 ^ 16 = a * 256 + b"
    "address ip div 2 ^ 8 = (a * 256 + b) * 256 + c"
proof -
  have t: "address ip div (256 * (256 * m)) = (a * 256 + b) div m" for m
    by (simp only: address_quad[OF assms(1)] div_octet[OF assms(3)] div_octet[OF assms(4)])
  have u: "address ip div (256 * (256 * (256 * m))) = a div m" for m
    by (simp only: t div_octet[OF assms(2)])
  show "address ip div 2 ^ 28 = a div 16" using u[of 16] by simp
  show "address ip div 2 ^ 24 = a" using u[of 1] by simp
  show "address ip div 2 ^ 22 = (a * 256 + b) div 64" using t[of 64] by simp
  show "address ip div 2 ^ 20 = (a * 256 + b) div 16" using t[of 16] by simp
  show "address ip div 2 ^ 17 = (a * 256 + b) div 2" using t[of 2] by simp
  show "address ip div 2 ^ 16 = a * 256 + b" using t[of 1] by simp
  show "address ip div 2 ^ 8 = (a * 256 + b) * 256 + c"
    using div_octet[OF assms(4), of "(a * 256 + b) * 256 + c" 1] by (simp add: address_quad[OF assms(1)])
qed

lemma octet_pair: "(b::nat) < 256 \<Longrightarrow> a * 256 + b = k \<longleftrightarrow> a = k div 256 \<and> b = k mod 256"
  by auto

lemma div_block: "0 < m \<Longrightarrow> (x::nat) div m = k \<longleftrightarrow> k * m \<le> x \<and> x < Suc k * m"
  by (metis div_less_iff_less_mult less_Suc_eq_le less_eq_div_iff_mult_less_eq linorder_not_le nle_le)

lemma octet_block:
  fixes a b :: nat
  assumes "b < 256" "k * m = x * 256 + l" "l + m \<le> 256" "0 < m"
  shows "(a * 256 + b) div m = k \<longleftrightarrow> a = x \<and> l \<le> b \<and> b < l + m"
proof
  assume "(a * 256 + b) div m = k"
  then have h: "x * 256 + l \<le> a * 256 + b" "a * 256 + b < x * 256 + (l + m)"
    using assms by (simp_all add: div_block add.commute)
  then have "a \<le> x" "x \<le> a" using assms(1,3) by linarith+
  with h show "a = x \<and> l \<le> b \<and> b < l + m" by simp
next
  assume "a = x \<and> l \<le> b \<and> b < l + m"
  with assms show "(a * 256 + b) div m = k" by (simp add: div_block)
qed

lemma table_entries:
  "list_all (\<lambda>(r, cidr). isValidIPv4 r \<and> 0 \<le> cidr \<and> cidr \<le> 32) ipv4Ranges"
  "map (\<lambda>(r, cidr). (quad r, cidr)) ipv4Ranges =
     [([0, 0, 0, 0], 8), ([10, 0, 0, 0], 8), ([100, 64, 0, 0], 10), ([127, 0, 0, 0], 8), ([169, 254, 0, 0], 16),
      ([172, 16, 0, 0], 12), ([192, 0, 0, 0], 24), ([192, 0, 2, 0], 24), ([192, 168, 0, 0], 16),
      ([198, 18, 0, 0], 15), ([198, 51, 100, 0], 24), ([203, 0, 113, 0], 24), ([224, 0, 0, 0], 4), ([240, 0, 0, 0], 4)]"
  by code_simp+

lemma isReservedIPv4_address:
  assumes "isValidIPv4 ip"
  shows "isReservedIPv4 ip \<longleftrightarrow>
    list_ex (\<lambda>(q, cidr). address ip div 2 ^ nat (32 - cidr) = horner 256 q div 2 ^ nat (32 - cidr))
      (map (\<lambda>(r, cidr). (quad r, cidr)) ipv4Ranges)"
proof -
  have "isIPv4InRange ip r cidr = Some (address ip div 2 ^ nat (32 - cidr) = horner 256 (quad r) div 2 ^ nat (32 - cidr))"
    if "(r, cidr) \<in> set ipv4Ranges" for r cidr
    using that table_entries(1) assms range_test[of ip r cidr] by (auto simp: list_all_iff address_def)
  then show ?thesis
    unfolding isReservedIPv4_def list_ex_iff by (auto simp: case_prod_unfold)
qed

lemma isReservedIPv4_octets:
  assumes "isValidIPv4 ip" "quad ip = [a, b, c, d]"
  shows "isReservedIPv4 ip \<longleftrightarrow> reserved a b c"
proof -
  have r: "a < 256" "b < 256" "c < 256" "d < 256"
    using quad_facts(2)[OF assms(1)] assms(2) by simp_all
  note p = address_prefixes[OF assms(2) r(2-4), simplified]
  have "isReservedIPv4 ip \<longleftrightarrow>
      a = 0 \<or> a = 10 \<or> (a * 256 + b) div 64 = 401 \<or> a = 127 \<or> a * 256 + b = 43518 \<or> (a * 256 + b) div 16 = 2753 \<or>
      (a * 256 + b) * 256 + c = 12582912 \<or> (a * 256 + b) * 256 + c = 12582914 \<or> a * 256 + b = 49320 \<or>
      (a * 256 + b) div 2 = 25353 \<or> (a * 256 + b) * 256 + c = 12989284 \<or> (a * 256 + b) * 256 + c = 13303921 \<or>
      a div 16 = 14 \<or> a div 16 = 15"
    unfolding isReservedIPv4_address[OF assms(1)] table_entries(2) by (simp add: p horner_def)
  also have "\<dots> \<longleftrightarrow>
      a = 0 \<or> a = 10 \<or> a = 100 \<and> 64 \<le> b \<and> b < 128 \<or> a = 127 \<or> a = 169 \<and> b = 254 \<or> a = 172 \<and> 16 \<le> b \<and> b < 32 \<or>
      (a = 192 \<and> b = 0) \<and> c = 0 \<or> (a = 192 \<and> b = 0) \<and> c = 2 \<or> a = 192 \<and> b = 168 \<or>
      a = 198 \<and> 18 \<le> b \<and> b < 20 \<or> (a = 198 \<and> b = 51) \<and> c = 100 \<or> (a = 203 \<and> b = 0) \<and> c = 113 \<or>
      a div 16 = 14 \<or> a div 16 = 15"
    unfolding octet_pair[OF r(3)] octet_pair[OF r(2)]
    using octet_block[OF r(2), of 401 64 100 64 a] octet_block[OF r(2), of 2753 16 172 16 a]
      octet_block[OF r(2), of 25353 2 198 18 a]
    by simp
  also have "a div 16 = 14 \<or> a div 16 = 15 \<longleftrightarrow> 224 \<le> a"
    using r(1) by auto
  finally show ?thesis
    unfolding reserved_def by blast
qed

end
