(* ===== verification/IpPublic.thy ===== *)
theory IpPublic
  imports IpRanges
begin

text \<open>
  The properties of the address functions: the two implementations of CIDR membership agree and compare
  leading bits, \<open>isPublicIP\<close> is the table of reserved networks read on the octets, an address
  embedded in IPv6 is judged as the address itself; and the spellings that slip through.
\<close>

subsection \<open>Splitting and joining\<close>

lemma split_join:
  "\<forall>p \<in> set ps. c \<notin> set p \<Longrightarrow> ps \<noteq> [] \<Longrightarrow> split_on c (join c ps) = ps"
proof (induction ps)
  case (Cons p ps)
  then show ?case
    by (cases ps) (simp_all add: join_def split_plain split_first)
qed simp

lemma join_two: "join c [p, q] = p @ c # q"
  by (simp add: join_def)

lemma set_split_on: "u \<in> set xs \<Longrightarrow> u = c \<or> (\<exists>p \<in> set (split_on c xs). u \<in> set p)"
  by (induction xs) (auto split: list.split)

lemma length_split_on: "Suc (length xs) = sum_list (map (\<lambda>p. Suc (length p)) (split_on c xs))"
  by (induction xs) (auto split: list.splits)

lemma split_on_nonempty [simp]: "split_on c xs \<noteq> []"
  by (induction xs) (auto split: list.split)

text \<open>Dotted text: at most fifteen characters, digits and dots, ending in a digit.\<close>

lemma ipv4_text:
  assumes "ipv4_regex ip"
  shows "length ip \<le> 15" "\<forall>u \<in> set ip. unit_digit u \<or> u = dot" "dot \<in> set ip" "ip \<noteq> []"
proof -
  obtain p q r s where ps: "split_on dot ip = [p, q, r, s]"
    using assms four_parts[of "split_on dot ip"] by (auto simp: ipv4_regex_def)
  then have o4: "octet_digits p" "octet_digits q" "octet_digits r" "octet_digits s"
    using assms by (simp_all add: ipv4_regex_def)
  show "length ip \<le> 15"
    using length_split_on[of ip dot] o4 by (simp add: ps octet_digits_def)
  show "\<forall>u \<in> set ip. unit_digit u \<or> u = dot"
    using set_split_on[of _ ip dot] o4 by (fastforce simp: ps octet_digits_def list_all_iff)
  show "dot \<in> set ip" using split_plain[of dot ip] ps by auto
  then show "ip \<noteq> []" by auto
qed

lemma valid_text: "isValidIPv4 ip \<Longrightarrow> ipv4_regex ip"
  by (simp add: isValidIPv4_def)

lemma not_dotted: "\<not> unit_digit u \<Longrightarrow> u \<noteq> dot \<Longrightarrow> \<not> ipv4_regex (u # us)"
  by (auto simp: ipv4_regex_def octet_digits_def split: list.splits)

lemma ipv4_tail_skip: "\<not> unit_digit u \<Longrightarrow> u \<noteq> dot \<Longrightarrow> ipv4_tail (u # us) = ipv4_tail us"
  by (simp add: not_dotted)

lemma ipv4_tail_self: "ipv4_regex ip \<Longrightarrow> ipv4_tail ip = Some ip"
  using ipv4_text(4)[of ip] by (cases ip) simp_all

lemma digit_units:
  assumes "unit_digit u \<or> u = dot"
  shows "u \<noteq> colon" "lower_unit u = u" "\<not> js_space u" "hex_digit u \<or> u = dot" "unit_digit u \<Longrightarrow> u \<noteq> dot"
proof -
  have "unat u \<in> {48..57} \<or> unat u = 46" using assms by (auto simp: unit_digit_def word_le_nat_alt)
  then show "u \<noteq> colon" "lower_unit u = u" "\<not> js_space u" "hex_digit u \<or> u = dot" "unit_digit u \<Longrightarrow> u \<noteq> dot"
    using assms by (auto simp: unit_digit_def lower_unit_def js_space_def hex_digit_def hex_value_def word_le_nat_alt)
qed

lemma trim_id:
  assumes "s \<noteq> []" "\<not> js_space (hd s)" "\<not> js_space (last s)"
  shows "trim s = s"
proof -
  have "dropWhile js_space s = s" "dropWhile js_space (rev s) = rev s"
    using assms by (simp_all add: dropWhile_eq_self_iff hd_rev)
  then show ?thesis by (simp add: trim_def)
qed

subsection \<open>Colons\<close>

lemma triple_other [simp]: "u \<noteq> colon \<Longrightarrow> has_triple (u # s) = has_triple s"
  by (cases s; cases "tl s") simp_all

lemma triple_none [simp]: "colon \<notin> set s \<Longrightarrow> \<not> has_triple s"
  by (induction s) auto

lemma triple_colon [simp]: "v \<noteq> colon \<Longrightarrow> has_triple (colon # v # s) = has_triple s"
  by (cases s) simp_all

lemma triple_append: "colon \<notin> set h \<Longrightarrow> has_triple (h @ s) = has_triple s"
  by (induction h) auto

lemma double_nonempty [simp]: "split_double s \<noteq> []"
  by (induction s rule: split_double.induct) (auto split: list.split)

lemma double_other: "u \<noteq> colon \<Longrightarrow> split_double (u # s) = (u # hd (split_double s)) # tl (split_double s)"
  using double_nonempty[of s] by (cases s; cases "split_double s") simp_all

lemma double_append:
  "colon \<notin> set h \<Longrightarrow> split_double (h @ s) = (h @ hd (split_double s)) # tl (split_double s)"
proof (induction h)
  case Nil
  show ?case by simp
next
  case (Cons u h)
  then show ?case by (simp add: double_other)
qed

lemma double_none: "colon \<notin> set s \<Longrightarrow> split_double s = [s]"
  using double_append[of s "[]"] by simp

lemma double_colon:
  "v \<noteq> colon \<Longrightarrow>
     split_double (colon # v # s) = (colon # hd (split_double (v # s))) # tl (split_double (v # s))"
  by (cases "split_double (v # s)") (simp_all add: double_other)

subsection \<open>Printed numbers\<close>

lemma hex_char_value: "d < 16 \<Longrightarrow> hex_value (hex_char d) = Some d"
proof -
  assume "d < 16"
  then have "d \<in> set [0..<16]" by simp
  moreover have "list_all (\<lambda>d. hex_value (hex_char d) = Some d) [0..<16]" by code_simp
  ultimately show ?thesis by (simp add: list_all_iff)
qed

lemma hex_char_lower: "d < 16 \<Longrightarrow> hex_char d \<noteq> colon \<and> hex_char d \<noteq> dot \<and> lower_unit (hex_char d) = hex_char d"
proof -
  assume "d < 16"
  then have "d \<in> set [0..<16]" by simp
  moreover have "list_all (\<lambda>d. hex_char d \<noteq> colon \<and> hex_char d \<noteq> dot \<and> lower_unit (hex_char d) = hex_char d) [0..<16]"
    by code_simp
  ultimately show ?thesis by (simp add: list_all_iff)
qed

lemma digits_of_digits:
  "2 \<le> b \<Longrightarrow> \<exists>ds. digits_of b n = map hex_char ds \<and> ds \<noteq> [] \<and> (\<forall>d \<in> set ds. d < b) \<and> horner b ds = n \<and>
     (\<forall>k. n < b ^ k \<longrightarrow> 0 < k \<longrightarrow> length ds \<le> k)"
proof (induction n rule: less_induct)
  case (less n)
  show ?case
  proof (cases "n < b")
    case True
    then show ?thesis by (subst digits_of.simps) (auto intro!: exI[of _ "[n]"] simp: horner_def)
  next
    case False
    with less.prems have "n div b < n" by auto
    with less obtain ds where ds: "digits_of b (n div b) = map hex_char ds" "ds \<noteq> []" "\<forall>d \<in> set ds. d < b"
      "horner b ds = n div b" "\<forall>k. n div b < b ^ k \<longrightarrow> 0 < k \<longrightarrow> length ds \<le> k" by blast
    have "length (ds @ [n mod b]) \<le> k" if "n < b ^ k" "0 < k" for k
    proof -
      obtain j where k: "k = Suc j" using \<open>0 < k\<close> by (cases k) auto
      with that False have "0 < j" by (cases j) auto
      moreover have "n div b < b ^ j"
        using that(1) k less.prems by (simp add: less_mult_imp_div_less mult.commute)
      ultimately show ?thesis using ds(5) k by simp
    qed
    with False ds less.prems show ?thesis
      by (subst digits_of.simps) (auto intro!: exI[of _ "ds @ [n mod b]"])
  qed
qed

lemma printed_group:
  assumes "n < 2 ^ 16"
  shows "ipv6_segment (digits_of 16 n)" "group_val (digits_of 16 n) = n" "colon \<notin> set (digits_of 16 n)"
    "dot \<notin> set (digits_of 16 n)" "map lower_unit (digits_of 16 n) = digits_of 16 n"
    "digits_of 16 n \<noteq> []" "length (digits_of 16 n) \<le> 4" "\<forall>u \<in> set (digits_of 16 n). hex_digit u"
proof -
  obtain ds where ds: "digits_of 16 n = map hex_char ds" "ds \<noteq> []" "\<forall>d \<in> set ds. d < 16" "horner 16 ds = n"
    "n < 16 ^ 4 \<longrightarrow> length ds \<le> 4" using digits_of_digits[of 16 n] by fastforce
  show len: "length (digits_of 16 n) \<le> 4" using ds(1,5) assms by simp
  show hex: "\<forall>u \<in> set (digits_of 16 n). hex_digit u"
    using ds(3) by (auto simp: ds(1) hex_digit_def hex_char_value)
  show ne: "digits_of 16 n \<noteq> []" using ds by simp
  show "ipv6_segment (digits_of 16 n)"
    using len hex ne by (simp add: ipv6_segment_def list_all_iff)
  have "map (the \<circ> hex_value) (map hex_char ds) = ds"
    using ds(3) by (simp add: map_idI hex_char_value)
  then show "group_val (digits_of 16 n) = n" by (simp only: group_val_def ds(1,4))
  show "colon \<notin> set (digits_of 16 n)" "dot \<notin> set (digits_of 16 n)"
    "map lower_unit (digits_of 16 n) = digits_of 16 n"
    using ds(3) hex_char_lower by (auto simp: ds(1))
qed

lemma printed_octet:
  assumes "n < 256"
  shows "octet_digits (digits_of 10 n)" "decimal_val (digits_of 10 n) = n" "dot \<notin> set (digits_of 10 n)"
proof -
  obtain ds where ds: "digits_of 10 n = map hex_char ds" "ds \<noteq> []" "\<forall>d \<in> set ds. d < 10" "horner 10 ds = n"
    "n < 10 ^ 3 \<longrightarrow> length ds \<le> 3" using digits_of_digits[of 10 n] by fastforce
  have d: "unit_digit (hex_char d) \<and> unat (hex_char d) - 48 = d" if "d < 10" for d
  proof -
    have "d \<in> set [0..<10]" using that by simp
    moreover have "list_all (\<lambda>d. unit_digit (hex_char d) \<and> unat (hex_char d) - 48 = d) [0..<10]" by code_simp
    ultimately show ?thesis by (simp add: list_all_iff)
  qed
  show "octet_digits (digits_of 10 n)"
    using ds d assms by (auto simp: octet_digits_def list_all_iff)
  have "map (\<lambda>u. unat u - 48) (map hex_char ds) = ds"
    using ds(3) d by (simp add: map_idI)
  then show "decimal_val (digits_of 10 n) = n"
    by (simp only: decimal_val_def horner_units ds(1,4))
  show "dot \<notin> set (digits_of 10 n)"
    using ds(3) hex_char_lower by (fastforce simp: ds(1))
qed

lemma printed_quad:
  assumes "a < 256" "b < 256" "c < 256" "d < 256"
  defines "ip \<equiv> join dot (map (digits_of 10) [a, b, c, d])"
  shows "isValidIPv4 ip" "quad ip = [a, b, c, d]"
proof -
  have s: "split_on dot ip = map (digits_of 10) [a, b, c, d]"
    unfolding ip_def using assms(1-4) by (intro split_join) (auto simp: printed_octet)
  show "isValidIPv4 ip" "quad ip = [a, b, c, d]"
    using assms(1-4) by (simp_all add: isValidIPv4_def ipv4_regex_def quad_def s printed_octet)
qed

subsection \<open>An IPv4 address inside IPv6\<close>

abbreviation mapped_prefix :: jstring where "mapped_prefix \<equiv> js ''::ffff:''"

lemma mapped_prefix_units: "mapped_prefix = [58, 58, 102, 102, 102, 102, 58]"
  by (simp add: js_def)

lemma prefix_hex: "u \<in> set mapped_prefix \<Longrightarrow> hex_digit u \<or> u = colon"
  unfolding mapped_prefix_units by (auto simp: hex_digit_def hex_value_def)

lemma plain_units:
  assumes "isValidIPv4 ip" "u \<in> set ip"
  shows "u \<noteq> colon" "lower_unit u = u" "\<not> js_space u" "hex_digit u \<or> u = dot"
  using ipv4_text(2)[OF valid_text[OF assms(1)]] assms(2) digit_units by blast+

lemma mapped_trim:
  assumes "isValidIPv4 ip"
  shows "trim (mapped_prefix @ ip) = mapped_prefix @ ip"
  using ipv4_text(4)[OF valid_text[OF assms]] plain_units(3)[OF assms last_in_set]
  by (intro trim_id) (simp_all add: mapped_prefix_units js_space_def)

lemma mapped_text:
  assumes "isValidIPv4 ip"
  shows "\<forall>u \<in> set (mapped_prefix @ ip). hex_digit u \<or> u = colon \<or> u = dot" "length (mapped_prefix @ ip) \<le> 45"
    "map lower_unit (mapped_prefix @ ip) = mapped_prefix @ ip"
    "colon \<in> set (mapped_prefix @ ip)" "dot \<in> set (mapped_prefix @ ip)"
proof -
  show "\<forall>u \<in> set (mapped_prefix @ ip). hex_digit u \<or> u = colon \<or> u = dot"
    using plain_units(4)[OF assms] prefix_hex by auto
  show "length (mapped_prefix @ ip) \<le> 45"
    using ipv4_text(1)[OF valid_text[OF assms]] by (simp add: mapped_prefix_units)
  show "map lower_unit (mapped_prefix @ ip) = mapped_prefix @ ip"
    using plain_units(2)[OF assms] by (simp add: map_idI) (simp add: mapped_prefix_units lower_unit_def)
  show "colon \<in> set (mapped_prefix @ ip)" by (simp add: mapped_prefix_units)
  show "dot \<in> set (mapped_prefix @ ip)" using ipv4_text(3)[OF valid_text[OF assms]] by simp
qed

text \<open>The colons of \<open>::ffff:t\<close>, for a \<open>t\<close> that does not begin with one.\<close>

lemma mapped_colons:
  assumes "v \<noteq> colon"
  shows "has_triple (mapped_prefix @ v # t) = has_triple t"
    "split_double (mapped_prefix @ v # t) =
       [] # (js ''ffff:'' @ hd (split_double (v # t))) # tl (split_double (v # t))"
  using assms by (simp_all add: mapped_prefix_units js_def double_other double_colon)

lemma mapped_colons_quad:
  assumes "isValidIPv4 ip"
  shows "\<not> has_triple (mapped_prefix @ ip)" "split_double (mapped_prefix @ ip) = [[], js ''ffff:'' @ ip]"
proof -
  have n: "colon \<notin> set ip" using plain_units(1)[OF assms] by blast
  obtain v t where ip: "ip = v # t" using ipv4_text(4)[OF valid_text[OF assms]] by (cases ip) auto
  with n have v: "v \<noteq> colon" "colon \<notin> set t" by auto
  show "\<not> has_triple (mapped_prefix @ ip)"
    using v mapped_colons(1)[OF v(1), of t] by (simp add: ip)
  show "split_double (mapped_prefix @ ip) = [[], js ''ffff:'' @ ip]"
    using double_none[OF n] mapped_colons(2)[OF v(1), of t] by (simp add: ip)
qed

lemma mapped_tail: "isValidIPv4 ip \<Longrightarrow> ipv4_tail (mapped_prefix @ ip) = Some ip"
  unfolding mapped_prefix_units append_Cons append_Nil
  by (simp add: ipv4_tail_skip ipv4_tail_self[OF valid_text] unit_digit_def del: ipv4_tail.simps)

lemma mapped_structure: "isValidIPv4 ip \<Longrightarrow> isValidIPv6Structure (mapped_prefix @ ip)"
  using mapped_text[of ip] mapped_colons_quad[of ip] mapped_tail[of ip] ipv4_text(4)[OF valid_text, of ip]
  by (simp add: isValidIPv6Structure_def validateIPv6WithIPv4Part_def ipv6_regex_def list_all_iff has_double_def)

subsection \<open>Its expansion\<close>

definition mapped_groups :: "nat list \<Rightarrow> jstring list" where
  "mapped_groups q =
     replicate 5 [48] @ [js ''ffff'', digits_of 16 (q ! 0 * 256 + q ! 1), digits_of 16 (q ! 2 * 256 + q ! 3)]"

lemma shl8:
  assumes "x < 256"
  shows "nat (shl32 (int x) 8 + int y) = x * 256 + y"
proof -
  have "push_bit 8 (word_of_int (int x) :: 32 word) = word_of_int (int (x * 256))"
    by (simp add: push_bit_eq_mult)
  then have "shl32 (int x) 8 = sint (word_of_int (int (x * 256)) :: 32 word)"
    by (simp add: shl32_def)
  also have "\<dots> = int (x * 256)"
    using assms by (subst sint_sbintrunc') (simp add: signed_take_bit_int_eq_self)
  finally show ?thesis by simp
qed

lemma hex_segments:
  assumes "isValidIPv4 ip" "quad ip = [a, b, c, d]"
  shows "ipv4ToHexSegments ip = Some [digits_of 16 (a * 256 + b), digits_of 16 (c * 256 + d)]"
proof -
  have "octets ip = map int (quad ip)" by (simp add: octets_def quad_def)
  moreover have "a < 256" "c < 256" using quad_facts(2)[OF assms(1)] assms(2) by simp_all
  ultimately show ?thesis
    using assms by (simp add: ipv4ToHexSegments_def Let_def shl8)
qed


lemma mapped_groups_facts:
  assumes "a < 256" "b < 256" "c < 256" "d < 256"
  defines "gs \<equiv> mapped_groups [a, b, c, d]"
  shows "\<forall>p \<in> set gs. ipv6_segment p \<and> colon \<notin> set p \<and> dot \<notin> set p \<and> map lower_unit p = p \<and> p \<noteq> [] \<and> length p \<le> 4"
    "length gs = 8" "map group_val gs = replicate 5 0 @ [65535, a * 256 + b, c * 256 + d]"
proof -
  have l: "a * 256 + b < 2 ^ 16" "c * 256 + d < 2 ^ 16" using assms(1-4) by simp_all
  have z: "ipv6_segment [48]" "group_val [48] = 0" "lower_unit 48 = 48"
    "ipv6_segment (js ''ffff'')" "group_val (js ''ffff'') = 65535" "map lower_unit (js ''ffff'') = js ''ffff''"
    by (simp_all add: js_def ipv6_segment_def group_val_def horner_def hex_digit_def hex_value_def lower_unit_def)
  have f: "js ''ffff'' = [102, 102, 102, 102]" by (simp add: js_def)
  show "\<forall>p \<in> set gs. ipv6_segment p \<and> colon \<notin> set p \<and> dot \<notin> set p \<and> map lower_unit p = p \<and> p \<noteq> [] \<and> length p \<le> 4"
    using printed_group[OF l(1)] printed_group[OF l(2)] z by (auto simp: gs_def mapped_groups_def f)
  show "length gs = 8" by (simp add: gs_def mapped_groups_def)
  show "map group_val gs = replicate 5 0 @ [65535, a * 256 + b, c * 256 + d]"
    using printed_group(2)[OF l(1)] printed_group(2)[OF l(2)] z by (simp add: gs_def mapped_groups_def)
qed

lemma join_Cons2: "join c (p # q # qs) = p @ c # join c (q # qs)"
  by (simp add: join_def)

lemma join_head:
  assumes "q \<noteq> []" "colon \<notin> set q"
  obtains v t where "join colon (q # qs) = v # t" "v \<noteq> colon"
proof -
  obtain v r where "q = v # r" using assms(1) by (cases q) auto
  with assms(2) show ?thesis by (intro that[of v]) (auto simp: join_def)
qed

text \<open>Plain groups joined by single colons.\<close>

lemma join_colons:
  assumes "\<forall>p \<in> set ps. p \<noteq> [] \<and> colon \<notin> set p" "ps \<noteq> []"
  shows "split_double (join colon ps) = [join colon ps] \<and> \<not> has_triple (join colon ps)"
  using assms
proof (induction ps rule: induct_list012)
  case (2 p)
  then show ?case by (simp add: join_def double_none)
next
  case (3 p q qs)
  then have q: "q \<noteq> []" "colon \<notin> set q" by simp_all
  obtain v t where j: "join colon (q # qs) = v # t" "v \<noteq> colon" by (rule join_head[OF q])
  with 3 have "split_double (v # t) = [v # t]" "\<not> has_triple t" by simp_all
  with 3(3) j(2) show ?case
    by (simp add: join_Cons2 j(1) double_append double_colon triple_append)
qed simp

lemma length_join: "\<forall>p \<in> set ps. length p \<le> k \<Longrightarrow> ps \<noteq> [] \<Longrightarrow> length (join c ps) < length ps * Suc k"
proof (induction ps rule: induct_list012)
  case (3 p q qs)
  then have "length (join c (q # qs)) < length (q # qs) * Suc k" "length p \<le> k" by simp_all
  then show ?case by (simp add: join_Cons2)
qed (simp_all add: join_def)

lemma set_join: "u \<in> set (join c ps) \<Longrightarrow> u = c \<or> (\<exists>p \<in> set ps. u \<in> set p)"
proof (induction ps rule: induct_list012)
  case (3 p q qs)
  then show ?case by (auto simp: join_Cons2)
qed (simp_all add: join_def)

lemma lower_join: "\<forall>p \<in> set ps. map lower_unit p = p \<Longrightarrow> map lower_unit (join colon ps) = join colon ps"
proof (induction ps rule: induct_list012)
  case (3 p q qs)
  then show ?case by (simp add: join_Cons2 lower_unit_def)
qed (simp_all add: join_def)

text \<open>Eight plain groups are their own expansion.\<close>

lemma expand_full:
  assumes "\<forall>p \<in> set gs. ipv6_segment p \<and> colon \<notin> set p \<and> dot \<notin> set p \<and> map lower_unit p = p \<and> p \<noteq> [] \<and> length p \<le> 4"
    "length gs = 8"
  defines "e \<equiv> join colon gs"
  shows "expandIPv6 e = Some e" "canonical e" "split_on colon e = gs"
proof -
  have ne: "gs \<noteq> []" using assms(2) by auto
  show sp: "split_on colon e = gs" using assms ne by (simp add: e_def split_join)
  then show c: "canonical e" using assms by (simp add: canonical_def list_all_iff)
  have col: "colon \<in> set e" using sp split_plain[of colon e] assms(2) by fastforce
  have len: "length e \<le> 45" using length_join[of gs 4 colon] assms ne by simp
  have hex: "hex_digit u \<or> u = colon \<or> u = dot" "u \<noteq> dot" if "u \<in> set e" for u
    using that assms(1) set_join[of u colon gs] by (auto simp: e_def ipv6_segment_def list_all_iff)
  have d: "split_double e = [e]" "\<not> has_triple e"
    using join_colons[of gs] assms(1) ne by (simp_all add: e_def)
  have low: "map lower_unit e = e" using assms(1) by (simp add: e_def lower_join)
  have "isValidIPv6Input e"
    using col hex(1) d len by (simp add: isValidIPv6Input_def list_all_iff)
  moreover have "expandFullIPv6 e = Some e"
    using c sp by (simp add: expandFullIPv6_def canonical_def e_def)
  ultimately show "expandIPv6 e = Some e"
    using col hex(2) d by (auto simp: expandIPv6_def low has_double_def)
qed

lemma expand_mapped:
  assumes "isValidIPv4 ip"
  shows "expandIPv6 (mapped_prefix @ ip) = Some (join colon (mapped_groups (quad ip)))"
proof -
  obtain a b c d where q: "quad ip = [a, b, c, d]" "a < 256" "b < 256" "c < 256" "d < 256"
    using quad_cases[OF assms] .
  define h where "h = digits_of 16 (a * 256 + b)"
  define k where "k = digits_of 16 (c * 256 + d)"
  have "a * 256 + b < 2 ^ 16" "c * 256 + d < 2 ^ 16" using q(2-5) by simp_all
  note ph = printed_group[OF this(1), folded h_def] and pk = printed_group[OF this(2), folded k_def]
  obtain v t where h: "h = v # t" using ph(6) by (cases h) auto
  obtain w r where k: "k = w # r" using pk(6) by (cases k) auto
  have n: "v \<noteq> colon" "colon \<notin> set t" "w \<noteq> colon" "colon \<notin> set r" using ph(3) pk(3) h k by auto
  have "split_double (h @ colon # k) = [h @ colon # k]"
    using n ph(3) pk(3) by (simp add: double_append k double_colon double_none[of "w # r"])
  then have dbl: "split_double (mapped_prefix @ h @ colon # k) = [[], js ''ffff:'' @ h @ colon # k]"
    using mapped_colons(2)[OF n(1), of "t @ colon # k"] by (simp add: h)
  have f: "js ''ffff:'' @ x = js ''ffff'' @ colon # x" for x by (simp add: js_def)
  have "colon \<notin> set (js ''ffff'')" by (simp add: js_def)
  then have sp: "split_on colon (js ''ffff:'' @ h @ colon # k) = [js ''ffff'', h, k]"
    unfolding f using ph(3) pk(3) by (simp add: split_first split_plain)
  have ex: "expandCompressedIPv6 (mapped_prefix @ h @ colon # k) = Some (join colon (mapped_groups (quad ip)))"
    by (simp add: expandCompressedIPv6_def dbl parts_of_def sp mapped_groups_def q(1) flip: h_def k_def)
  have "expandIPv6WithIPv4Part (mapped_prefix @ ip) = Some (join colon (mapped_groups (quad ip)))"
    using ex by (simp add: expandIPv6WithIPv4Part_def mapped_tail[OF assms] assms hex_segments[OF assms q(1)] Let_def
        join_two has_double_def dbl flip: h_def k_def)
  moreover have "isValidIPv6Input (mapped_prefix @ ip)"
    using mapped_text[OF assms] mapped_colons_quad[OF assms] by (simp add: isValidIPv6Input_def list_all_iff)
  ultimately show ?thesis
    using mapped_text(5)[OF assms] unfolding expandIPv6_def mapped_text(3)[OF assms]
    by (simp add: mapped_prefix_units)
qed

subsection \<open>Reading it back\<close>

lemma bits_val_binary: "v < 2 ^ w \<Longrightarrow> bits_val (binary w v) = v"
proof -
  assume v: "v < 2 ^ w"
  have b: "\<forall>u \<in> set (binary w v). u = 48 \<or> u = 49" for w v
  proof (induction w arbitrary: v)
    case (Suc w)
    then show ?case by (cases "even v") (auto simp: even_iff_mod_2_eq_zero odd_iff_mod_2_eq_one)
  qed simp
  have bit1: "unat (of_nat (48 + v mod 2) :: code_unit) - 48 = v mod 2" for v
    by (cases "even v") (simp_all add: even_iff_mod_2_eq_zero odd_iff_mod_2_eq_one)
  have "v < 2 ^ w \<Longrightarrow> horner 2 (map (\<lambda>u. unat u - 48) (binary w v)) = v" for w v
  proof (induction w arbitrary: v)
    case (Suc w)
    then have "horner 2 (map (\<lambda>u. unat u - 48) (binary w (v div 2))) = v div 2" by auto
    then show ?case by (simp only: binary.simps map_append list.map horner_simps bit1) simp
  qed simp
  then have h: "horner 2 (map (\<lambda>u. unat u - 48) (binary w v)) = v" using v .
  have t: "takeWhile (\<lambda>u. u = 48 \<or> u = 49) (binary w v) = binary w v"
    using b by (simp add: takeWhile_eq_all_conv)
  show ?thesis unfolding bits_val_def t horner_units by (rule h)
qed

lemma binary_quad:
  assumes "b < 256" "c < 256" "d < 256"
  shows "binary 32 (((a * 256 + b) * 256 + c) * 256 + d) = binary 8 a @ binary 8 b @ binary 8 c @ binary 8 d"
proof -
  have "binary 32 (x * 256 + d) = binary 24 x @ binary 8 d" "binary 24 (x * 256 + c) = binary 16 x @ binary 8 c"
    "binary 16 (x * 256 + b) = binary 8 x @ binary 8 b" for x
    using binary_append[of d 8 24 x] binary_append[of c 8 16 x] binary_append[of b 8 8 x] assms by simp_all
  then show ?thesis by (simp only: append_assoc)
qed

lemma binary_ones: "binary w (2 ^ w - 1) = replicate w 49"
proof (induction w)
  case (Suc w)
  have "(2 ^ Suc w - 1) div 2 = (2 ^ w - 1 :: nat)" "(2 ^ Suc w - 1) mod 2 = (1 :: nat)"
    by (simp_all add: mod_2_eq_odd)
  with Suc show ?case by (simp add: replicate_append_same)
qed simp

lemma horner_zeros: "horner b (replicate n 0) = 0"
  by (induction n) (simp_all add: horner_Cons)

lemma mapped_binary:
  assumes "isValidIPv4 ip" "quad ip = [a, b, c, d]"
  shows "ipv6ToBinary (join colon (mapped_groups (quad ip))) =
    Some (replicate 80 48 @ replicate 16 49 @ binary 8 a @ binary 8 b @ binary 8 c @ binary 8 d)"
proof -
  have l: "a < 256" "b < 256" "c < 256" "d < 256" using quad_facts(2)[OF assms(1)] assms(2) by simp_all
  note g = mapped_groups_facts[OF l] and e = expand_full[OF mapped_groups_facts(1,2)[OF l]]
  let ?v = "((a * 256 + b) * 256 + c) * 256 + d"
  have "address6 (join colon (mapped_groups (quad ip))) = 65535 * 2 ^ 32 + ?v"
    unfolding address6_def assms(2) e(3) g(3) horner_append by (simp only: horner_zeros) (simp add: horner_def)
  moreover have "binary 128 (65535 * 2 ^ 32 + ?v) = binary 96 65535 @ binary 32 ?v"
    using binary_append[of ?v 32 96 65535] l by simp
  moreover have "binary 96 65535 = binary 80 0 @ binary 16 65535"
    using binary_append[of 65535 16 80 0] by simp
  moreover have "binary 16 65535 = replicate 16 49"
    using binary_ones[of 16] by simp
  ultimately have "binary 128 (address6 (join colon (mapped_groups (quad ip)))) =
      replicate 80 48 @ replicate 16 49 @ binary 8 a @ binary 8 b @ binary 8 c @ binary 8 d"
    using binary_quad[OF l(2-4)] by (simp only: binary_zero append_assoc)
  then show ?thesis
    using ipv6ToBinary_address[OF e(1,2)] assms(2) by simp
qed

lemma mapped_extract:
  assumes "a < 256" "b < 256" "c < 256" "d < 256"
  shows "extractIPv4Mapped (replicate 80 48 @ replicate 16 49 @ binary 8 a @ binary 8 b @ binary 8 c @ binary 8 d) =
    Some (join dot (map (digits_of 10) [a, b, c, d]))"
  using assms by (simp add: extractIPv4Mapped_def slice_def bits_val_binary del: binary.simps)

lemma isPublicIP_dotted:
  assumes "isValidIPv4 (trim s)" "quad (trim s) = [a, b, c, d]"
  shows "isPublicIP s \<longleftrightarrow> \<not> reserved a b c"
proof -
  have "s \<noteq> []" using ipv4_text(4)[OF valid_text[OF assms(1)]] by (auto simp: trim_def)
  then show ?thesis
    using assms isReservedIPv4_octets[OF assms] by (simp add: isPublicIP_def valid_text)
qed

lemma isPublicIP_mapped:
  assumes "isValidIPv4 ip" "quad ip = [a, b, c, d]"
  shows "isPublicIP (mapped_prefix @ ip) \<longleftrightarrow> \<not> reserved a b c"
proof -
  have l: "a < 256" "b < 256" "c < 256" "d < 256" using quad_facts(2)[OF assms(1)] assms(2) by simp_all
  let ?e = "join colon (mapped_groups (quad ip))"
  have sp: "split_on colon ?e = mapped_groups (quad ip)"
    using expand_full(3)[OF mapped_groups_facts(1,2)[OF l]] by (simp add: assms(2))
  have "mapped_groups (quad ip) ! 5 = js ''ffff''"
    by (simp add: mapped_groups_def nth_append)
  moreover have "split_on colon (js ''0:0:0:0:0:0:0:1'') ! 5 \<noteq> js ''ffff''"
    "split_on colon (js ''0:0:0:0:0:0:0:0'') ! 5 \<noteq> js ''ffff''" by code_simp+
  ultimately have ne: "?e \<noteq> js ''0:0:0:0:0:0:0:1''" "?e \<noteq> js ''0:0:0:0:0:0:0:0''"
    using sp by metis+
  have "\<not> ipv4_regex (mapped_prefix @ ip)"
    by (simp add: mapped_prefix_units not_dotted unit_digit_def)
  moreover have "mapped_prefix @ ip \<noteq> []" by (simp add: mapped_prefix_units)
  moreover have "ipv6_regex (mapped_prefix @ ip)"
    using mapped_text(1)[OF assms(1)] calculation(2) by (simp add: ipv6_regex_def list_all_iff)
  moreover have "isReservedIPv4 (join dot (map (digits_of 10) [a, b, c, d])) \<longleftrightarrow> reserved a b c"
    using isReservedIPv4_octets[OF printed_quad[OF l]] .
  ultimately show ?thesis
    unfolding isPublicIP_def Let_def mapped_trim[OF assms(1)] expand_mapped[OF assms(1)]
      mapped_binary[OF assms] option.case mapped_extract[OF l]
    using mapped_structure[OF assms(1)] ne by (simp del: append_is_Nil_conv)
qed

subsection \<open>Groups as bits\<close>

lemma six_groups:
  assumes "expandIPv6 ip = Some (g @ js '':0:0:0:0:0:0:0'')" "colon \<notin> set g"
  shows "ipv6ToBinary ip = Some (padStart 16 (segment_bits g) @ replicate 112 48)"
proof -
  have z: "split_on colon (js ''0:0:0:0:0:0:0'') = replicate 7 [48]" "padStart 16 (segment_bits [48]) = replicate 16 48"
    by code_simp+
  have "g @ js '':0:0:0:0:0:0:0'' = g @ colon # js ''0:0:0:0:0:0:0''" by (simp add: js_def)
  then have "split_on colon (g @ js '':0:0:0:0:0:0:0'') = g # replicate 7 [48]"
    by (simp only: split_first[OF assms(2)] z(1))
  moreover have "concat (map (\<lambda>s. padStart 16 (segment_bits s)) (replicate 7 [48])) = replicate 112 48"
    unfolding map_replicate z(2) by code_simp
  ultimately show ?thesis
    using assms(1) by (simp add: ipv6ToBinary_def js_def)
qed

lemmas text_simps = js_def hex_digit_def hex_value_def units_val_def hex_char_def lower_unit_def padStart_def

lemma first_groups:
  "padStart 16 (segment_bits (js ''fc00'')) = js ''1111110000000000''"
  "padStart 16 (segment_bits (js ''fe80'')) = js ''1111111010000000''"
  "padStart 16 (segment_bits (js ''ff00'')) = js ''1111111100000000''"
  "padStart 16 (segment_bits (js ''1ff00'')) = js ''11111111100000000''"
  by (simp_all add: segment_bits_def digits_of.simps text_simps)

lemma expanded_prefixes:
  "expandIPv6 (js ''fc00::'') = Some (js ''fc00'' @ js '':0:0:0:0:0:0:0'')"
  "expandIPv6 (js ''fe80::'') = Some (js ''fe80'' @ js '':0:0:0:0:0:0:0'')"
  "expandIPv6 (js ''ff00::'') = Some (js ''ff00'' @ js '':0:0:0:0:0:0:0'')"
  "expandIPv6 (js ''1ff00::'') = Some (js ''1ff00'' @ js '':0:0:0:0:0:0:0'')"
  by code_simp+

lemma prefix_bits:
  "ipv6ToBinary (js ''fc00::'') = Some (js ''1111110000000000'' @ replicate 112 48)"
  "ipv6ToBinary (js ''fe80::'') = Some (js ''1111111010000000'' @ replicate 112 48)"
  "ipv6ToBinary (js ''ff00::'') = Some (js ''1111111100000000'' @ replicate 112 48)"
  "ipv6ToBinary (js ''1ff00::'') = Some (js ''11111111100000000'' @ replicate 112 48)"
  unfolding first_groups[symmetric] by (rule six_groups, rule expanded_prefixes, simp add: js_def)+

lemma range_prefixes: "ipv6BinaryRanges = [js ''1111110'', js ''1111111010'', js ''11111111'']"
  by (simp add: ipv6BinaryRanges_def prefix_bits) (simp add: js_def)

lemma over_long: "isIPv6InSubnet (js ''1ff00::'') (js ''ff00::'') 8"
  by (simp add: isIPv6InSubnet_def prefix_bits) (simp add: js_def)

subsection \<open>Properties\<close>

text \<open>C14: The two implementations of CIDR membership for IPv4, the 32-bit mask of \<open>isIPv4InRange\<close> and
  the comparison of printed bits in \<open>isInSubnet\<close>, agree for every valid pair of addresses and every
  prefix length from 0 to 32, the shift by 32 included: both compare the leading bits of the numbers
  the addresses stand for, so that prefix 0 holds every address and prefix 32 one.\<close>

theorem range_tests_agree:
  assumes "isValidIPv4 ip" "isValidIPv4 r" "0 \<le> cidr" "cidr \<le> 32"
  shows "isIPv4InRange ip r cidr = Some (isIPv4InSubnet ip r cidr) \<and>
    (isIPv4InSubnet ip r cidr \<longleftrightarrow> address ip div 2 ^ nat (32 - cidr) = address r div 2 ^ nat (32 - cidr)) \<and>
    isIPv4InSubnet ip r 0 \<and> (isIPv4InSubnet ip r 32 \<longleftrightarrow> address ip = address r)"
  using range_test[OF assms] subnet_test[OF assms] subnet_test[OF assms(1,2), of 0] subnet_test[OF assms(1,2), of 32]
    address_less[OF assms(1)] address_less[OF assms(2)]
  by simp

lemma range_tests_agree_witness:
  "isIPv4InRange (js ''255.1.2.3'') (js ''10.0.0.0'') 0 = Some True \<and>
   isIPv4InRange (js ''10.1.2.3'') (js ''10.0.0.0'') 8 = Some (isIPv4InSubnet (js ''10.1.2.3'') (js ''10.0.0.0'') 8)"
proof -
  have v: "isValidIPv4 (js ''255.1.2.3'')" "isValidIPv4 (js ''10.0.0.0'')" "isValidIPv4 (js ''10.1.2.3'')" by code_simp+
  have "isIPv4InRange (js ''255.1.2.3'') (js ''10.0.0.0'') 0 = Some True"
    using range_tests_agree[OF v(1,2), of 0] by (metis order_refl zero_le_numeral)
  moreover have "isIPv4InRange (js ''10.1.2.3'') (js ''10.0.0.0'') 8 =
      Some (isIPv4InSubnet (js ''10.1.2.3'') (js ''10.0.0.0'') 8)"
    by (rule range_tests_agree[OF v(3,2), THEN conjunct1]) simp_all
  ultimately show ?thesis ..
qed

text \<open>C13: \<open>isPublicIP\<close> on dotted notation is the table of reserved networks read on the octets, and an
  address written inside IPv6 as \<open>::ffff:a.b.c.d\<close> is judged as the address itself: it is expanded,
  turned into 128 bits, recognised, printed again and looked up in the same table.\<close>

theorem public_is_unreserved:
  assumes "isValidIPv4 ip" "quad ip = [a, b, c, d]"
  shows "isPublicIP (js ''::ffff:'' @ ip) = isPublicIP ip \<and> (isPublicIP ip \<longleftrightarrow> \<not> reserved a b c)"
proof -
  have ne: "ip \<noteq> []" using ipv4_text(4)[OF valid_text[OF assms(1)]] .
  then have "trim ip = ip"
    using plain_units(3)[OF assms(1) last_in_set] plain_units(3)[OF assms(1) hd_in_set] by (intro trim_id)
  then have "isPublicIP ip \<longleftrightarrow> \<not> reserved a b c" using isPublicIP_dotted[of ip] assms by simp
  then show ?thesis using isPublicIP_mapped[OF assms] by simp
qed

lemma public_is_unreserved_witness:
  "isPublicIP (js ''8.8.8.8'') \<and> \<not> isPublicIP (js ''::ffff:'' @ js ''172.31.0.9'')"
proof -
  have "isValidIPv4 (js ''8.8.8.8'')" "quad (js ''8.8.8.8'') = [8, 8, 8, 8]"
    "isValidIPv4 (js ''172.31.0.9'')" "quad (js ''172.31.0.9'') = [172, 31, 0, 9]" by code_simp+
  then show ?thesis
    using public_is_unreserved[of "js ''8.8.8.8''" 8 8 8 8]
      public_is_unreserved[of "js ''172.31.0.9''" 172 31 0 9] by (simp add: reserved_def)
qed

text \<open>C40: The loopback address written with leading zeros is judged public: the comparison is with the
  text \<open>0:0:0:0:0:0:0:1\<close> and the expansion keeps the zeros of a group, although the binary
  form of both is the same.  An over-long group is not refused by the compressed expansion, so
  \<open>isInSubnet\<close> finds a malformed address in a network.\<close>

theorem spellings_slip_through:
  "isPublicIP (js ''::01'') \<and> \<not> isPublicIP (js ''::1'') \<and> ipv6ToBinary (js ''::01'') = ipv6ToBinary (js ''::1'') \<and>
   isInSubnet (js ''1ff00::'') (js ''ff00::/8'') \<and> \<not> isValidIPv6Structure (js ''1ff00::'')"
proof -
  have bits: "ipv6ToBinary (js ''::01'') = Some (replicate 127 48 @ [49])"
    "ipv6ToBinary (js ''::1'') = Some (replicate 127 48 @ [49])"
    "ipv6ToBinary (js ''0:0:0:0:0:0:0:01'') = Some (replicate 127 48 @ [49])" by code_simp+
  have "isPublicIP (js ''::01'')"
  proof -
    have t: "trim (js ''::01'') = js ''::01''" "js ''::01'' \<noteq> []" "\<not> ipv4_regex (js ''::01'')"
      "ipv6_regex (js ''::01'')" "isValidIPv6Structure (js ''::01'')"
      "expandIPv6 (js ''::01'') = Some (js ''0:0:0:0:0:0:0:01'')"
      "js ''0:0:0:0:0:0:0:01'' \<noteq> js ''0:0:0:0:0:0:0:1''" "js ''0:0:0:0:0:0:0:01'' \<noteq> js ''0:0:0:0:0:0:0:0''"
      "extractIPv4Mapped (replicate 127 48 @ [49]) = None" by code_simp+
    have "\<not> list_ex (\<lambda>p. take (length p) (replicate 127 48 @ [49]) = p) ipv6BinaryRanges"
      unfolding range_prefixes by code_simp
    then show ?thesis by (simp add: isPublicIP_def t bits)
  qed
  moreover have "\<not> isPublicIP (js ''::1'')" by code_simp
  moreover have "isInSubnet (js ''1ff00::'') (js ''ff00::/8'')"
  proof -
    have "js ''1ff00::'' \<noteq> [] \<and> js ''ff00::/8'' \<noteq> []"
      "trim (js ''1ff00::'') = js ''1ff00::''" "trim (js ''ff00::/8'') = js ''ff00::/8''" "isSubnet (js ''ff00::/8'')"
      "parseCIDR (js ''ff00::/8'') = Some (js ''ff00::'', 8)" "\<not> ipv4_regex (js ''1ff00::'')"
      "ipv6_regex (js ''1ff00::'')" "ipv6_regex (js ''ff00::'')" by code_simp+
    with over_long show ?thesis by (simp add: isInSubnet_def)
  qed
  moreover have "\<not> isValidIPv6Structure (js ''1ff00::'')" by code_simp
  ultimately show ?thesis by (simp add: bits)
qed

end
