(* ===== verification/Spec2Isabelle.thy ===== *)
theory Spec2Isabelle
  imports GroupGrants PoolLifecycle RouterSearch RedisConn MemoryCache CacheManager Cronus IpPublic
begin

text \<open>
  A verification of the core of TundraLibs, a set of TypeScript libraries for Deno, Bun and Node.js.
  The repository holds nineteen packages under \<open>src/packages\<close>; the development models the ones whose
  correctness rests on their own state and algorithms, in the order below.

  \<^bold>\<open>How the language is read.\<close>  A \<open>BigInt\<close> is an \<open>int\<close>, a string the list of its UTF-16 code units
  (\<open>jstring\<close>), a byte an \<open>8 word\<close>, a \<open>Map\<close> or object an association list in insertion order, a \<open>Set\<close>
  a duplicate-free list, a thrown exception the \<open>Inl\<close> of a sum.  An \<open>async\<close> operation is cut at its
  waits: the part behind a wait is a pending task of the state, and a step relation or an event list
  lets it resume at any later moment, between any other steps.  What the sources only call is a
  parameter: the group resolver, the connection factory and validator, Unicode case tables, the
  bytes a socket delivers, the clock.  \<open>Prelude\<close> holds the containers, decimal numbers and bits of
  unbounded integers with their collections \<open>js_simps\<close> and \<open>sum_simps\<close>; \<open>UriText\<close> the strings,
  code points, percent decoding and digits; \<open>TextCodec\<close> the UTF-8 encoder and decoder of the platform.

  \<^bold>\<open>Permissions (\<open>Permissions\<close>: pact/Permissions.ts, pact/grants.ts).\<close>  The bitmask engine: the
  registry and its constructor's checks, the verdicts \<open>has\<close>, \<open>any\<close>, \<open>all\<close>, \<open>assert\<close>, the mask
  algebra, the combination and serialisation of grants.  Proved: the constructor's invariant and exact
  domain, the verdict as inclusion of bit sets, combination as union, two round trips.

  \<^bold>\<open>Group grants (\<open>GroupGrants\<close>: pact/Groups.ts).\<close>  The cache of resolved groups with its in-flight
  requests, generations and fences.  Proved over every interleaving: cached values postdate the last
  clear, answers apply in issue order, an uninterrupted call is exact, the retry loops end.

  \<^bold>\<open>Connection pool (\<open>Pool\<close>, \<open>PoolOwnership\<close>, \<open>PoolCapacity\<close>, \<open>PoolCalls\<close>, \<open>PoolService\<close>:
  drivers/ConnectionPool.ts; \<open>PoolLifecycle\<close>: drivers/poolLifecycle.ts).\<close>  Acquire, release, hand-off
  to waiters, replacement, idle eviction and drain as continuations of a step relation.  Proved: a
  connection has one owner, the capacity is respected, no call is lost or answered twice, hand-off is
  first come first served, drain empties; an engine's status and its pool agree.  The locale \<open>hosted\<close> is
  what an engine needs of a pool; it is interpreted on the pool's model.

  \<^bold>\<open>Router (\<open>Router\<close>, \<open>RouterTrie\<close>, \<open>RouterSearch\<close>: radrouter/RadRouter.ts).\<close>  The radix tree of
  path parsing, insertion with node splitting, and the backtracking search with its captures.  The
  abstract contract is the table of registered paths (\<open>slots\<close>) and the relation \<open>matches\<close> between a
  path and a request.  Proved: insertion updates exactly one entry of the table, the search answers
  exactly when an entry matches, and with a match's own captures.

  \<^bold>\<open>Redis protocol (\<open>Resp\<close>, \<open>RespWire\<close>, \<open>RespParse\<close>: drivers/engines/redis/resp.ts; \<open>RedisConn\<close>:
  RedisConnection.ts).\<close>  Command encoder, recursive reply parser, growable receive buffer, the read
  loop.  The contract is \<open>wire\<close>, the serialisation the protocol prescribes.  Proved: round trips of
  replies and commands, \<open>Incomplete\<close> on every proper prefix, termination, and that replies do not
  depend on how the stream is cut into chunks.  The parser's fuel bounds the nesting of frames: as much
  as the reply is nested is enough (\<open>reply_roundtrip\<close>), and one more than the bytes in the buffer is
  enough for any buffer the parser returns on (\<open>parser_returns\<close>).  The read loop's fuel bounds the
  frames and chunks looked at: more than their number plus the nesting is enough.

  \<^bold>\<open>Cache (\<open>CacheEngine\<close>: cacher/AbstractEngine.ts; \<open>MemoryCache\<close>: engines/memory/MemoryCacher.ts;
  \<open>CacheManager\<close>: cacher/Cacher.ts).\<close>  The public operations over an abstract store, the in-process
  store with timers and deadlines, the registry.  The locale \<open>expiring_store\<close> is the contract between
  the base class and a store, stated against a map whose entries expire; it is interpreted on
  \<open>MemoryCacher\<close>, which gives that timers are invisible.  Proved besides: disjoint namespaces, one
  instance per name, no instance lost.

  \<^bold>\<open>Scheduler (\<open>Schedule\<close>: cronus/schedule.ts; \<open>Cronus\<close>: cronus/Cronus.ts).\<close>  The cron parser and
  matcher, the jobs, ticks, runs and timer chain.  Proved: parsed fields are legal, a written field
  denotes exactly its items' values, no job overlaps itself, exactly one timer chain while active.

  \<^bold>\<open>Addresses (\<open>IpUtils\<close>, \<open>IpRanges\<close>, \<open>IpPublic\<close>: utils/ipUtils.ts, isSubnet.ts, isInSubnet.ts,
  isPublicIP.ts).\<close>  Recognition and expansion of both notations, the packed form with JavaScript's
  32-bit operators, the printed binary form, subnets and the test for public addresses.  The reference is
  the number an address stands for (\<open>address\<close>, \<open>address6\<close>).  Proved: the two membership tests compare
  leading bits and agree, the verdict on public addresses is the table read on the octets, also through
  the embedding into IPv6.

  \<^bold>\<open>What modelling showed.\<close>  Each of these is a theorem about the code as it is: a validator that throws
  leaks pool connections until the pool starves (\<open>starved_forever\<close>); a stale disconnect closes an engine
  that was opened again (\<open>stale_disconnect_leaks\<close>); a clear between two reads drops group grants
  (\<open>combined_cached_then_cleared\<close>); a negative bulk-error length makes the reply parser recurse without end
  (\<open>negative_error_length_diverges\<close>); a malformed reply leaves a connection open and poisoned
  (\<open>malformed_reply_poisons\<close>); a clamped timer evicts long-lived values early
  (\<open>clamped_timer_evicts_early\<close>); a late removal drops a new cache instance without finalizing it
  (\<open>late_removal_loses_instance\<close>); a fixed-time job with two times in the repeated hour fires twice at one
  wall-clock minute (\<open>repeated_hour_fires_again\<close>); leading zeros and over-long groups of IPv6 slip through
  the public and subnet tests (\<open>spellings_slip_through\<close>).

  \<^bold>\<open>Not modelled.\<close>  Message texts and contexts of errors; listeners of events; the conversion of replies to
  plain objects (\<open>unwrap\<close>); the network stores of the cache, which are sequences of client calls; the
  token and hook facade \<open>PACT.ts\<close>.  Of the other packages: metrics (metro-man), the rest of utils, id, guardian, oql,
  norm, tracer, slogger, rpc, restler, doctor and ambient have logic of their own and are left for later;
  compat is glue over the runtimes, crypt calls the platform's cryptography.
\<close>

end
